(* ===== verification/Prelude.thy ===== *)
theory Prelude
  imports Main "HOL-Library.Word" "HOL-Library.Char_ord" "HOL-Library.List_Lexorder"
    "HOL-Library.Sublist"
begin

unbundle bit_operations_syntax

text \<open>
  The prelude of the development: the machine types of the Go source, the error-or-value
  result type, slices, byte strings, and the generic lemmas on lists and words that every
  component uses.  Two collections carry the component proofs: \<open>wire_simps\<close> (lengths and
  round trips of big-endian fields) and \<open>res_simps\<close> (unfolding of the result type).
\<close>

named_theorems wire_simps \<open>lengths and round trips of wire fields\<close>
named_theorems res_simps \<open>rewriting of the result type\<close>

section \<open>Machine types\<close>

text \<open>Go's \<open>byte\<close>, \<open>uint16\<close>, \<open>uint32\<close>, \<open>uint64\<close> are words of that width and \<open>[]byte\<close>
  is a list of bytes.  A Go string is a sequence of bytes as well; it is a HOL string
  (a list of 8-bit characters), so that literals can be written as in the source.\<close>

type_synonym byte = "8 word"
type_synonym u16 = "16 word"
type_synonym u32 = "32 word"
type_synonym u64 = "64 word"
type_synonym bytes = "byte list"

section \<open>Results\<close>

text \<open>A Go function returning \<open>(T, error)\<close> returns \<open>'e + 't\<close>: \<open>Inl\<close> is the error path.\<close>

definition res_bind :: "'e + 'a \<Rightarrow> ('a \<Rightarrow> 'e + 'b) \<Rightarrow> 'e + 'b" where
  "res_bind m f = (case m of Inl e \<Rightarrow> Inl e | Inr x \<Rightarrow> f x)"

lemma res_bind_Inl [simp, res_simps]: "res_bind (Inl e) f = Inl e"
  by (simp add: res_bind_def)

lemma res_bind_Inr [simp, res_simps]: "res_bind (Inr x) f = f x"
  by (simp add: res_bind_def)

lemma res_bind_eq_Inr:
  "res_bind m f = Inr y \<longleftrightarrow> (\<exists>x. m = Inr x \<and> f x = Inr y)"
  by (cases m) simp_all

lemma res_bind_eq_Inl:
  "res_bind m f = Inl e \<longleftrightarrow> m = Inl e \<or> (\<exists>x. m = Inr x \<and> f x = Inl e)"
  by (cases m) simp_all

lemma res_bind_split:
  "P (res_bind m f) \<longleftrightarrow> (\<forall>e. m = Inl e \<longrightarrow> P (Inl e)) \<and> (\<forall>x. m = Inr x \<longrightarrow> P (f x))"
  by (cases m) simp_all

lemma res_bind_cong [fundef_cong]:
  "m = m' \<Longrightarrow> (\<And>x. m' = Inr x \<Longrightarrow> f x = f' x) \<Longrightarrow> res_bind m f = res_bind m' f'"
  by (cases m') simp_all

section \<open>Slices\<close>

text \<open>\<open>sub_slice xs a b\<close> is Go's \<open>xs[a:b]\<close> for \<open>a \<le> b \<le> len(xs)\<close>; the models guard it by the
  bounds checks of the source.  \<open>copy_at xs a ys\<close> is the effect of \<open>copy(xs[a:], ys)\<close>: at
  most \<open>len(xs) - a\<close> elements are overwritten.\<close>

definition sub_slice :: "'a list \<Rightarrow> nat \<Rightarrow> nat \<Rightarrow> 'a list" where
  "sub_slice xs a b = take (b - a) (drop a xs)"

definition copy_at :: "'a list \<Rightarrow> nat \<Rightarrow> 'a list \<Rightarrow> 'a list" where
  "copy_at xs a ys = take a xs @ take (length xs - a) ys @ drop (a + length ys) xs"

lemma length_sub_slice [simp, wire_simps]:
  "length (sub_slice xs a b) = min (b - a) (length xs - a)"
  by (simp add: sub_slice_def min.commute)

lemma sub_slice_append1:
  "b \<le> length xs \<Longrightarrow> sub_slice (xs @ ys) a b = sub_slice xs a b"
  by (simp add: sub_slice_def)

lemma sub_slice_append2:
  "length xs = a \<Longrightarrow> length ys = b - a \<Longrightarrow> sub_slice (xs @ ys @ zs) a b = ys"
  by (simp add: sub_slice_def)

lemma sub_slice_full [simp]: "sub_slice xs 0 (length xs) = xs"
  by (simp add: sub_slice_def)

lemma sub_slice_take: "b \<le> n \<Longrightarrow> sub_slice (take n xs) a b = sub_slice xs a b"
  by (simp add: sub_slice_def drop_take min_absorb1)

lemma length_copy_at [simp, wire_simps]:
  "a \<le> length xs \<Longrightarrow> length (copy_at xs a ys) = length xs"
  by (auto simp: copy_at_def)

lemma copy_at_fit:
  "a + length ys \<le> length xs \<Longrightarrow> copy_at xs a ys = take a xs @ ys @ drop (a + length ys) xs"
  by (simp add: copy_at_def)

lemma take_copy_at:
  "n \<le> a \<Longrightarrow> a \<le> length xs \<Longrightarrow> take n (copy_at xs a ys) = take n xs"
  by (simp add: copy_at_def min_absorb1)

lemma drop_copy_at:
  "a + length ys \<le> n \<Longrightarrow> a + length ys \<le> length xs \<Longrightarrow> drop n (copy_at xs a ys) = drop n xs"
  by (simp add: copy_at_fit)

lemma sub_slice_copy_at_same:
  "a + length ys \<le> length xs \<Longrightarrow> sub_slice (copy_at xs a ys) a (a + length ys) = ys"
  by (simp add: copy_at_fit sub_slice_def)

lemma nth_copy_at:
  assumes "a + length ys \<le> length xs" and "i < length xs"
  shows "copy_at xs a ys ! i =
    (if i < a then xs ! i else if i < a + length ys then ys ! (i - a) else xs ! i)"
  using assms by (auto simp: copy_at_fit nth_append)

section \<open>Strings and bytes\<close>

definition byte_of_char :: "char \<Rightarrow> byte" where
  "byte_of_char c = word_of_nat (of_char c)"

definition char_of_byte :: "byte \<Rightarrow> char" where
  "char_of_byte b = char_of (unat b)"

definition bytes_of :: "string \<Rightarrow> bytes" where
  "bytes_of s = map byte_of_char s"

definition string_of :: "bytes \<Rightarrow> string" where
  "string_of bs = map char_of_byte bs"

lemma unat_byte_of_char: "unat (byte_of_char c) = of_char c"
proof -
  have "(of_char c :: nat) < 2 ^ 8"
    using nat_of_char_less_256 [of c] by simp
  then show ?thesis
    by (simp add: byte_of_char_def unat_of_nat)
qed

lemma char_of_byte_of_char [simp]: "char_of_byte (byte_of_char c) = c"
  by (simp add: char_of_byte_def unat_byte_of_char)

lemma byte_of_char_of_byte [simp]: "byte_of_char (char_of_byte b) = b"
proof -
  have "unat b < 256" using unsigned_less [of b, where ?'a = nat] by simp
  then have "unat (byte_of_char (char_of_byte b)) = unat b"
    by (simp add: char_of_byte_def unat_byte_of_char)
  then show ?thesis by (simp add: word_unat_eq_iff)
qed

lemma string_of_bytes_of [simp]: "string_of (bytes_of s) = s"
  by (simp add: string_of_def bytes_of_def comp_def)

lemma bytes_of_string_of [simp]: "bytes_of (string_of bs) = bs"
  by (simp add: string_of_def bytes_of_def comp_def)

lemma length_bytes_of [simp, wire_simps]: "length (bytes_of s) = length s"
  by (simp add: bytes_of_def)

lemma length_string_of [simp, wire_simps]: "length (string_of s) = length s"
  by (simp add: string_of_def)

lemma string_of_append [simp]: "string_of (a @ b) = string_of a @ string_of b"
  by (simp add: string_of_def)

lemma bytes_of_append [simp]: "bytes_of (a @ b) = bytes_of a @ bytes_of b"
  by (simp add: bytes_of_def)

lemma bytes_of_Nil [simp]: "bytes_of [] = []" and string_of_Nil [simp]: "string_of [] = []"
  by (simp_all add: bytes_of_def string_of_def)

lemma bytes_of_inject [simp]: "bytes_of s = bytes_of t \<longleftrightarrow> s = t"
  by (metis string_of_bytes_of)

end
