(* ===== verification/GoLib.thy ===== *)
theory GoLib
  imports Prelude
begin

text \<open>
  The parts of the Go standard library that the modelled packages call:
  \<open>encoding/binary\<close> (big-endian fields), \<open>hash/crc32\<close> (the IEEE polynomial), \<open>strings\<close>
  (case folding, trimming, splitting) and \<open>strconv\<close> (decimal numbers), each as an
  executable function with the round-trip and length facts the components use.
\<close>

section \<open>encoding/binary: big-endian integers\<close>

definition put16 :: "u16 \<Rightarrow> bytes" where
  "put16 v = [ucast (drop_bit 8 v), ucast v]"

definition put32 :: "u32 \<Rightarrow> bytes" where
  "put32 v = [ucast (drop_bit 24 v), ucast (drop_bit 16 v), ucast (drop_bit 8 v), ucast v]"

text \<open>Every call site of \<open>Uint16\<close> and \<open>Uint32\<close> passes a slice of exactly two or four
  bytes, taken after a bounds check; other lengths do not occur.\<close>

fun get16 :: "bytes \<Rightarrow> u16" where
  "get16 [b0, b1] = ucast b1 OR push_bit 8 (ucast b0)"
| "get16 _ = 0"

fun get32 :: "bytes \<Rightarrow> u32" where
  "get32 [b0, b1, b2, b3] =
     ucast b3 OR push_bit 8 (ucast b2) OR push_bit 16 (ucast b1) OR push_bit 24 (ucast b0)"
| "get32 _ = 0"

lemma length_put16 [simp, wire_simps]: "length (put16 v) = 2"
  by (simp add: put16_def)

lemma length_put32 [simp, wire_simps]: "length (put32 v) = 4"
  by (simp add: put32_def)

lemma get16_put16 [simp, wire_simps]: "get16 (put16 v) = v"
  unfolding put16_def get16.simps
  by (rule bit_word_eqI) (auto simp: bit_simps not_less)

lemma get32_put32 [simp, wire_simps]: "get32 (put32 v) = v"
  unfolding put32_def get32.simps
  apply (rule bit_word_eqI)
  subgoal for n
    by (cases "n < 8"; cases "n < 16"; cases "n < 24") (auto simp: bit_simps not_less)
  done

lemma put16_get16:
  assumes "length bs = 2" shows "put16 (get16 bs) = bs"
proof -
  from assms obtain a b where "bs = [a, b]"
    by (metis (no_types, opaque_lifting) One_nat_def Suc_length_conv length_0_conv numeral_2_eq_2)
  moreover have "ucast (drop_bit 8 (ucast b OR push_bit 8 (ucast a) :: u16)) = a"
    by (rule bit_word_eqI) (auto simp: bit_simps dest: bit_imp_le_length)
  moreover have "ucast (ucast b OR push_bit 8 (ucast a) :: u16) = b"
    by (rule bit_word_eqI) (auto simp: bit_simps)
  ultimately show ?thesis by (simp add: put16_def)
qed

lemma put16_inject [simp]: "put16 v = put16 w \<longleftrightarrow> v = w"
  by (metis get16_put16)

lemma put32_inject [simp]: "put32 v = put32 w \<longleftrightarrow> v = w"
  by (metis get32_put32)

text \<open>\<open>PutUint16(buf[off:], v)\<close> and \<open>PutUint32(buf[off:], v)\<close>.\<close>

definition put16_at :: "bytes \<Rightarrow> nat \<Rightarrow> u16 \<Rightarrow> bytes" where
  "put16_at buf off v = copy_at buf off (put16 v)"

definition put32_at :: "bytes \<Rightarrow> nat \<Rightarrow> u32 \<Rightarrow> bytes" where
  "put32_at buf off v = copy_at buf off (put32 v)"

lemma take_put16_at: "n \<le> off \<Longrightarrow> off \<le> length buf \<Longrightarrow> take n (put16_at buf off v) = take n buf"
  by (simp add: put16_at_def take_copy_at)

lemma take_put32_at: "n \<le> off \<Longrightarrow> off \<le> length buf \<Longrightarrow> take n (put32_at buf off v) = take n buf"
  by (simp add: put32_at_def take_copy_at)

lemma length_put16_at [simp]: "off \<le> length buf \<Longrightarrow> length (put16_at buf off v) = length buf"
  by (simp add: put16_at_def)

lemma length_put32_at [simp]: "off \<le> length buf \<Longrightarrow> length (put32_at buf off v) = length buf"
  by (simp add: put32_at_def)

text \<open>Two consecutive writes into a buffer are one write of both pieces.\<close>

lemma copy_at_append:
  "off + length xs + length ys \<le> length buf \<Longrightarrow>
   copy_at (copy_at buf off xs) (off + length xs) ys = copy_at buf off (xs @ ys)"
  by (simp add: copy_at_fit ac_simps)

lemma copy_at_all: "length xs = length buf \<Longrightarrow> copy_at buf 0 xs = xs"
  by (simp add: copy_at_def)

section \<open>hash/crc32: the IEEE checksum\<close>

text \<open>\<open>crc32.NewIEEE\<close> keeps a running checksum; \<open>Write\<close> feeds bytes and \<open>Sum32\<close> reads it.  The
  table-driven implementation of the library computes the bitwise reflected polynomial
  \<open>0xEDB88320\<close> below.  The state is the inverted register, so that \<open>Reset\<close> is 0.\<close>

definition crc_shift :: "u32 \<Rightarrow> u32" where
  "crc_shift c = (if bit c 0 then drop_bit 1 c XOR 0xEDB88320 else drop_bit 1 c)"

definition crc_byte :: "u32 \<Rightarrow> byte \<Rightarrow> u32" where
  "crc_byte c b = (crc_shift ^^ 8) (c XOR ucast b)"

definition crc_write :: "u32 \<Rightarrow> bytes \<Rightarrow> u32" where
  "crc_write c bs = NOT (foldl crc_byte (NOT c) bs)"

definition crc32 :: "bytes \<Rightarrow> u32" where
  "crc32 bs = crc_write 0 bs"

lemma crc_write_append [simp]: "crc_write c (xs @ ys) = crc_write (crc_write c xs) ys"
  by (simp add: crc_write_def)

lemma crc_write_Nil [simp]: "crc_write c [] = c"
  by (simp add: crc_write_def)

section \<open>strings\<close>

definition is_upper :: "char \<Rightarrow> bool" where
  "is_upper c \<longleftrightarrow> 65 \<le> (of_char c :: nat) \<and> (of_char c :: nat) \<le> 90"

definition lower_char :: "char \<Rightarrow> char" where
  "lower_char c = (if is_upper c then char_of ((of_char c :: nat) + 32) else c)"

definition is_ascii :: "char \<Rightarrow> bool" where
  "is_ascii c \<longleftrightarrow> (of_char c :: nat) < 128"

text \<open>ASCII case folding, the loop \<open>if 'A' <= b <= 'Z' then b += 32\<close> of the source.\<close>

definition lower_ascii :: "string \<Rightarrow> string" where
  "lower_ascii s = map lower_char s"

text \<open>\<open>strings.ToLower\<close> folds ASCII strings byte by byte; on a string with a byte above 127 it
  decodes UTF-8 and maps each rune with the Unicode tables.  The table-driven part is the
  parameter \<open>ul\<close>: every theorem holds for any such mapping.\<close>

definition ToLower :: "(string \<Rightarrow> string) \<Rightarrow> string \<Rightarrow> string" where
  "ToLower ul s = (if list_all is_ascii s then lower_ascii s else ul s)"

lemma not_is_upper_lower_char [simp]: "\<not> is_upper (lower_char c)"
  by (auto simp: lower_char_def is_upper_def)

lemma lower_char_idem [simp]: "lower_char (lower_char c) = lower_char c"
  by (simp add: lower_char_def [of "lower_char c"])

lemma lower_ascii_idem [simp]: "lower_ascii (lower_ascii s) = lower_ascii s"
  by (simp add: lower_ascii_def)

lemma length_lower_ascii [simp]: "length (lower_ascii s) = length s"
  by (simp add: lower_ascii_def)

lemma lower_ascii_append [simp]: "lower_ascii (s @ t) = lower_ascii s @ lower_ascii t"
  by (simp add: lower_ascii_def)

lemma lower_ascii_Nil [simp]: "lower_ascii [] = []"
  by (simp add: lower_ascii_def)

lemma lower_ascii_eq_Nil [simp]: "lower_ascii s = [] \<longleftrightarrow> s = []"
  by (simp add: lower_ascii_def)

lemma lower_char_dot [simp]: "lower_char CHR ''.'' = CHR ''.''"
  by (simp add: lower_char_def is_upper_def)

lemma lower_char_eq_dot [simp]: "lower_char c = CHR ''.'' \<longleftrightarrow> c = CHR ''.''"
proof
  assume h: "lower_char c = CHR ''.''"
  show "c = CHR ''.''"
  proof (cases "is_upper c")
    case True
    then have "(of_char (lower_char c) :: nat) = of_char c + 32"
      by (simp add: lower_char_def is_upper_def)
    with h True show ?thesis by (simp add: is_upper_def)
  next
    case False
    with h show ?thesis by (simp add: lower_char_def)
  qed
qed simp

subsection \<open>Searching and splitting\<close>

text \<open>\<open>strings.IndexByte\<close> and \<open>strings.LastIndexByte\<close>: \<open>None\<close> is the source's -1.\<close>

fun IndexByte :: "string \<Rightarrow> char \<Rightarrow> nat option" where
  "IndexByte [] c = None"
| "IndexByte (x # xs) c = (if x = c then Some 0 else map_option Suc (IndexByte xs c))"

fun LastIndexByte :: "string \<Rightarrow> char \<Rightarrow> nat option" where
  "LastIndexByte [] c = None"
| "LastIndexByte (x # xs) c =
     (case LastIndexByte xs c of
        Some i \<Rightarrow> Some (Suc i)
      | None \<Rightarrow> if x = c then Some 0 else None)"

text \<open>\<open>strings.SplitSeq\<close> with a one-byte separator.\<close>

fun split_on :: "char \<Rightarrow> string \<Rightarrow> string list" where
  "split_on c [] = [[]]"
| "split_on c (x # xs) =
     (if x = c then [] # split_on c xs
      else case split_on c xs of [] \<Rightarrow> [[x]] | y # ys \<Rightarrow> (x # y) # ys)"

fun join_with :: "char \<Rightarrow> string list \<Rightarrow> string" where
  "join_with c [] = []"
| "join_with c [x] = x"
| "join_with c (x # y # zs) = x @ c # join_with c (y # zs)"

lemma IndexByte_None: "IndexByte s c = None \<longleftrightarrow> c \<notin> set s"
  by (induction s) auto

lemma IndexByte_Some: "IndexByte s c = Some i \<Longrightarrow>
  i < length s \<and> s ! i = c \<and> c \<notin> set (take i s)"
  by (induction s arbitrary: i) (auto split: if_splits)

lemma IndexByte_append:
  "c \<notin> set s \<Longrightarrow> IndexByte (s @ c # t) c = Some (length s)"
  by (induction s) auto

lemma LastIndexByte_None: "LastIndexByte s c = None \<longleftrightarrow> c \<notin> set s"
  by (induction s) (auto split: option.splits)

lemma LastIndexByte_Some: "LastIndexByte s c = Some i \<Longrightarrow>
  i < length s \<and> s ! i = c \<and> c \<notin> set (drop (Suc i) s)"
  by (induction s arbitrary: i) (auto simp: LastIndexByte_None split: option.splits if_splits)

lemma LastIndexByte_append:
  "c \<notin> set t \<Longrightarrow> LastIndexByte (s @ c # t) c = Some (length s)"
  by (induction s) (simp_all add: LastIndexByte_None [THEN iffD2])

lemma split_on_not_Nil [simp]: "split_on c s \<noteq> []"
  by (induction s) (auto split: list.splits)

lemma split_on_no_sep: "c \<notin> set s \<Longrightarrow> split_on c s = [s]"
  by (induction s) auto

lemma split_on_append_sep: "split_on c (s @ c # t) = split_on c s @ split_on c t"
  by (induction s) (auto split: list.splits)

lemma join_with_split_on [simp]: "join_with c (split_on c s) = s"
proof (induction s)
  case (Cons x xs)
  then show ?case
    by (cases "split_on c xs"; cases "tl (split_on c xs)") auto
qed simp

lemma split_on_join_with:
  "xs \<noteq> [] \<Longrightarrow> \<forall>x \<in> set xs. c \<notin> set x \<Longrightarrow> split_on c (join_with c xs) = xs"
  by (induction c xs rule: join_with.induct) (auto simp: split_on_no_sep split_on_append_sep)

lemma split_on_no_sep_mem: "x \<in> set (split_on c s) \<Longrightarrow> c \<notin> set x"
  by (induction s arbitrary: x) (fastforce split: list.splits if_splits)+

lemma join_with_Cons: "ys \<noteq> [] \<Longrightarrow> join_with c (x # ys) = x @ c # join_with c ys"
  by (cases ys) auto

lemma join_with_append:
  "xs \<noteq> [] \<Longrightarrow> ys \<noteq> [] \<Longrightarrow> join_with c (xs @ ys) = join_with c xs @ c # join_with c ys"
proof (induction xs)
  case (Cons x xs)
  then show ?case by (cases "xs = []") (simp_all add: join_with_Cons)
qed simp

subsection \<open>Trimming\<close>

definition TrimSuffix :: "string \<Rightarrow> string \<Rightarrow> string" where
  "TrimSuffix s suf = (if suffix suf s then take (length s - length suf) s else s)"

text \<open>\<open>strings.TrimSpace\<close> removes Unicode white space: the six ASCII characters and the UTF-8
  encodings of U+0085, U+00A0, U+1680, U+2000 to U+200A, U+2028, U+2029, U+202F, U+205F and
  U+3000.\<close>

definition white_space :: "string list" where
  "white_space = map (map char_of)
     ([[9], [10], [11], [12], [13], [32], [0xC2, 0x85], [0xC2, 0xA0], [0xE1, 0x9A, 0x80],
       [0xE2, 0x80, 0xA8], [0xE2, 0x80, 0xA9], [0xE2, 0x80, 0xAF], [0xE2, 0x81, 0x9F],
       [0xE3, 0x80, 0x80]]
      @ map (\<lambda>i. [0xE2, 0x80, 0x80 + i]) [0..<11 :: nat])"

text \<open>The trimming loop: as long as the string starts with one of the sequences, drop it.\<close>

function trim_front :: "string list \<Rightarrow> string \<Rightarrow> string" where
  "trim_front ws s =
     (case find (\<lambda>w. w \<noteq> [] \<and> prefix w s) ws of
        None \<Rightarrow> s
      | Some w \<Rightarrow> trim_front ws (drop (length w) s))"
  by pat_completeness auto
termination
  by (relation "measure (\<lambda>(ws, s). length s)") (auto simp: find_Some_iff prefix_def)

declare trim_front.simps [simp del]

definition TrimSpace :: "string \<Rightarrow> string" where
  "TrimSpace s = rev (trim_front (map rev white_space) (rev (trim_front white_space s)))"

lemma trim_front_suffix: "suffix (trim_front ws s) s"
proof (induction ws s rule: trim_front.induct)
  case (1 ws s)
  show ?case
  proof (cases "find (\<lambda>w. w \<noteq> [] \<and> prefix w s) ws")
    case None
    then show ?thesis by (simp add: trim_front.simps [of ws s])
  next
    case (Some w)
    then have "suffix (trim_front ws (drop (length w) s)) (drop (length w) s)"
      by (rule "1")
    then have "suffix (trim_front ws (drop (length w) s)) s"
      by (rule suffix_order.trans) (rule suffix_drop)
    with Some show ?thesis by (simp add: trim_front.simps [of ws s])
  qed
qed

lemma trim_front_id:
  "(\<And>w. w \<in> set ws \<Longrightarrow> w \<noteq> [] \<Longrightarrow> \<not> prefix w s) \<Longrightarrow> trim_front ws s = s"
  by (auto simp: trim_front.simps [of ws s] find_None_iff split: option.splits dest!: find_Some_iff [THEN iffD1])

lemma sublist_TrimSpace: "sublist (TrimSpace s) s"
proof -
  let ?t = "trim_front white_space s"
  have "suffix (trim_front (map rev white_space) (rev ?t)) (rev ?t)"
    by (rule trim_front_suffix)
  then have "prefix (TrimSpace s) ?t"
    by (simp add: TrimSpace_def suffix_to_prefix)
  moreover have "suffix ?t s"
    by (rule trim_front_suffix)
  ultimately show ?thesis
    by (meson prefix_imp_sublist sublist_order.order_trans suffix_imp_sublist)
qed

lemma length_TrimSpace_le: "length (TrimSpace s) \<le> length s"
  by (rule sublist_length_le) (rule sublist_TrimSpace)

section \<open>strconv: decimal numbers\<close>

definition digit_char :: "nat \<Rightarrow> char" where
  "digit_char d = char_of (48 + d)"

definition is_digit :: "char \<Rightarrow> bool" where
  "is_digit c \<longleftrightarrow> 48 \<le> (of_char c :: nat) \<and> (of_char c :: nat) \<le> 57"

definition digit_val :: "char \<Rightarrow> nat" where
  "digit_val c = of_char c - 48"

text \<open>\<open>strconv.FormatUint(n, 10)\<close>.\<close>

fun FormatUint :: "nat \<Rightarrow> string" where
  "FormatUint n =
     (if n < 10 then [digit_char n] else FormatUint (n div 10) @ [digit_char (n mod 10)])"

declare FormatUint.simps [simp del]

text \<open>\<open>strconv.ParseUint(s, 10, bits)\<close>: a non-empty string of digits, no sign, in range.\<close>

definition digits_val :: "string \<Rightarrow> nat" where
  "digits_val s = foldl (\<lambda>n c. 10 * n + digit_val c) 0 s"

definition ParseUint :: "string \<Rightarrow> nat \<Rightarrow> nat option" where
  "ParseUint s bits =
     (if s = [] \<or> \<not> list_all is_digit s then None
      else if digits_val s < 2 ^ bits then Some (digits_val s) else None)"

lemma is_digit_digit_char: "d < 10 \<Longrightarrow> is_digit (digit_char d)"
  by (simp add: is_digit_def digit_char_def)

lemma digit_val_digit_char: "d < 10 \<Longrightarrow> digit_val (digit_char d) = d"
  by (simp add: digit_val_def digit_char_def)

lemma digits_val_snoc: "digits_val (s @ [c]) = 10 * digits_val s + digit_val c"
  by (simp add: digits_val_def)

lemma FormatUint_props:
  "FormatUint n \<noteq> [] \<and> list_all is_digit (FormatUint n) \<and> digits_val (FormatUint n) = n"
proof (induction n rule: FormatUint.induct)
  case (1 n)
  show ?case
  proof (cases "n < 10")
    case True
    then show ?thesis
      by (simp add: FormatUint.simps [of n] is_digit_digit_char digits_val_def digit_val_digit_char)
  next
    case False
    then show ?thesis
      using "1" by (simp add: FormatUint.simps [of n] is_digit_digit_char digits_val_snoc
          digit_val_digit_char)
  qed
qed

lemma ParseUint_FormatUint [simp]: "n < 2 ^ bits \<Longrightarrow> ParseUint (FormatUint n) bits = Some n"
  using FormatUint_props [of n] by (simp add: ParseUint_def)

lemma ParseUint_bound: "ParseUint s bits = Some n \<Longrightarrow> n < 2 ^ bits"
  by (auto simp: ParseUint_def split: if_splits)

end
