(* ===== verification/DomainIterator.thy ===== *)
theory DomainIterator
  imports GoLib
begin

text \<open>
  \<open>internal/radix/iterator.go\<close>: the cursor that walks a domain name from right to left and
  hands out its labels, case-folded.  The main lemma (\<open>labels_split\<close>) says which labels the
  loop \<open>for { label, ok := it.NextLower(buf); if !ok { break } ... }\<close> of the radix tree sees:
  the non-empty dot-separated parts, last part first, in lower case.
\<close>

record DomainIterator =
  it_domain :: string
  it_cursor :: nat

definition NewDomainIterator :: "string \<Rightarrow> DomainIterator" where
  "NewDomainIterator domain = \<lparr>it_domain = domain, it_cursor = length domain\<rparr>"

text \<open>\<open>Next\<close> returns the label (or \<open>None\<close> for the source's \<open>"", false\<close>) and the moved cursor.\<close>

function Next :: "DomainIterator \<Rightarrow> string option \<times> DomainIterator" where
  "Next it =
     (if it_cursor it > 0 then
        (let cur = it_cursor it in
         case LastIndexByte (take cur (it_domain it)) CHR ''.'' of
           None \<Rightarrow> (Some (take cur (it_domain it)), it\<lparr>it_cursor := 0\<rparr>)
         | Some dotIdx \<Rightarrow>
             (let label = sub_slice (it_domain it) (dotIdx + 1) cur;
                  it' = it\<lparr>it_cursor := dotIdx\<rparr>
              in if label \<noteq> [] then (Some label, it') else Next it'))
      else (None, it))"
  by pat_completeness auto
termination
  by (relation "measure it_cursor") (auto dest!: LastIndexByte_Some)

declare Next.simps [simp del]

text \<open>\<open>NextLower\<close> returns the label itself when it has no upper-case letter and the folded
  copy otherwise; the caller's buffer only decides where that copy is stored.\<close>

definition NextLower :: "DomainIterator \<Rightarrow> string option \<times> DomainIterator" where
  "NextLower it =
     (case Next it of
        (None, it') \<Rightarrow> (None, it')
      | (Some label, it') \<Rightarrow>
          (Some (if list_ex is_upper label then lower_ascii label else label), it'))"

lemma lower_ascii_no_upper: "\<not> list_ex is_upper s \<Longrightarrow> lower_ascii s = s"
  by (induction s) (auto simp: lower_ascii_def lower_char_def)

lemma NextLower_eq:
  "NextLower it = map_prod (map_option lower_ascii) id (Next it)"
  by (auto simp: NextLower_def lower_ascii_no_upper split: prod.splits option.splits)

lemma Next_cursor:
  "Next it = (Some l, it') \<Longrightarrow> it_cursor it' < it_cursor it \<and> it_domain it' = it_domain it"
proof (induction it rule: Next.induct)
  case (1 it)
  show ?case
  proof (cases "it_cursor it > 0")
    case True
    show ?thesis
    proof (cases "LastIndexByte (take (it_cursor it) (it_domain it)) CHR ''.''")
      case None
      with True "1.prems" show ?thesis by (auto simp: Next.simps [of it])
    next
      case (Some i)
      then have i: "i < it_cursor it" by (auto dest: LastIndexByte_Some)
      show ?thesis
      proof (cases "sub_slice (it_domain it) (i + 1) (it_cursor it) = []")
        case True
        with Some \<open>it_cursor it > 0\<close> "1.prems"
        have "Next (it\<lparr>it_cursor := i\<rparr>) = (Some l, it')"
          by (simp add: Next.simps [of it])
        with "1.IH" [OF \<open>it_cursor it > 0\<close> refl Some refl refl] True
        have "it_cursor it' < i \<and> it_domain it' = it_domain it" by simp
        with i show ?thesis by simp
      next
        case False
        with Some \<open>it_cursor it > 0\<close> "1.prems" i show ?thesis
          by (auto simp: Next.simps [of it])
      qed
    qed
  next
    case False
    with "1.prems" show ?thesis by (simp add: Next.simps [of it])
  qed
qed

lemma NextLower_SomeD:
  "NextLower it = (Some l, it') \<Longrightarrow> \<exists>l0. Next it = (Some l0, it') \<and> l = lower_ascii l0"
  by (cases "Next it") (auto simp: NextLower_eq)

lemma NextLower_cursor [termination_simp]:
  "NextLower it = (Some l, it') \<Longrightarrow> it_cursor it' < it_cursor it"
  by (auto dest!: NextLower_SomeD Next_cursor)

lemma NextLower_cursor_sym [termination_simp]:
  "(Some l, it') = NextLower it \<Longrightarrow> it_cursor it' < it_cursor it"
  by (rule NextLower_cursor [of it l]) simp

lemma NextLower_domain: "NextLower it = (Some l, it') \<Longrightarrow> it_domain it' = it_domain it"
  by (auto dest!: NextLower_SomeD Next_cursor)

section \<open>The labels the iterator yields\<close>

function iter_labels :: "DomainIterator \<Rightarrow> string list" where
  "iter_labels it =
     (case NextLower it of
        (None, _) \<Rightarrow> []
      | (Some label, it') \<Rightarrow> label # iter_labels it')"
  by pat_completeness auto
termination
  by (relation "measure it_cursor") (auto simp: termination_simp)

declare iter_labels.simps [simp del]

definition labels :: "string \<Rightarrow> string list" where
  "labels domain = iter_labels (NewDomainIterator domain)"

text \<open>The non-empty dot-separated parts of a string, last part first, case-folded.\<close>

definition split_labels :: "string \<Rightarrow> string list" where
  "split_labels s = map lower_ascii (filter (\<lambda>l. l \<noteq> []) (rev (split_on CHR ''.'' s)))"

lemma split_labels_Nil [simp]: "split_labels [] = []"
  by (simp add: split_labels_def)

lemma split_labels_last_dot:
  assumes "LastIndexByte s CHR ''.'' = Some i"
  shows "split_labels s =
    (if drop (Suc i) s = [] then split_labels (take i s)
     else lower_ascii (drop (Suc i) s) # split_labels (take i s))"
proof -
  from assms have i: "i < length s" "s ! i = CHR ''.''" "CHR ''.'' \<notin> set (drop (Suc i) s)"
    by (auto dest: LastIndexByte_Some)
  then have "s = take i s @ CHR ''.'' # drop (Suc i) s"
    by (metis id_take_nth_drop)
  then have "split_on CHR ''.'' s = split_on CHR ''.'' (take i s) @ [drop (Suc i) s]"
    using i(3) split_on_append_sep split_on_no_sep by metis
  then show ?thesis by (simp add: split_labels_def)
qed

lemma iter_labels_None: "Next it = (None, it') \<Longrightarrow> iter_labels it = []"
  by (simp add: iter_labels.simps [of it] NextLower_eq)

lemma iter_labels_Some:
  "Next it = (Some l, it') \<Longrightarrow> iter_labels it = lower_ascii l # iter_labels it'"
  by (simp add: iter_labels.simps [of it] NextLower_eq)

lemma iter_labels_Next: "Next it = Next it' \<Longrightarrow> iter_labels it = iter_labels it'"
  by (simp add: iter_labels.simps [of it] iter_labels.simps [of it'] NextLower_eq)

lemma Next_at_start: "\<not> it_cursor it > 0 \<Longrightarrow> Next it = (None, it)"
  by (subst Next.simps) simp

lemma Next_no_dot:
  "it_cursor it > 0 \<Longrightarrow> LastIndexByte (take (it_cursor it) (it_domain it)) CHR ''.'' = None \<Longrightarrow>
   Next it = (Some (take (it_cursor it) (it_domain it)), it\<lparr>it_cursor := 0\<rparr>)"
  by (subst Next.simps) simp

lemma Next_dot:
  assumes "LastIndexByte (take (it_cursor it) (it_domain it)) CHR ''.'' = Some i"
  shows "Next it =
    (let label = drop (Suc i) (take (it_cursor it) (it_domain it)); it' = it\<lparr>it_cursor := i\<rparr>
     in if label \<noteq> [] then (Some label, it') else Next it')"
proof -
  have "it_cursor it > 0" using assms by (auto dest: LastIndexByte_Some)
  with assms show ?thesis
    by (subst Next.simps) (simp add: sub_slice_def drop_take Let_def)
qed

lemma iter_labels_split:
  "it_cursor it \<le> length (it_domain it) \<Longrightarrow>
   iter_labels it = split_labels (take (it_cursor it) (it_domain it))"
proof (induction "it_cursor it" arbitrary: it rule: less_induct)
  case less
  let ?s = "take (it_cursor it) (it_domain it)"
  show ?case
  proof (cases "it_cursor it > 0")
    case False
    then show ?thesis
      by (simp add: iter_labels_None [OF Next_at_start])
  next
    case True
    show ?thesis
    proof (cases "LastIndexByte ?s CHR ''.''")
      case None
      have "iter_labels (it\<lparr>it_cursor := 0\<rparr>) = []"
        by (rule iter_labels_None [OF Next_at_start]) simp
      moreover have "split_labels ?s = [lower_ascii ?s]"
        using None True less.prems by (auto simp: split_labels_def split_on_no_sep LastIndexByte_None)
      ultimately show ?thesis
        by (simp only: iter_labels_Some [OF Next_no_dot [OF True None]])
    next
      case (Some i)
      let ?it = "it\<lparr>it_cursor := i\<rparr>" and ?l = "drop (Suc i) ?s"
      from Some have i: "i < it_cursor it" by (auto dest: LastIndexByte_Some)
      then have IH: "iter_labels ?it = split_labels (take i ?s)"
        using less.hyps [of ?it] less.prems by (simp add: min_absorb1)
      have "iter_labels it = (if ?l = [] then iter_labels ?it else lower_ascii ?l # iter_labels ?it)"
      proof (cases "?l = []")
        case True
        then have "Next it = Next ?it" unfolding Next_dot [OF Some] by (simp only: Let_def simp_thms if_False)
        then show ?thesis unfolding if_P [OF True] by (rule iter_labels_Next)
      next
        case False
        then have "Next it = (Some ?l, ?it)" unfolding Next_dot [OF Some] by (simp only: Let_def simp_thms if_True)
        then show ?thesis unfolding if_not_P [OF False] by (rule iter_labels_Some)
      qed
      then show ?thesis
        unfolding IH split_labels_last_dot [OF Some] .
    qed
  qed
qed

lemma labels_split: "labels domain = split_labels domain"
  by (simp add: labels_def iter_labels_split NewDomainIterator_def)

lemma labels_root [simp]: "labels [] = []" and labels_dot [simp]: "labels ''.'' = []"
  by (simp_all add: labels_split split_labels_def)

text \<open>What the tree may assume about every label: not empty, no dot, already folded.\<close>

definition valid_label :: "string \<Rightarrow> bool" where
  "valid_label l \<longleftrightarrow> l \<noteq> [] \<and> CHR ''.'' \<notin> set l \<and> lower_ascii l = l"

lemma set_lower_ascii_dot [simp]: "CHR ''.'' \<in> set (lower_ascii s) \<longleftrightarrow> CHR ''.'' \<in> set s"
proof -
  have "CHR ''.'' \<in> lower_char ` set s \<longleftrightarrow> (\<exists>c \<in> set s. lower_char c = CHR ''.'')"
    by (metis (no_types, lifting) image_iff)
  also have "\<dots> \<longleftrightarrow> CHR ''.'' \<in> set s"
    by (simp only: lower_char_eq_dot) blast
  finally show ?thesis by (simp only: lower_ascii_def set_map)
qed

lemma split_labels_valid: "l \<in> set (split_labels s) \<Longrightarrow> valid_label l"
  by (auto simp: split_labels_def valid_label_def dest: split_on_no_sep_mem)

lemma labels_valid: "l \<in> set (labels d) \<Longrightarrow> valid_label l"
  by (simp add: labels_split split_labels_valid)

text \<open>The dotted name of a path of labels (root first), the inverse of \<open>labels\<close>.\<close>

definition dotted :: "string list \<Rightarrow> string" where
  "dotted ls = join_with CHR ''.'' (rev ls)"

lemma labels_dotted:
  assumes "list_all valid_label ls"
  shows "labels (dotted ls) = ls"
proof (cases "ls = []")
  case False
  have "split_on CHR ''.'' (dotted ls) = rev ls"
    unfolding dotted_def
    by (rule split_on_join_with) (use False assms in \<open>auto simp: list_all_iff valid_label_def\<close>)
  moreover have "map lower_ascii (filter (\<lambda>l. l \<noteq> []) ls) = ls"
    using assms by (induction ls) (auto simp: valid_label_def)
  ultimately show ?thesis by (simp add: labels_split split_labels_def)
qed (simp add: dotted_def)

text \<open>Case folding a domain does not change its labels.\<close>

lemma split_on_lower:
  "split_on CHR ''.'' (lower_ascii s) = map lower_ascii (split_on CHR ''.'' s)"
  by (induction s) (auto simp: lower_ascii_def split: list.splits)

lemma labels_lower_ascii [simp]: "labels (lower_ascii d) = labels d"
  by (simp add: labels_split split_labels_def split_on_lower rev_map filter_map comp_def)

end
