(* ===== verification/DnsTypes.thy ===== *)
theory DnsTypes
  imports GoLib
begin

text \<open>
  The vocabulary of package \<open>internal/dns\<close> (\<open>types.go\<close>): record types, classes, response
  codes and opcodes as words of the source's width, their text mnemonics, the message
  header, questions, resource record sets and the resolution result.  The lemmas show that
  type mnemonics round-trip through \<open>ParseType\<close> and that \<open>Clone\<close> copies.
\<close>

section \<open>Constants\<close>

type_synonym dns_type = u16
type_synonym dns_class = u16
type_synonym rcode = byte

abbreviation TypeA :: dns_type where "TypeA \<equiv> 1"
abbreviation TypeNS :: dns_type where "TypeNS \<equiv> 2"
abbreviation TypeCNAME :: dns_type where "TypeCNAME \<equiv> 5"
abbreviation TypeSOA :: dns_type where "TypeSOA \<equiv> 6"
abbreviation TypePTR :: dns_type where "TypePTR \<equiv> 12"
abbreviation TypeMX :: dns_type where "TypeMX \<equiv> 15"
abbreviation TypeTXT :: dns_type where "TypeTXT \<equiv> 16"
abbreviation TypeAAAA :: dns_type where "TypeAAAA \<equiv> 28"
abbreviation TypeSRV :: dns_type where "TypeSRV \<equiv> 33"
abbreviation TypeOPT :: dns_type where "TypeOPT \<equiv> 41"
abbreviation TypeDS :: dns_type where "TypeDS \<equiv> 43"
abbreviation TypeRRSIG :: dns_type where "TypeRRSIG \<equiv> 46"
abbreviation TypeNSEC :: dns_type where "TypeNSEC \<equiv> 47"
abbreviation TypeDNSKEY :: dns_type where "TypeDNSKEY \<equiv> 48"
abbreviation TypeNSEC3 :: dns_type where "TypeNSEC3 \<equiv> 50"
abbreviation TypeZONEMD :: dns_type where "TypeZONEMD \<equiv> 63"
abbreviation TypeTSIG :: dns_type where "TypeTSIG \<equiv> 250"
abbreviation TypeCAA :: dns_type where "TypeCAA \<equiv> 257"
abbreviation TypeANY :: dns_type where "TypeANY \<equiv> 255"

abbreviation ClassIN :: dns_class where "ClassIN \<equiv> 1"
abbreviation ClassCH :: dns_class where "ClassCH \<equiv> 3"
abbreviation ClassNONE :: dns_class where "ClassNONE \<equiv> 254"
abbreviation ClassANY :: dns_class where "ClassANY \<equiv> 255"

abbreviation RCodeSuccess :: rcode where "RCodeSuccess \<equiv> 0"
abbreviation RCodeFormatError :: rcode where "RCodeFormatError \<equiv> 1"
abbreviation RCodeServerFailure :: rcode where "RCodeServerFailure \<equiv> 2"
abbreviation RCodeNameError :: rcode where "RCodeNameError \<equiv> 3"
abbreviation RCodeNotImplemented :: rcode where "RCodeNotImplemented \<equiv> 4"
abbreviation RCodeRefused :: rcode where "RCodeRefused \<equiv> 5"
abbreviation RCodeYXDomain :: rcode where "RCodeYXDomain \<equiv> 6"
abbreviation RCodeYXRRSet :: rcode where "RCodeYXRRSet \<equiv> 7"
abbreviation RCodeNXRRSet :: rcode where "RCodeNXRRSet \<equiv> 8"
abbreviation RCodeNotAuth :: rcode where "RCodeNotAuth \<equiv> 9"
abbreviation RCodeNotZone :: rcode where "RCodeNotZone \<equiv> 10"

abbreviation OpcodeQuery :: byte where "OpcodeQuery \<equiv> 0"
abbreviation OpcodeIQuery :: byte where "OpcodeIQuery \<equiv> 1"
abbreviation OpcodeStatus :: byte where "OpcodeStatus \<equiv> 2"
abbreviation OpcodeNotify :: byte where "OpcodeNotify \<equiv> 4"
abbreviation OpcodeUpdate :: byte where "OpcodeUpdate \<equiv> 5"

text \<open>The error values of the package (\<open>types.go\<close>, \<open>domain.go\<close>, \<open>pack.go\<close>, \<open>unpack.go\<close>).\<close>

datatype dns_error =
    ErrUnknownType
  | ErrEmptyDomain
  | ErrEmptyLabel
  | ErrInvalidLabelChar
  | ErrBufferTooSmall
  | ErrPacketTooSmall
  | ErrInvalidPointer
  | ErrTooManyJumps
  | ErrOutOfBounds
  | ErrTooManyQuestions
  | ErrLabelTooLong
  | ErrNameTooLong
  | ErrMultipleOPT
  | ErrMisplacedOPT

section \<open>Mnemonics\<close>

text \<open>\<open>Type.String\<close>: the switch of the source as an association list in its order.\<close>

definition type_mnemonics :: "(dns_type \<times> string) list" where
  "type_mnemonics =
     [(TypeA, ''A''), (TypeNS, ''NS''), (TypeCNAME, ''CNAME''), (TypeSOA, ''SOA''),
      (TypePTR, ''PTR''), (TypeMX, ''MX''), (TypeTXT, ''TXT''), (TypeAAAA, ''AAAA''),
      (TypeSRV, ''SRV''), (TypeOPT, ''OPT''), (TypeDS, ''DS''), (TypeRRSIG, ''RRSIG''),
      (TypeNSEC, ''NSEC''), (TypeDNSKEY, ''DNSKEY''), (TypeNSEC3, ''NSEC3''),
      (TypeZONEMD, ''ZONEMD''), (TypeTSIG, ''TSIG''), (TypeCAA, ''CAA''), (TypeANY, ''ANY'')]"

definition Type_String :: "dns_type \<Rightarrow> string" where
  "Type_String t =
     (case map_of type_mnemonics t of
        Some s \<Rightarrow> s
      | None \<Rightarrow> ''TYPE'' @ FormatUint (unat t))"

text \<open>\<open>strings.ToUpper\<close>; as for \<open>ToLower\<close>, the Unicode tables are a parameter.\<close>

definition upper_char :: "char \<Rightarrow> char" where
  "upper_char c =
     (if 97 \<le> (of_char c :: nat) \<and> (of_char c :: nat) \<le> 122
      then char_of ((of_char c :: nat) - 32) else c)"

definition ToUpper :: "(string \<Rightarrow> string) \<Rightarrow> string \<Rightarrow> string" where
  "ToUpper uu s = (if list_all is_ascii s then map upper_char s else uu s)"

definition parse_mnemonics :: "(string \<times> dns_type) list" where
  "parse_mnemonics =
     [(''A'', TypeA), (''AAAA'', TypeAAAA), (''CNAME'', TypeCNAME), (''TXT'', TypeTXT),
      (''MX'', TypeMX), (''NS'', TypeNS), (''SOA'', TypeSOA), (''PTR'', TypePTR),
      (''SRV'', TypeSRV), (''CAA'', TypeCAA), (''DNSKEY'', TypeDNSKEY), (''DS'', TypeDS),
      (''RRSIG'', TypeRRSIG), (''NSEC'', TypeNSEC), (''NSEC3'', TypeNSEC3),
      (''ZONEMD'', TypeZONEMD), (''TSIG'', TypeTSIG), (''OPT'', TypeOPT), (''ANY'', TypeANY)]"

definition ParseType :: "(string \<Rightarrow> string) \<Rightarrow> string \<Rightarrow> dns_error + dns_type" where
  "ParseType uu s =
     (let upper = ToUpper uu s in
      case map_of parse_mnemonics upper of
        Some t \<Rightarrow> Inr t
      | None \<Rightarrow>
          (case (if prefix ''TYPE'' upper then ParseUint (drop 4 upper) 16 else None) of
             Some v \<Rightarrow> Inr (of_nat v)
           | None \<Rightarrow>
               (case ParseUint s 16 of
                  Some v \<Rightarrow> Inr (of_nat v)
                | None \<Rightarrow> Inl ErrUnknownType)))"

definition class_mnemonics :: "(dns_class \<times> string) list" where
  "class_mnemonics = [(ClassIN, ''IN''), (ClassCH, ''CH''), (ClassNONE, ''NONE''), (ClassANY, ''ANY'')]"

definition Class_String :: "dns_class \<Rightarrow> string" where
  "Class_String c =
     (case map_of class_mnemonics c of
        Some s \<Rightarrow> s
      | None \<Rightarrow> ''CLASS'' @ FormatUint (unat c))"

definition rcode_mnemonics :: "(rcode \<times> string) list" where
  "rcode_mnemonics =
     [(RCodeSuccess, ''NOERROR''), (RCodeFormatError, ''FORMERR''),
      (RCodeServerFailure, ''SERVFAIL''), (RCodeNameError, ''NXDOMAIN''),
      (RCodeNotImplemented, ''NOTIMP''), (RCodeRefused, ''REFUSED''),
      (RCodeYXDomain, ''YXDOMAIN''), (RCodeYXRRSet, ''YXRRSET''), (RCodeNXRRSet, ''NXRRSET''),
      (RCodeNotAuth, ''NOTAUTH''), (RCodeNotZone, ''NOTZONE'')]"

definition RCode_String :: "rcode \<Rightarrow> string" where
  "RCode_String r =
     (case map_of rcode_mnemonics r of
        Some s \<Rightarrow> s
      | None \<Rightarrow> ''RCODE'' @ FormatUint (unat r))"

definition Opcode_String :: "byte \<Rightarrow> string" where
  "Opcode_String op =
     (if op = OpcodeQuery then ''QUERY''
      else if op = OpcodeIQuery then ''IQUERY''
      else if op = OpcodeStatus then ''STATUS''
      else if op = OpcodeNotify then ''NOTIFY''
      else if op = OpcodeUpdate then ''UPDATE''
      else ''OTHER'')"

section \<open>Header and question\<close>

record Header =
  ID :: u16
  Flags :: u16
  QDCount :: u16
  ANCount :: u16
  NSCount :: u16
  ARCount :: u16

definition Header_Opcode :: "Header \<Rightarrow> byte" where
  "Header_Opcode h = ucast (drop_bit 11 (Flags h) AND 0x0F)"

definition Header_RCode :: "Header \<Rightarrow> rcode" where
  "Header_RCode h = ucast (Flags h AND 0x0F)"

definition IsResponse :: "Header \<Rightarrow> bool" where
  "IsResponse h \<longleftrightarrow> Flags h AND 0x8000 \<noteq> 0"

record Question =
  q_Name :: string
  q_Type :: dns_type
  q_Class :: dns_class

section \<open>Resource record sets\<close>

text \<open>A nil and an empty slice of the source are both the empty list: the code only tests
  their length.\<close>

record RRSet =
  RData :: "bytes list"
  TTL :: u32
  rr_Type :: dns_type
  rr_Class :: dns_class

type_synonym RRSets = "RRSet list"

text \<open>The zero value \<open>RRSet{}\<close>.\<close>

definition no_RRSet :: RRSet where
  "no_RRSet = \<lparr>RData = [], TTL = 0, rr_Type = 0, rr_Class = 0\<rparr>"

definition HasRecords :: "RRSet \<Rightarrow> bool" where
  "HasRecords r \<longleftrightarrow> RData r \<noteq> []"

fun RRSets_Get :: "RRSets \<Rightarrow> dns_type \<Rightarrow> RRSet option" where
  "RRSets_Get [] qType = None"
| "RRSets_Get (r # rest) qType =
     (if rr_Type r = qType then Some r else RRSets_Get rest qType)"

text \<open>\<open>Clone\<close> rebuilds every set field by field and copies every payload.\<close>

definition Clone :: "RRSets \<Rightarrow> RRSets" where
  "Clone s = map (\<lambda>r. \<lparr>RData = map (\<lambda>wire. map (\<lambda>b. b) wire) (RData r), TTL = TTL r,
                       rr_Type = rr_Type r, rr_Class = rr_Class r\<rparr>) s"

lemma Clone_id [simp]: "Clone s = s"
  by (induction s) (simp_all add: Clone_def)

lemma RRSets_Get_Some: "RRSets_Get s t = Some r \<Longrightarrow> r \<in> set s \<and> rr_Type r = t"
  by (induction s) (auto split: if_splits)

lemma RRSets_Get_None: "RRSets_Get s t = None \<longleftrightarrow> (\<forall>r \<in> set s. rr_Type r \<noteq> t)"
  by (induction s) auto

section \<open>Resolution result\<close>

record Result =
  AuthorityName :: string
  Answer :: RRSet
  AnswerRRSIG :: RRSet
  Authority :: RRSet
  AuthorityRRSIG :: RRSet
  Additional :: RRSet
  RCode :: rcode

text \<open>The zero value \<open>Result{}\<close>, from which the composite literals of the source are built.\<close>

definition no_Result :: Result where
  "no_Result = \<lparr>AuthorityName = [], Answer = no_RRSet, AnswerRRSIG = no_RRSet,
     Authority = no_RRSet, AuthorityRRSIG = no_RRSet, Additional = no_RRSet,
     RCode = RCodeSuccess\<rparr>"

definition HasAnswer :: "Result \<Rightarrow> bool" where
  "HasAnswer r \<longleftrightarrow> HasRecords (Answer r)"

definition HasAnswerRRSIG :: "Result \<Rightarrow> bool" where
  "HasAnswerRRSIG r \<longleftrightarrow> HasRecords (AnswerRRSIG r)"

definition HasAuthority :: "Result \<Rightarrow> bool" where
  "HasAuthority r \<longleftrightarrow> HasRecords (Authority r)"

definition HasAuthorityRRSIG :: "Result \<Rightarrow> bool" where
  "HasAuthorityRRSIG r \<longleftrightarrow> HasRecords (AuthorityRRSIG r)"

definition HasAdditional :: "Result \<Rightarrow> bool" where
  "HasAdditional r \<longleftrightarrow> HasRecords (Additional r)"

section \<open>Mnemonics round-trip\<close>

lemma upper_digits: "list_all is_digit s \<Longrightarrow> map upper_char s = s"
  by (induction s) (auto simp: upper_char_def is_digit_def)

lemma ascii_digits: "list_all is_digit s \<Longrightarrow> list_all is_ascii s"
  by (induction s) (auto simp: is_ascii_def is_digit_def)

lemma ParseType_mnemonic:
  "(t, s) \<in> set type_mnemonics \<Longrightarrow> ParseType uu s = Inr t"
  by (auto simp: type_mnemonics_def ParseType_def ToUpper_def parse_mnemonics_def is_ascii_def
      upper_char_def)

lemma ParseType_number:
  "ParseType uu (''TYPE'' @ FormatUint (unat t)) = Inr t"
proof -
  let ?d = "FormatUint (unat t)"
  have d: "list_all is_digit ?d" and b: "unat t < 2 ^ 16"
    using FormatUint_props [of "unat t"] unsigned_less [of t, where ?'a = nat] by simp_all
  have u: "ToUpper uu (''TYPE'' @ ?d) = ''TYPE'' @ ?d"
    using upper_digits [OF d] ascii_digits [OF d]
    by (simp add: ToUpper_def is_ascii_def upper_char_def)
  have p: "ParseUint ?d 16 = Some (unat t)"
    using b by (rule ParseUint_FormatUint)
  show ?thesis
    unfolding ParseType_def Let_def u using p by (simp add: parse_mnemonics_def)
qed

text \<open>The text mnemonic of every record type, the generic \<open>TYPE<N>\<close> form of an unnamed
  type included, parses back to the same type number.\<close>

theorem type_mnemonic_roundtrip: "ParseType uu (Type_String t) = Inr t"
proof (cases "map_of type_mnemonics t")
  case None
  then show ?thesis using ParseType_number [of uu t] by (simp add: Type_String_def)
next
  case (Some s)
  then show ?thesis
    by (simp add: Type_String_def ParseType_mnemonic map_of_SomeD)
qed

end
