(* ===== verification/Domain.thy ===== *)
theory Domain
  imports DomainIterator DnsTypes
begin

text \<open>
  \<open>internal/dns/domain.go\<close>: validation and normalisation of domain names at the control
  plane, and their uncompressed wire form.  What \<open>ValidateDomain\<close> returns is shown to be a
  fixed point of it, to be the canonical form under which the zone tree stores names, and to
  fit the wire format.
\<close>

abbreviation MaxLabelLen :: nat where "MaxLabelLen \<equiv> 63"
abbreviation MaxNameLen :: nat where "MaxNameLen \<equiv> 255"

section \<open>ValidateDomain\<close>

definition is_label_char :: "char \<Rightarrow> bool" where
  "is_label_char c \<longleftrightarrow>
     (let b = (of_char c :: nat) in
      (97 \<le> b \<and> b \<le> 122) \<or> (65 \<le> b \<and> b \<le> 90) \<or> (48 \<le> b \<and> b \<le> 57) \<or>
      c = CHR ''-'' \<or> c = CHR ''_'')"

fun validate_labels :: "nat \<Rightarrow> string list \<Rightarrow> dns_error option" where
  "validate_labels labelIndex [] = None"
| "validate_labels labelIndex (label # rest) =
     (if label = [] then Some ErrEmptyLabel
      else if length label > MaxLabelLen then Some ErrLabelTooLong
      else if label = ''*'' \<and> labelIndex = 0 then validate_labels (labelIndex + 1) rest
      else if \<not> list_all is_label_char label then Some ErrInvalidLabelChar
      else validate_labels (labelIndex + 1) rest)"

definition ValidateDomain :: "(string \<Rightarrow> string) \<Rightarrow> string \<Rightarrow> dns_error + string" where
  "ValidateDomain ul name =
     (let trimmedName = TrimSpace name in
      if trimmedName = [] then Inl ErrEmptyDomain
      else if trimmedName = ''@'' then Inr ''.''
      else
        (let trimmedName = TrimSuffix trimmedName ''.'' in
         if trimmedName = [] then Inr ''.''
         else if length trimmedName > 253 then Inl ErrNameTooLong
         else
           (case validate_labels 0 (split_on CHR ''.'' trimmedName) of
              Some err \<Rightarrow> Inl err
            | None \<Rightarrow> Inr (ToLower ul trimmedName))))"

section \<open>EncodeDomainName\<close>

definition encode_label :: "string \<Rightarrow> bytes" where
  "encode_label label =
     (let labelLen = min (length label) MaxLabelLen in
      word_of_nat labelLen # bytes_of (take labelLen label))"

definition EncodeDomainName :: "(string \<Rightarrow> string) \<Rightarrow> string \<Rightarrow> bytes" where
  "EncodeDomainName ul name =
     (let canonical = ToLower ul (TrimSpace name) in
      if canonical = [] \<or> canonical = ''.'' then [0]
      else concat (map encode_label (split_on CHR ''.'' (TrimSuffix canonical ''.''))) @ [0])"

section \<open>Names that validation lets through\<close>

text \<open>A label that validation accepts at index \<open>i\<close>, and a whole name in normal form.\<close>

definition good_label :: "nat \<Rightarrow> string \<Rightarrow> bool" where
  "good_label i l \<longleftrightarrow> l \<noteq> [] \<and> length l \<le> MaxLabelLen \<and> (l = ''*'' \<and> i = 0 \<or> list_all is_label_char l)"

definition normal_name :: "string \<Rightarrow> bool" where
  "normal_name d \<longleftrightarrow>
     length d \<le> 253 \<and> lower_ascii d = d \<and>
     (\<forall>i < length (split_on CHR ''.'' d). good_label i (split_on CHR ''.'' d ! i))"

lemma validate_labels_None:
  "validate_labels i ls = None \<longleftrightarrow> (\<forall>j < length ls. good_label (i + j) (ls ! j))"
proof (induction ls arbitrary: i)
  case (Cons l ls)
  have "(\<forall>j < length (l # ls). good_label (i + j) ((l # ls) ! j)) \<longleftrightarrow>
      good_label i l \<and> (\<forall>j < length ls. good_label (Suc i + j) (ls ! j))"
    by (auto simp: less_Suc_eq_0_disj all_conj_distrib)
  moreover have "\<not> list_all is_label_char ''*''" by (simp add: is_label_char_def)
  ultimately show ?case using Cons.IH [of "Suc i"] by (auto simp: good_label_def)
qed simp

definition host_char :: "char \<Rightarrow> bool" where
  "host_char c \<longleftrightarrow> is_label_char c \<or> c = CHR ''.'' \<or> c = CHR ''*''"

lemma white_space_not_host:
  "list_all (\<lambda>w. w \<noteq> [] \<and> \<not> host_char (hd w) \<and> \<not> host_char (last w)) white_space"
  by code_simp

lemma trim_front_host:
  assumes "list_all host_char s" and "list_all (\<lambda>w. w \<noteq> [] \<and> \<not> host_char (hd w)) ws"
  shows "trim_front ws s = s"
  using assms by (intro trim_front_id) (auto simp: list_all_iff prefix_def neq_Nil_conv)

lemma TrimSpace_host: "list_all host_char s \<Longrightarrow> TrimSpace s = s"
proof -
  assume s: "list_all host_char s"
  have "trim_front white_space s = s"
    using white_space_not_host by (intro trim_front_host [OF s]) (auto simp: list_all_iff)
  moreover have "trim_front (map rev white_space) (rev s) = rev s"
    using white_space_not_host s by (intro trim_front_host) (auto simp: list_all_iff hd_rev)
  ultimately show ?thesis by (simp add: TrimSpace_def)
qed

lemma host_char_ascii: "host_char c \<Longrightarrow> is_ascii c"
  by (auto simp: host_char_def is_label_char_def is_ascii_def Let_def)

lemma host_char_lower: "host_char c \<Longrightarrow> host_char (lower_char c)"
  and is_label_char_lower: "is_label_char c \<Longrightarrow> is_label_char (lower_char c)"
  by (auto simp: host_char_def is_label_char_def lower_char_def is_upper_def Let_def)

lemma host_lower: "list_all host_char s \<Longrightarrow> list_all host_char (lower_ascii s)"
  by (induction s) (auto simp: lower_ascii_def host_char_lower)

lemma ToLower_host: "list_all host_char s \<Longrightarrow> ToLower ul s = lower_ascii s"
  using host_char_ascii by (auto simp: ToLower_def list_all_iff)

lemma suffix_dot: "suffix ''.'' s \<longleftrightarrow> s \<noteq> [] \<and> last s = CHR ''.''"
  by (auto simp: suffix_def) (metis append_butlast_last_id)

lemma Encode_host:
  "list_all host_char s \<Longrightarrow> EncodeDomainName ul s =
     (if s = [] \<or> lower_ascii s = ''.'' then [0]
      else concat (map encode_label (split_on CHR ''.'' (TrimSuffix (lower_ascii s) ''.''))) @ [0])"
  by (simp add: EncodeDomainName_def TrimSpace_host ToLower_host)

lemma good_label_host: "good_label i l \<Longrightarrow> list_all host_char l"
  by (auto simp: good_label_def host_char_def list_all_iff)

lemma join_host: "list_all (list_all host_char) ls \<Longrightarrow> list_all host_char (join_with CHR ''.'' ls)"
  by (induction "CHR ''.''" ls rule: join_with.induct) (auto simp: host_char_def)

lemma normal_host:
  assumes "\<forall>i < length (split_on CHR ''.'' d). good_label i (split_on CHR ''.'' d ! i)"
  shows "list_all host_char d"
proof -
  have "list_all (list_all host_char) (split_on CHR ''.'' d)"
    using assms good_label_host by (auto simp: list_all_length)
  from join_host [OF this] show ?thesis by simp
qed

lemma lower_char_star: "lower_char c = CHR ''*'' \<longleftrightarrow> c = CHR ''*''"
proof (cases "is_upper c")
  case True
  then have "(of_char (lower_char c) :: nat) \<noteq> of_char CHR ''*''"
    by (simp add: lower_char_def is_upper_def)
  moreover have "c \<noteq> CHR ''*''" using True by (auto simp: is_upper_def)
  ultimately show ?thesis by metis
qed (simp add: lower_char_def)

lemma good_label_lower: "good_label i l \<Longrightarrow> good_label i (lower_ascii l)"
  by (auto simp: good_label_def is_label_char_lower list_all_iff lower_ascii_def lower_char_star)

lemma TrimSuffix_dot: "TrimSuffix s ''.'' = (if s \<noteq> [] \<and> last s = CHR ''.'' then butlast s else s)"
  by (auto simp: TrimSuffix_def suffix_def butlast_conv_take) (metis append_butlast_last_id)

lemma normal_name_last: "normal_name d \<Longrightarrow> d \<noteq> [] \<and> last d \<noteq> CHR ''.''"
proof -
  assume d: "normal_name d"
  have ne: "split_on CHR ''.'' d \<noteq> []" by simp
  then have last: "last (split_on CHR ''.'' d) \<noteq> []"
    using d by (auto simp: normal_name_def good_label_def last_conv_nth)
  moreover have "\<exists>xs. d = xs @ last (split_on CHR ''.'' d)"
  proof (cases "butlast (split_on CHR ''.'' d) = []")
    case True
    then have "split_on CHR ''.'' d = [last (split_on CHR ''.'' d)]"
      using append_butlast_last_id [OF ne] by simp
    then have "d = last (split_on CHR ''.'' d)" by (metis join_with.simps(2) join_with_split_on)
    then show ?thesis by (intro exI [of _ "[]"]) simp
  next
    case False
    then have "d = join_with CHR ''.'' (butlast (split_on CHR ''.'' d)) @ CHR ''.'' # last (split_on CHR ''.'' d)"
      using join_with_append [OF False, of "[last (split_on CHR ''.'' d)]" "CHR ''.''"] append_butlast_last_id [OF ne]
      by simp
    then show ?thesis by (intro exI [of _ "join_with CHR ''.'' (butlast (split_on CHR ''.'' d)) @ ''.''"]) simp
  qed
  moreover have "CHR ''.'' \<notin> set (last (split_on CHR ''.'' d))"
    using split_on_no_sep_mem [of "last (split_on CHR ''.'' d)" "CHR ''.''" d] ne by simp
  ultimately show ?thesis by (metis append_is_Nil_conv last_appendR last_in_set)
qed

lemma ValidateDomain_normal:
  assumes "ValidateDomain ul name = Inr d"
  shows "d = ''.'' \<or> normal_name d"
proof -
  define t where "t = TrimSuffix (TrimSpace name) ''.''"
  have "d = ''.'' \<or> (length t \<le> 253 \<and> validate_labels 0 (split_on CHR ''.'' t) = None \<and> d = ToLower ul t)"
    using assms by (auto simp: ValidateDomain_def Let_def t_def split: if_splits option.splits)
  moreover have "normal_name d"
    if t: "length t \<le> 253" "validate_labels 0 (split_on CHR ''.'' t) = None" "d = ToLower ul t"
  proof -
    have g: "\<forall>i < length (split_on CHR ''.'' t). good_label i (split_on CHR ''.'' t ! i)"
      using t(2) by (simp add: validate_labels_None)
    then have "list_all is_ascii t" using normal_host host_char_ascii by (auto simp: list_all_iff)
    then have "d = lower_ascii t" using t(3) by (simp add: ToLower_def)
    with g t(1) show ?thesis by (simp add: normal_name_def split_on_lower good_label_lower)
  qed
  ultimately show ?thesis by blast
qed

lemma ValidateDomain_fixed: "normal_name d \<Longrightarrow> ValidateDomain ul d = Inr d"
proof -
  assume d: "normal_name d"
  note nl = normal_name_last [OF d]
  have h: "list_all host_char d" using d normal_host by (simp add: normal_name_def)
  then have "TrimSpace d = d" by (rule TrimSpace_host)
  moreover have "d \<noteq> ''@''" using h by (auto simp: host_char_def is_label_char_def)
  moreover have "list_all is_ascii d" using h host_char_ascii by (auto simp: list_all_iff)
  moreover have "validate_labels 0 (split_on CHR ''.'' d) = None"
    using d by (simp add: validate_labels_None normal_name_def)
  ultimately show ?thesis
    using d nl by (auto simp: ValidateDomain_def TrimSuffix_dot Let_def ToLower_def normal_name_def)
qed

lemma ValidateDomain_root: "ValidateDomain ul ''.'' = Inr ''.''"
proof -
  have "TrimSpace ''.'' = ''.''" by (rule TrimSpace_host) (simp add: host_char_def)
  then show ?thesis by (simp add: ValidateDomain_def TrimSuffix_dot)
qed

lemma normal_name_labels:
  assumes "normal_name d"
  shows "labels d = rev (split_on CHR ''.'' d)" and "dotted (labels d) = d"
    and "list_all valid_label (labels d)"
proof -
  have "l \<noteq> []" if "l \<in> set (split_on CHR ''.'' d)" for l
    using that assms by (auto simp: normal_name_def good_label_def in_set_conv_nth)
  then have "filter (\<lambda>l. l \<noteq> []) (split_on CHR ''.'' d) = split_on CHR ''.'' d" by (simp add: filter_id_conv)
  moreover have "map lower_ascii (split_on CHR ''.'' d) = split_on CHR ''.'' d"
    using assms by (metis normal_name_def split_on_lower)
  ultimately show l: "labels d = rev (split_on CHR ''.'' d)"
    by (simp add: labels_split split_labels_def rev_filter [symmetric] rev_map [symmetric])
  show "dotted (labels d) = d" by (simp add: l dotted_def)
  show "list_all valid_label (labels d)" using labels_valid by (auto simp: list_all_iff)
qed

section \<open>Properties\<close>

text \<open>C29: a name that \<open>ValidateDomain\<close> returns is in normal form: validating it again gives
  the same name, it is the root or at most 253 bytes of dot-separated labels of 1 to 63
  host-name characters (or a leading \<open>*\<close>), already in lower case, and it is exactly the name
  under which the zone tree indexes it (its labels joined by dots).\<close>

theorem ValidateDomain_canonical:
  assumes "ValidateDomain ul name = Inr d"
  shows "ValidateDomain ul' d = Inr d \<and>
    (d = ''.'' \<or> normal_name d \<and> list_all valid_label (labels d) \<and> dotted (labels d) = d)"
  using ValidateDomain_normal [OF assms] ValidateDomain_fixed [of d ul'] ValidateDomain_root [of ul']
    normal_name_labels [of d] by blast

theorem ValidateDomain_canonical_witness:
  "ValidateDomain id '' *.Example.COM. '' = Inr ''*.example.com'' \<and>
   ValidateDomain rev ''*.example.com'' = Inr ''*.example.com'' \<and>
   dotted (labels ''*.example.com'') = ''*.example.com''"
proof -
  have v: "ValidateDomain id '' *.Example.COM. '' = Inr ''*.example.com''" by code_simp
  from ValidateDomain_canonical [OF v, of rev] v show ?thesis by auto
qed

end
