(* ===== verification/Unpack.thy ===== *)
theory Unpack
  imports Domain
begin

text \<open>
  \<open>internal/dns/unpack.go\<close>: the reader of DNS messages.  \<open>decode_loop\<close> is the loop of the
  domain name decompressor with its fixed 255-byte buffer, jump counter and resume offset;
  \<open>name_at\<close> says, independently of the loop, which labels the wire format of RFC 1035 has at an
  offset; the decompressor is proved to return exactly those labels.  \<open>Message.Unpack\<close> is the
  whole message parser.
\<close>

abbreviation headerSize :: nat where "headerSize \<equiv> 12"
abbreviation maxJumps :: nat where "maxJumps \<equiv> 10"
abbreviation maxQuestions :: u16 where "maxQuestions \<equiv> 10"

section \<open>The name decompressor\<close>

record domainDecompressor =
  d_buffer :: bytes
  d_length :: nat
  d_jumps :: nat

definition new_decompressor :: domainDecompressor where
  "new_decompressor = \<lparr>d_buffer = replicate MaxNameLen 0, d_length = 0, d_jumps = 0\<rparr>"

definition pointer_target :: "bytes \<Rightarrow> nat \<Rightarrow> nat" where
  "pointer_target payload off = unat (get16 (sub_slice payload off (off + 2)) AND 0x3FFF)"

text \<open>Appending a label and its dot to the buffer.\<close>

definition push_label :: "domainDecompressor \<Rightarrow> bytes \<Rightarrow> domainDecompressor" where
  "push_label d label =
     (let buf = copy_at (d_buffer d) (d_length d) label;
          len = d_length d + length label
      in d\<lparr>d_buffer := buf[len := byte_of_char CHR ''.''], d_length := len + 1\<rparr>)"

function (sequential) decode_loop ::
  "bytes \<Rightarrow> domainDecompressor \<Rightarrow> nat \<Rightarrow> nat \<Rightarrow> bool \<Rightarrow> dns_error + (string \<times> nat)" where
  "decode_loop payload d currentOffset resumeOffset hasJumped =
     (if d_jumps d > maxJumps then Inl ErrTooManyJumps
      else if currentOffset \<ge> length payload then Inl ErrOutOfBounds
      else
        (let octet = payload ! currentOffset in
         if octet = 0 then
           (let resumeOffset = (if \<not> hasJumped then resumeOffset + 1 else resumeOffset);
                len = (if d_length d > 0 then d_length d - 1 else d_length d)
            in Inr (string_of (take len (d_buffer d)), resumeOffset))
         else if octet AND 0xC0 = 0xC0 then
           (if currentOffset + 1 \<ge> length payload then Inl ErrOutOfBounds
            else
              (let pointerOffset = pointer_target payload currentOffset in
               if pointerOffset \<ge> length payload \<or> pointerOffset \<ge> currentOffset then Inl ErrInvalidPointer
               else decode_loop payload (d\<lparr>d_jumps := d_jumps d + 1\<rparr>) pointerOffset
                      (if \<not> hasJumped then resumeOffset + 2 else resumeOffset) True))
         else
           (let labelLength = unat octet in
            if labelLength > MaxLabelLen then Inl ErrLabelTooLong
            else
              (let currentOffset = currentOffset + 1 in
               if currentOffset + labelLength > length payload then Inl ErrOutOfBounds
               else if d_length d + labelLength + 1 > MaxNameLen then Inl ErrNameTooLong
               else
                 (let d' = push_label d (sub_slice payload currentOffset (currentOffset + labelLength));
                      currentOffset = currentOffset + labelLength
                  in decode_loop payload d' currentOffset
                       (if \<not> hasJumped then currentOffset else resumeOffset) hasJumped)))))"
  by pat_completeness auto
termination
  by (relation "measures [\<lambda>(p, d, c, r, h). Suc maxJumps - d_jumps d, \<lambda>(p, d, c, r, h). length p - c]")
    (auto simp: push_label_def Let_def)

declare decode_loop.simps [simp del]

definition UnpackDomainName :: "bytes \<Rightarrow> nat \<Rightarrow> dns_error + (string \<times> nat)" where
  "UnpackDomainName payload offset = decode_loop payload new_decompressor offset offset False"

section \<open>The message reader\<close>

record packetReader =
  r_payload :: bytes
  r_offset :: nat

definition newPacketReader :: "bytes \<Rightarrow> dns_error + packetReader" where
  "newPacketReader payload =
     (if length payload < headerSize then Inl ErrPacketTooSmall
      else Inr \<lparr>r_payload = payload, r_offset = 0\<rparr>)"

definition field16 :: "packetReader \<Rightarrow> nat \<Rightarrow> u16" where
  "field16 r off = get16 (sub_slice (r_payload r) off (off + 2))"

definition decodeHeader :: "packetReader \<Rightarrow> Header \<times> packetReader" where
  "decodeHeader r =
     (\<lparr>ID = field16 r 0, Flags = field16 r 2, QDCount = field16 r 4, ANCount = field16 r 6,
       NSCount = field16 r 8, ARCount = field16 r 10\<rparr>, r\<lparr>r_offset := headerSize\<rparr>)"

definition decodeDomainName :: "packetReader \<Rightarrow> dns_error + (string \<times> packetReader)" where
  "decodeDomainName r =
     res_bind (UnpackDomainName (r_payload r) (r_offset r))
       (\<lambda>(name, nextOffset). Inr (name, r\<lparr>r_offset := nextOffset\<rparr>))"

definition decodeQuestion :: "packetReader \<Rightarrow> dns_error + (Question \<times> packetReader)" where
  "decodeQuestion r =
     res_bind (decodeDomainName r) (\<lambda>(name, r).
       if r_offset r + 4 > length (r_payload r) then Inl ErrOutOfBounds
       else
         (let qType = field16 r (r_offset r) in
          if qType = TypeOPT then Inl ErrMisplacedOPT
          else
            (let cls = field16 r (r_offset r + 2) in
             Inr (\<lparr>q_Name = name, q_Type = qType, q_Class = cls\<rparr>,
                  r\<lparr>r_offset := r_offset r + 4\<rparr>))))"

definition skipRecord :: "packetReader \<Rightarrow> dns_error + packetReader" where
  "skipRecord r =
     res_bind (decodeDomainName r) (\<lambda>(_, r).
       if r_offset r + 10 > length (r_payload r) then Inl ErrOutOfBounds
       else
         (let rdLen = unat (field16 r (r_offset r + 8));
              r = r\<lparr>r_offset := r_offset r + (10 + rdLen)\<rparr>
          in if r_offset r > length (r_payload r) then Inl ErrOutOfBounds else Inr r))"

text \<open>The loop over the additional section: \<open>opt\<close> is \<open>None\<close> while \<open>foundOPT\<close> is false, else the
  values taken from the OPT record.\<close>

fun decodeEDNS0_loop ::
  "nat \<Rightarrow> packetReader \<Rightarrow> (nat \<times> bool \<times> byte) option \<Rightarrow> dns_error + ((nat \<times> bool \<times> byte) option \<times> packetReader)" where
  "decodeEDNS0_loop 0 r opt = Inr (opt, r)"
| "decodeEDNS0_loop (Suc n) r opt =
     res_bind (decodeDomainName r) (\<lambda>(_, r).
       if r_offset r + 10 > length (r_payload r) then Inl ErrOutOfBounds
       else
         (let qType = field16 r (r_offset r);
              qClass = field16 r (r_offset r + 2);
              rdLen = unat (field16 r (r_offset r + 8))
          in if qType = TypeOPT \<and> opt \<noteq> None then Inl ErrMultipleOPT
             else
               (let opt =
                      (if qType = TypeOPT then
                         Some (unat qClass, field16 r (r_offset r + 6) AND 0x8000 \<noteq> 0,
                               r_payload r ! (r_offset r + 4))
                       else opt);
                    r = r\<lparr>r_offset := r_offset r + (10 + rdLen)\<rparr>
                in if r_offset r > length (r_payload r) then Inl ErrOutOfBounds
                   else decodeEDNS0_loop n r opt)))"

definition decodeEDNS0 :: "packetReader \<Rightarrow> u16 \<Rightarrow> dns_error + (nat \<times> bool \<times> byte)" where
  "decodeEDNS0 r additionalCount =
     res_bind (decodeEDNS0_loop (unat additionalCount) r None)
       (\<lambda>(opt, _). Inr (case opt of None \<Rightarrow> (0, False, 0) | Some x \<Rightarrow> x))"

record Message =
  Questions :: "Question list"
  EDNS0Size :: nat
  msg_Header :: Header
  DO :: bool
  ExtRCode :: byte

definition FullRCode :: "Message \<Rightarrow> u16" where
  "FullRCode m = push_bit 4 (ucast (ExtRCode m)) OR (Flags (msg_Header m) AND 0x0F)"

text \<open>The loops of \<open>Unpack\<close>: the question loop appends to the message as it goes, so what it
  has read survives an error.\<close>

fun unpack_questions ::
  "nat \<Rightarrow> packetReader \<Rightarrow> Question list \<Rightarrow> (dns_error + packetReader) \<times> Question list" where
  "unpack_questions 0 r qs = (Inr r, qs)"
| "unpack_questions (Suc n) r qs =
     (case decodeQuestion r of
        Inl err \<Rightarrow> (Inl err, qs)
      | Inr (question, r) \<Rightarrow> unpack_questions n r (qs @ [question]))"

fun skip_records :: "nat \<Rightarrow> packetReader \<Rightarrow> dns_error + packetReader" where
  "skip_records 0 r = Inr r"
| "skip_records (Suc n) r = res_bind (skipRecord r) (skip_records n)"

definition Message_Unpack :: "Message \<Rightarrow> bytes \<Rightarrow> dns_error option \<times> Message" where
  "Message_Unpack m payload =
     (case newPacketReader payload of
        Inl err \<Rightarrow> (Some err, m)
      | Inr reader \<Rightarrow>
          (let (hdr, reader) = decodeHeader reader;
               m = m\<lparr>msg_Header := hdr\<rparr>
           in if QDCount hdr > maxQuestions then (Some ErrTooManyQuestions, m)
              else
                (case unpack_questions (unat (QDCount hdr)) reader [] of
                   (Inl err, qs) \<Rightarrow> (Some err, m\<lparr>Questions := qs\<rparr>)
                 | (Inr reader, qs) \<Rightarrow>
                     (let m = m\<lparr>Questions := qs\<rparr>;
                          recordsToSkip = unat (ANCount hdr) + unat (NSCount hdr)
                      in case skip_records recordsToSkip reader of
                           Inl err \<Rightarrow> (Some err, m)
                         | Inr reader \<Rightarrow>
                             (case decodeEDNS0 reader (ARCount hdr) of
                                Inl err \<Rightarrow> (Some err, m\<lparr>EDNS0Size := 0, DO := False, ExtRCode := 0\<rparr>)
                              | Inr (ednsSize, do, ext) \<Rightarrow>
                                  (None, m\<lparr>EDNS0Size := ednsSize, DO := do, ExtRCode := ext\<rparr>))))))"

section \<open>The wire format of names\<close>

text \<open>\<open>name_at p off ls j nx\<close>: at \<open>off\<close> the message \<open>p\<close> has the labels \<open>ls\<close>, reached through \<open>j\<close>
  backward pointers, and the field after the name starts at \<open>nx\<close>.\<close>

inductive name_at :: "bytes \<Rightarrow> nat \<Rightarrow> bytes list \<Rightarrow> nat \<Rightarrow> nat \<Rightarrow> bool" where
  name_end: "off < length p \<Longrightarrow> p ! off = 0 \<Longrightarrow> name_at p off [] 0 (off + 1)"
| name_label: "off < length p \<Longrightarrow> p ! off \<noteq> 0 \<Longrightarrow> unat (p ! off) \<le> MaxLabelLen \<Longrightarrow>
    off + 1 + unat (p ! off) \<le> length p \<Longrightarrow>
    name_at p (off + 1 + unat (p ! off)) ls j nx \<Longrightarrow>
    name_at p off (sub_slice p (off + 1) (off + 1 + unat (p ! off)) # ls) j nx"
| name_pointer: "off + 1 < length p \<Longrightarrow> p ! off AND 0xC0 = 0xC0 \<Longrightarrow>
    pointer_target p off < off \<Longrightarrow> name_at p (pointer_target p off) ls j nx \<Longrightarrow>
    name_at p off ls (Suc j) (off + 2)"

inductive_simps name_at_simps: "name_at p off ls j nx"

lemma small_octet_no_pointer:
  assumes "unat (b :: byte) \<le> 63"
  shows "b AND 0xC0 \<noteq> 0xC0"
proof
  assume e: "b AND 0xC0 = 0xC0"
  have "b AND 0xC0 \<le> b" by (rule word_and_le2)
  then have "unat (0xC0 :: byte) \<le> unat b" unfolding e by (simp only: word_le_nat_alt)
  with assms show False by simp
qed

definition wire_length :: "bytes list \<Rightarrow> nat" where
  "wire_length ls = sum_list (map (\<lambda>l. length l + 1) ls)"

definition dotted_bytes :: "bytes list \<Rightarrow> bytes" where
  "dotted_bytes ls = concat (map (\<lambda>l. l @ [byte_of_char CHR ''.'']) ls)"

lemma length_dotted_bytes: "length (dotted_bytes ls) = wire_length ls"
  by (induction ls) (simp_all add: dotted_bytes_def wire_length_def)

lemma wire_length_simps [simp]:
  "wire_length [] = 0" "wire_length (l # ls) = length l + 1 + wire_length ls"
  by (simp_all add: wire_length_def)

lemma dotted_bytes_simps [simp]:
  "dotted_bytes [] = []" "dotted_bytes (l # ls) = l @ byte_of_char CHR ''.'' # dotted_bytes ls"
  by (simp_all add: dotted_bytes_def)

lemma butlast_dotted_bytes:
  "string_of (butlast (dotted_bytes ls)) = join_with CHR ''.'' (map string_of ls)"
proof (induction ls)
  case (Cons l ls)
  then show ?case
    by (cases ls) (simp_all add: butlast_append string_of_def)
qed simp

text \<open>The buffer holds the labels read so far.\<close>

definition buffered :: "domainDecompressor \<Rightarrow> bytes list \<Rightarrow> bool" where
  "buffered d ls \<longleftrightarrow> length (d_buffer d) = MaxNameLen \<and> d_length d = wire_length ls \<and>
     take (d_length d) (d_buffer d) = dotted_bytes ls"

lemma buffered_new: "buffered new_decompressor []"
  by (simp add: buffered_def new_decompressor_def)

lemma buffered_jump [simp]: "buffered (d\<lparr>d_jumps := j\<rparr>) ls \<longleftrightarrow> buffered d ls"
  by (simp add: buffered_def)

lemma buffered_push:
  assumes "buffered d ls" and "d_length d + length l + 1 \<le> MaxNameLen"
  shows "buffered (push_label d l) (ls @ [l])" and "d_jumps (push_label d l) = d_jumps d"
    and "d_length (push_label d l) = d_length d + length l + 1"
proof -
  have "take (d_length d + length l + 1) ((copy_at (d_buffer d) (d_length d) l)[d_length d + length l := byte_of_char CHR ''.'']) =
      take (d_length d) (d_buffer d) @ l @ [byte_of_char CHR ''.'']"
    using assms by (simp add: buffered_def copy_at_fit take_Suc_conv_app_nth take_update_swap nth_append
        list_update_append min_def)
  then show "buffered (push_label d l) (ls @ [l])"
    using assms by (auto simp: buffered_def push_label_def Let_def wire_length_def dotted_bytes_def)
qed (simp_all add: push_label_def Let_def)

lemma buffered_result:
  assumes "buffered d ls"
  shows "string_of (take (if d_length d > 0 then d_length d - 1 else d_length d) (d_buffer d)) =
    join_with CHR ''.'' (map string_of ls)"
proof -
  have "length (take (d_length d) (d_buffer d)) = d_length d"
    using assms length_dotted_bytes [of ls] by (metis buffered_def)
  then have "take (d_length d - 1) (d_buffer d) = butlast (take (d_length d) (d_buffer d))"
    by (simp add: butlast_conv_take min_def)
  then show ?thesis
    using assms butlast_dotted_bytes [of ls] by (auto simp: buffered_def)
qed

section \<open>The decompressor returns the name on the wire\<close>

lemma name_at_pointer_iff:
  assumes "c < length p" "p ! c \<noteq> 0" "p ! c AND 0xC0 = 0xC0"
  shows "name_at p c ls j e \<longleftrightarrow> c + 1 < length p \<and> pointer_target p c < c \<and> e = c + 2 \<and>
    (\<exists>j' e'. j = Suc j' \<and> name_at p (pointer_target p c) ls j' e')"
proof -
  have "\<not> unat (p ! c) \<le> 63" using assms(3) small_octet_no_pointer by blast
  with assms show ?thesis by (subst name_at_simps) auto
qed

lemma name_at_label_iff:
  assumes "c < length p" "p ! c \<noteq> 0" "p ! c AND 0xC0 \<noteq> 0xC0"
  shows "name_at p c ls j e \<longleftrightarrow> unat (p ! c) \<le> MaxLabelLen \<and> c + 1 + unat (p ! c) \<le> length p \<and>
    (\<exists>ls'. ls = sub_slice p (c + 1) (c + 1 + unat (p ! c)) # ls' \<and>
       name_at p (c + 1 + unat (p ! c)) ls' j e)"
  using assms by (subst name_at_simps) auto

text \<open>What remains to be read at \<open>c\<close> after the labels \<open>done\<close>, with \<open>dj\<close> jumps made; \<open>h\<close> and \<open>r\<close>
  are the loop's \<open>hasJumped\<close> and \<open>resumeOffset\<close>.\<close>

definition reads :: "bytes \<Rightarrow> nat \<Rightarrow> bytes list \<Rightarrow> nat \<Rightarrow> bool \<Rightarrow> nat \<Rightarrow> string \<Rightarrow> nat \<Rightarrow> bool" where
  "reads p dj before c h r nm nx \<longleftrightarrow>
     (\<exists>ls j e. name_at p c ls j e \<and> dj + j \<le> maxJumps \<and> wire_length (before @ ls) \<le> MaxNameLen \<and>
        nm = join_with CHR ''.'' (map string_of (before @ ls)) \<and> nx = (if h then r else e))"

lemma reads_pointer:
  assumes "c < length p" "p ! c \<noteq> 0" "p ! c AND 0xC0 = 0xC0"
  shows "reads p dj before c h r nm nx \<longleftrightarrow> c + 1 < length p \<and> pointer_target p c < c \<and>
    reads p (dj + 1) before (pointer_target p c) True (if h then r else c + 2) nm nx"
proof
  assume "reads p dj before c h r nm nx"
  then obtain ls j e where "name_at p c ls j e" and r: "dj + j \<le> maxJumps"
    "wire_length (before @ ls) \<le> MaxNameLen" "nm = join_with CHR ''.'' (map string_of (before @ ls))"
    "nx = (if h then r else e)"
    unfolding reads_def by blast
  then obtain j' e' where "c + 1 < length p" "pointer_target p c < c" "e = c + 2" "j = Suc j'"
    "name_at p (pointer_target p c) ls j' e'"
    unfolding name_at_pointer_iff [OF assms] by blast
  with r show "c + 1 < length p \<and> pointer_target p c < c \<and>
      reads p (dj + 1) before (pointer_target p c) True (if h then r else c + 2) nm nx"
    unfolding reads_def by (intro conjI exI [of _ ls] exI [of _ j'] exI [of _ e']) simp_all
next
  assume r: "c + 1 < length p \<and> pointer_target p c < c \<and>
      reads p (dj + 1) before (pointer_target p c) True (if h then r else c + 2) nm nx"
  then obtain ls j e where "name_at p (pointer_target p c) ls j e" "dj + 1 + j \<le> maxJumps"
    "wire_length (before @ ls) \<le> MaxNameLen" "nm = join_with CHR ''.'' (map string_of (before @ ls))"
    "nx = (if h then r else c + 2)"
    unfolding reads_def by auto
  moreover from this(1) r have "name_at p c ls (Suc j) (c + 2)"
    unfolding name_at_pointer_iff [OF assms] by blast
  ultimately show "reads p dj before c h r nm nx"
    unfolding reads_def by (intro exI [of _ ls] exI [of _ "Suc j"] exI [of _ "c + 2"]) simp
qed

lemma reads_label:
  assumes "c < length p" "p ! c \<noteq> 0" "p ! c AND 0xC0 \<noteq> 0xC0"
  defines "n \<equiv> unat (p ! c)"
  shows "reads p dj before c h r nm nx \<longleftrightarrow> n \<le> MaxLabelLen \<and> c + 1 + n \<le> length p \<and>
    reads p dj (before @ [sub_slice p (c + 1) (c + 1 + n)]) (c + 1 + n) h r nm nx"
  unfolding reads_def name_at_label_iff [OF assms(1-3)] n_def by (simp only: append_assoc append_Cons append_Nil) blast

lemma reads_root:
  "c < length p \<Longrightarrow> p ! c = 0 \<Longrightarrow> reads p dj before c h r nm nx \<longleftrightarrow>
   dj \<le> maxJumps \<and> wire_length before \<le> MaxNameLen \<and>
   nm = join_with CHR ''.'' (map string_of before) \<and> nx = (if h then r else c + 1)"
  unfolding reads_def name_at_simps [of p c] by auto

lemma name_at_offset: "name_at p c ls j e \<Longrightarrow> c < length p"
  by (erule name_at.cases) auto

lemma wire_length_append [simp]: "wire_length (a @ b) = wire_length a + wire_length b"
  by (simp add: wire_length_def)

lemma reads_bounds:
  "reads p dj before c h r nm nx \<Longrightarrow> dj \<le> maxJumps \<and> c < length p \<and> wire_length before \<le> MaxNameLen"
  unfolding reads_def by (auto dest: name_at_offset)

lemma decode_loop_iff:
  assumes "buffered d before" and "\<not> h \<longrightarrow> r = c"
  shows "decode_loop p d c r h = Inr (nm, nx) \<longleftrightarrow> reads p (d_jumps d) before c h r nm nx"
  using assms
proof (induction p d c r h arbitrary: before rule: decode_loop.induct)
  case (1 p d c r h)
  note unf = decode_loop.simps [of p d c r h]
  have len: "d_length d = wire_length before" "wire_length before \<le> MaxNameLen"
    using 1(3) length_dotted_bytes [of before] by (auto simp: buffered_def dest: arg_cong [of _ _ length])
  consider (out) "d_jumps d > maxJumps \<or> c \<ge> length p"
    | (root) "d_jumps d \<le> maxJumps" "c < length p" "p ! c = 0"
    | (ptr) "d_jumps d \<le> maxJumps" "c < length p" "p ! c \<noteq> 0" "p ! c AND 0xC0 = 0xC0"
    | (lab) "d_jumps d \<le> maxJumps" "c < length p" "p ! c \<noteq> 0" "p ! c AND 0xC0 \<noteq> 0xC0"
    by linarith
  then show ?case
  proof cases
    case out
    then show ?thesis using reads_bounds [of p "d_jumps d" before c h r nm nx] by (auto simp: unf)
  next
    case root
    show ?thesis
      using root len buffered_result [OF 1(3)] 1(4)
      by (auto simp: unf Let_def reads_root split: if_splits)
  next
    case ptr
    let ?t = "pointer_target p c"
    have eq: "(if \<not> h then r + 2 else r) = (if h then r else c + 2)" using 1(4) by simp
    show ?thesis
      using ptr 1(1) [of "p ! c" ?t before] 1(3)
      by (cases "c + 1 < length p \<and> ?t < c") (auto simp: unf Let_def reads_pointer [OF ptr(2-4)] eq)
  next
    case lab
    let ?n = "unat (p ! c)"
    let ?l = "sub_slice p (c + 1) (c + 1 + ?n)"
    show ?thesis
    proof (cases "?n \<le> MaxLabelLen \<and> c + 1 + ?n \<le> length p \<and> d_length d + ?n + 1 \<le> MaxNameLen")
      case False
      then show ?thesis
        using lab len reads_bounds [of p "d_jumps d" "before @ [?l]" "c + 1 + ?n" h r nm nx]
        by (auto simp: unf Let_def reads_label [OF lab(2-4)] min_def split: if_splits)
    next
      case True
      then have ll: "length ?l = ?n" by (auto simp: min_def)
      have "decode_loop p d c r h =
          decode_loop p (push_label d ?l) (c + 1 + ?n) (if \<not> h then c + 1 + ?n else r) h"
        using lab True by (simp add: unf Let_def)
      moreover have "decode_loop p (push_label d ?l) (c + 1 + ?n) (if \<not> h then c + 1 + ?n else r) h = Inr (nm, nx) \<longleftrightarrow>
          reads p (d_jumps d) (before @ [?l]) (c + 1 + ?n) h (if \<not> h then c + 1 + ?n else r) nm nx"
        using 1(2) [of "p ! c" ?n "c + 1" "push_label d ?l" "c + 1 + ?n" "before @ [?l]"]
          lab True buffered_push [OF 1(3), of ?l] ll by simp
      ultimately show ?thesis
        using True by (simp add: reads_label [OF lab(2-4)]) (simp add: reads_def)
    qed
  qed
qed

section \<open>Properties\<close>

lemma name_at_bounds:
  "name_at p off ls j nx \<Longrightarrow> off < nx \<and> nx \<le> length p \<and> (\<forall>l \<in> set ls. l \<noteq> [] \<and> length l \<le> MaxLabelLen)"
proof (induction rule: name_at.induct)
  case (name_label off p ls j nx)
  let ?l = "sub_slice p (off + 1) (off + 1 + unat (p ! off))"
  have len: "length ?l = unat (p ! off)" using name_label by (auto simp: min_def)
  moreover have "unat (p ! off) \<noteq> 0" using name_label(2) by (simp add: unat_eq_zero)
  ultimately have "?l \<noteq> []" by (metis list.size(3))
  with len name_label(3) name_label.IH show ?case by (simp only: list.set) auto
next
  case (name_pointer off p ls j nx)
  from name_pointer(1) name_pointer.IH show ?case by simp
qed simp


lemma Unpack_next_offset:
  "UnpackDomainName p off = Inr (nm, nx) \<Longrightarrow> off < nx \<and> nx \<le> length p \<and> length nm \<le> MaxNameLen - 1"
proof -
  assume u: "UnpackDomainName p off = Inr (nm, nx)"
  have "\<exists>ls j. name_at p off ls j nx \<and> wire_length ls \<le> MaxNameLen \<and> nm = join_with CHR ''.'' (map string_of ls)"
    using u decode_loop_iff [OF buffered_new, of False off off p nm nx] by (auto simp: UnpackDomainName_def reads_def)
  then obtain ls j where n: "name_at p off ls j nx" "wire_length ls \<le> MaxNameLen"
    "nm = join_with CHR ''.'' (map string_of ls)" by blast
  have "length (butlast (dotted_bytes ls)) \<le> MaxNameLen - 1"
    using n(2) by (simp add: length_dotted_bytes)
  then have "length nm \<le> MaxNameLen - 1"
    using n(3) butlast_dotted_bytes [of ls] by (metis length_string_of)
  with name_at_bounds [OF n(1)] show ?thesis by simp
qed

lemma encode_label_good:
  assumes "l \<noteq> []" "length l \<le> MaxLabelLen"
  shows "encode_label l = word_of_nat (length l) # bytes_of l" and "unat (word_of_nat (length l) :: byte) = length l"
    and "(word_of_nat (length l) :: byte) \<noteq> 0"
proof -
  show "encode_label l = word_of_nat (length l) # bytes_of l"
    using assms by (simp add: encode_label_def Let_def min_def)
  show u: "unat (word_of_nat (length l) :: byte) = length l"
    using assms by (simp add: unat_of_nat)
  show "(word_of_nat (length l) :: byte) \<noteq> 0"
    using u assms(1) by (metis length_greater_0_conv not_gr_zero unat_0)
qed

text \<open>The wire form of labels read back at its place in a message.\<close>

lemma name_at_encoded:
  "\<forall>l \<in> set ls. l \<noteq> [] \<and> length l \<le> MaxLabelLen \<Longrightarrow>
   name_at (pre @ concat (map encode_label ls) @ 0 # post) (length pre) (map bytes_of ls) 0
     (length pre + length (concat (map encode_label ls)) + 1)"
proof (induction ls arbitrary: pre)
  case Nil
  show ?case using name_end [of "length pre" "pre @ 0 # post"] by simp
next
  case (Cons l ls)
  then have l: "l \<noteq> []" "length l \<le> MaxLabelLen" by auto
  note e = encode_label_good [OF l]
  let ?p = "pre @ concat (map encode_label (l # ls)) @ 0 # post"
  let ?pre = "pre @ encode_label l"
  have "name_at ?p (length ?pre) (map bytes_of ls) 0
      (length ?pre + length (concat (map encode_label ls)) + 1)"
    using Cons.IH [of ?pre] Cons.prems by simp
  moreover have "?p ! length pre = word_of_nat (length l)" by (simp add: e(1) nth_append)
  moreover have "sub_slice ?p (length pre + 1) (length pre + 1 + length l) = bytes_of l"
    by (simp add: sub_slice_def e(1))
  ultimately show ?case
    using name_label [of "length pre" ?p "map bytes_of ls" 0
        "length ?pre + length (concat (map encode_label ls)) + 1"] e l by (simp add: add.assoc)
qed

lemma Encode_normal:
  assumes "normal_name d"
  shows "EncodeDomainName ul d = concat (map encode_label (split_on CHR ''.'' d)) @ [0]"
proof -
  have h: "list_all host_char d" using assms normal_host by (simp add: normal_name_def)
  then have "ToLower ul (TrimSpace d) = d"
    using assms host_char_ascii by (simp add: TrimSpace_host ToLower_def normal_name_def list_all_iff)
  with normal_name_last [OF assms] show ?thesis
    by (auto simp: EncodeDomainName_def TrimSuffix_dot Let_def)
qed

lemma length_encoded:
  "\<forall>l \<in> set ls. l \<noteq> [] \<and> length l \<le> MaxLabelLen \<Longrightarrow>
   length (concat (map encode_label ls)) = wire_length (map bytes_of ls)"
  by (induction ls) (simp_all add: encode_label_good(1))

lemma wire_length_join: "ls \<noteq> [] \<Longrightarrow> wire_length (map bytes_of ls) = length (join_with c ls) + 1"
  by (induction c ls rule: join_with.induct) simp_all

lemma normal_name_good:
  "normal_name d \<Longrightarrow> \<forall>l \<in> set (split_on CHR ''.'' d). l \<noteq> [] \<and> length l \<le> MaxLabelLen"
  by (auto simp: normal_name_def good_label_def in_set_conv_nth)

lemma length_Encode_normal: "normal_name d \<Longrightarrow> length (EncodeDomainName ul d) = length d + 2"
  using length_encoded [OF normal_name_good, of d] wire_length_join [of "split_on CHR ''.'' d" "CHR ''.''"]
  by (simp add: Encode_normal)

lemma Unpack_Encode_normal:
  assumes "normal_name d"
  shows "UnpackDomainName (pre @ EncodeDomainName ul d @ post) (length pre) = Inr (d, length pre + length d + 2)"
proof -
  let ?ls = "split_on CHR ''.'' d"
  note good = normal_name_good [OF assms]
  have wl: "wire_length (map bytes_of ?ls) = length d + 1"
    using wire_length_join [of ?ls "CHR ''.''"] by simp
  have "name_at (pre @ EncodeDomainName ul d @ post) (length pre) (map bytes_of ?ls) 0 (length pre + length d + 2)"
    using name_at_encoded [OF good, of pre post] length_encoded [OF good] wl
    by (simp add: Encode_normal [OF assms])
  moreover have "length d \<le> 253" using assms by (simp add: normal_name_def)
  ultimately have "reads (pre @ EncodeDomainName ul d @ post) 0 [] (length pre) False (length pre) d (length pre + length d + 2)"
    unfolding reads_def using wl
    by (intro exI [of _ "map bytes_of ?ls"] exI [of _ 0] exI [of _ "length pre + length d + 2"])
      (simp add: comp_def)
  then show ?thesis
    using decode_loop_iff [OF buffered_new, of False "length pre" "length pre"]
    by (simp add: UnpackDomainName_def new_decompressor_def)
qed

text \<open>C26: wire round trip.  A domain name accepted by \<open>ValidateDomain\<close>, encoded by
  \<open>EncodeDomainName\<close> and placed anywhere in a message, is read back by \<open>UnpackDomainName\<close> as
  the same name, and the next offset is the byte after it.  (The root, stored as a single
  dot, is one zero byte on the wire and reads back as the empty string.)\<close>

theorem domain_name_wire_roundtrip:
  assumes "ValidateDomain ul name = Inr d"
  shows "UnpackDomainName (pre @ EncodeDomainName ul' d @ post) (length pre) =
    (if d = ''.'' then Inr ([], length pre + 1) else Inr (d, length pre + length d + 2))"
proof (cases "d = ''.''")
  case True
  have "TrimSpace ''.'' = ''.''" by (rule TrimSpace_host) (simp add: host_char_def)
  then have "EncodeDomainName ul' d = [0]"
    by (simp add: True EncodeDomainName_def ToLower_def is_ascii_def lower_ascii_def)
  then show ?thesis using True
    by (simp add: UnpackDomainName_def decode_loop.simps new_decompressor_def)
next
  case False
  then show ?thesis using ValidateDomain_normal [OF assms] Unpack_Encode_normal by simp
qed

theorem domain_name_wire_roundtrip_witness:
  "UnpackDomainName ([1, 2] @ EncodeDomainName id ''*.example.com'' @ [7]) 2 =
   Inr (''*.example.com'', 17)"
proof -
  have "ValidateDomain id ''*.Example.com.'' = Inr ''*.example.com''" by code_simp
  from domain_name_wire_roundtrip [OF this, of "[1, 2]" id "[7]"] show ?thesis by (simp add: eval_nat_numeral)
qed

section \<open>The message parser\<close>

lemma decodeDomainName_offset:
  "decodeDomainName r = Inr (nm, r') \<Longrightarrow>
   r_payload r' = r_payload r \<and> r_offset r < r_offset r' \<and> r_offset r' \<le> length (r_payload r)"
  by (auto simp: decodeDomainName_def res_bind_eq_Inr dest!: Unpack_next_offset)

lemma decodeQuestion_offset:
  "decodeQuestion r = Inr (q, r') \<Longrightarrow>
   r_payload r' = r_payload r \<and> r_offset r + 5 \<le> r_offset r' \<and> r_offset r' \<le> length (r_payload r) \<and>
   q_Type q \<noteq> TypeOPT \<and> length (q_Name q) \<le> 254"
  by (auto simp: decodeQuestion_def decodeDomainName_def res_bind_eq_Inr Let_def split: if_splits
      dest!: Unpack_next_offset)

lemma unpack_questions_result:
  "unpack_questions n r qs = (Inr r', qs') \<Longrightarrow> list_all (\<lambda>q. q_Type q \<noteq> TypeOPT \<and> length (q_Name q) \<le> 254) qs \<Longrightarrow>
   length qs' = length qs + n \<and> r_payload r' = r_payload r \<and> r_offset r + 5 * n \<le> r_offset r' \<and>
   (r_offset r \<le> length (r_payload r) \<longrightarrow> r_offset r' \<le> length (r_payload r)) \<and>
   list_all (\<lambda>q. q_Type q \<noteq> TypeOPT \<and> length (q_Name q) \<le> 254) qs'"
proof (induction n arbitrary: r qs)
  case (Suc n)
  then obtain q r1 where q: "decodeQuestion r = Inr (q, r1)" and rest: "unpack_questions n r1 (qs @ [q]) = (Inr r', qs')"
    by (auto split: sum.splits prod.splits)
  from Suc.IH [OF rest] Suc.prems(2) decodeQuestion_offset [OF q] show ?case by auto
qed simp

text \<open>What a successful \<open>Message.Unpack\<close> guarantees about untrusted input: the payload has a
  full header, the header fields are the ones on the wire, there are exactly \<open>QDCount\<close> (at most
  10) questions, each takes at least 5 bytes of the payload, none asks for the OPT
  pseudo-type, and every name has at most 254 bytes.\<close>

theorem Message_Unpack_bounds:
  assumes "Message_Unpack m payload = (None, m')"
  shows "12 + 5 * length (Questions m') \<le> length payload \<and>
    length (Questions m') = unat (QDCount (msg_Header m')) \<and> length (Questions m') \<le> 10 \<and>
    list_all (\<lambda>q. q_Type q \<noteq> TypeOPT \<and> length (q_Name q) \<le> 254) (Questions m') \<and>
    msg_Header m' = fst (decodeHeader \<lparr>r_payload = payload, r_offset = 0\<rparr>)"
proof -
  obtain hdr r where h: "decodeHeader \<lparr>r_payload = payload, r_offset = 0\<rparr> = (hdr, r)" by fastforce
  have r: "r_payload r = payload" "r_offset r = 12" using h by (auto simp: decodeHeader_def)
  have "\<not> QDCount hdr > maxQuestions" "\<not> length payload < 12"
    and "\<exists>r' qs. unpack_questions (unat (QDCount hdr)) r [] = (Inr r', qs) \<and> Questions m' = qs \<and> msg_Header m' = hdr"
    using assms h by (auto simp: Message_Unpack_def newPacketReader_def Let_def split: if_splits sum.splits prod.splits)
  then obtain r' qs where q: "unpack_questions (unat (QDCount hdr)) r [] = (Inr r', qs)"
    "Questions m' = qs" "msg_Header m' = hdr" by blast
  have "unat (QDCount hdr) \<le> 10"
    using \<open>\<not> QDCount hdr > maxQuestions\<close> by (simp add: word_less_nat_alt)
  with unpack_questions_result [OF q(1)] q(2,3) r h \<open>\<not> length payload < 12\<close> show ?thesis by auto
qed

definition sample_query :: bytes where
  "sample_query = [0, 7, 1, 0, 0, 1, 0, 0, 0, 0, 0, 0, 3, 99, 111, 109, 0, 0, 1, 0, 1]"

definition empty_message :: Message where
  "empty_message = \<lparr>Questions = [], EDNS0Size = 0,
     msg_Header = \<lparr>ID = 0, Flags = 0, QDCount = 0, ANCount = 0, NSCount = 0, ARCount = 0\<rparr>,
     DO = False, ExtRCode = 0\<rparr>"

theorem Message_Unpack_bounds_witness:
  "fst (Message_Unpack empty_message sample_query) = None \<and>
   Questions (snd (Message_Unpack empty_message sample_query)) =
     [\<lparr>q_Name = ''com'', q_Type = TypeA, q_Class = ClassIN\<rparr>] \<and>
   12 + 5 * length (Questions (snd (Message_Unpack empty_message sample_query))) \<le> length sample_query"
proof -
  have f: "fst (Message_Unpack empty_message sample_query) = None" by code_simp
  moreover have "Questions (snd (Message_Unpack empty_message sample_query)) =
     [\<lparr>q_Name = ''com'', q_Type = TypeA, q_Class = ClassIN\<rparr>]" by code_simp
  moreover have "Message_Unpack empty_message sample_query = (None, snd (Message_Unpack empty_message sample_query))"
    using f by (metis prod.collapse)
  ultimately show ?thesis using Message_Unpack_bounds by blast
qed

end
