(* ===== verification/Pack.thy ===== *)
theory Pack
  imports Unpack
begin

text \<open>
  \<open>internal/dns/pack.go\<close>: the writer of DNS responses into a fixed buffer, with the table of
  name compression, truncation at the payload limit, the OPT record, and the slip responses of
  rate limiting.  The writer keeps the buffer's length, never moves its offset past it, and
  every compression pointer it writes leads back to the labels of the name.
\<close>

abbreviation MaxUDPSize :: int where "MaxUDPSize \<equiv> 512"
abbreviation MaxEDNS0Size :: int where "MaxEDNS0Size \<equiv> 1232"
abbreviation maxCompressionOffsets :: nat where "maxCompressionOffsets \<equiv> 16"

section \<open>The compression table\<close>

text \<open>The arrays \<open>names\<close> and \<open>offsets\<close> up to \<open>count\<close> are a list of pairs in insertion order.\<close>

type_synonym domainCompressor = "(string \<times> u16) list"

definition equalFoldASCII :: "string \<Rightarrow> string \<Rightarrow> bool" where
  "equalFoldASCII a b \<longleftrightarrow> length a = length b \<and> list_all2 (\<lambda>ca cb. lower_char ca = lower_char cb) a b"

fun table_find :: "domainCompressor \<Rightarrow> string \<Rightarrow> u16 option" where
  "table_find [] domain = None"
| "table_find ((name, off) # c) domain =
     (if equalFoldASCII name domain then Some off else table_find c domain)"

definition compressor_lookup :: "domainCompressor \<Rightarrow> string \<Rightarrow> u16 option" where
  "compressor_lookup c domain = (if domain = [] \<or> domain = ''.'' then None else table_find c domain)"

definition compressor_insert :: "domainCompressor \<Rightarrow> string \<Rightarrow> nat \<Rightarrow> domainCompressor" where
  "compressor_insert c domain offset =
     (if length c \<ge> maxCompressionOffsets \<or> offset > 0x3FFF \<or> domain = [] \<or> domain = ''.'' then c
      else if table_find c domain \<noteq> None then c
      else c @ [(domain, word_of_nat offset)])"

section \<open>The packet writer\<close>

record packetWriter =
  w_buf :: bytes
  w_table :: domainCompressor
  w_offset :: nat

definition newPacketWriter :: "bytes \<Rightarrow> int \<Rightarrow> dns_error + packetWriter" where
  "newPacketWriter buf maxSize =
     (let maxSize = (if maxSize > int (length buf) then int (length buf) else maxSize) in
      if maxSize < int headerSize then Inl ErrBufferTooSmall
      else Inr \<lparr>w_buf = take (nat maxSize) buf, w_table = [], w_offset = 0\<rparr>)"

definition writeHeader :: "packetWriter \<Rightarrow> u16 \<Rightarrow> u16 \<Rightarrow> u16 \<Rightarrow> packetWriter" where
  "writeHeader w i flags questionCount =
     w\<lparr>w_buf := put16_at (put16_at (put16_at (put16_at (put16_at (put16_at (w_buf w) 0 i) 2 flags)
                  4 questionCount) 6 0) 8 0) 10 0,
       w_offset := headerSize\<rparr>"

definition writeFinalLabel :: "packetWriter \<Rightarrow> string \<Rightarrow> bool \<Rightarrow> dns_error + packetWriter" where
  "writeFinalLabel w label allowCompression =
     (let labelLen = length label in
      if labelLen > MaxLabelLen then Inl ErrLabelTooLong
      else if labelLen = 0 then Inr w
      else if w_offset w + 1 + labelLen + 1 > length (w_buf w) then Inl ErrBufferTooSmall
      else
        (let table = (if allowCompression then compressor_insert (w_table w) label (w_offset w) else w_table w);
             buf = (w_buf w)[w_offset w := word_of_nat labelLen];
             buf = copy_at buf (w_offset w + 1) (bytes_of label);
             buf = buf[w_offset w + 1 + labelLen := 0]
         in Inr \<lparr>w_buf = buf, w_table = table, w_offset = w_offset w + 1 + labelLen + 1\<rparr>))"

definition writeIntermediateLabel ::
  "packetWriter \<Rightarrow> string \<Rightarrow> string \<Rightarrow> bool \<Rightarrow> dns_error + packetWriter" where
  "writeIntermediateLabel w fullSuffix label allowCompression =
     (let labelLen = length label in
      if labelLen > MaxLabelLen then Inl ErrLabelTooLong
      else if labelLen = 0 then Inr w
      else if w_offset w + 1 + labelLen > length (w_buf w) then Inl ErrBufferTooSmall
      else
        (let table = (if allowCompression then compressor_insert (w_table w) fullSuffix (w_offset w) else w_table w);
             buf = (w_buf w)[w_offset w := word_of_nat labelLen];
             buf = copy_at buf (w_offset w + 1) (bytes_of label)
         in Inr \<lparr>w_buf = buf, w_table = table, w_offset = w_offset w + 1 + labelLen\<rparr>))"

definition write_zero :: "packetWriter \<Rightarrow> dns_error + packetWriter" where
  "write_zero w =
     (if w_offset w \<ge> length (w_buf w) then Inl ErrBufferTooSmall
      else Inr (w\<lparr>w_buf := (w_buf w)[w_offset w := 0], w_offset := w_offset w + 1\<rparr>))"

text \<open>Each turn of the loop cuts the suffix at its first dot.  When a label fails, the bytes and
  table entries of the labels before it stay behind in the writer, so a failure carries the
  writer as well.\<close>

function write_suffix :: "packetWriter \<Rightarrow> string \<Rightarrow> bool \<Rightarrow> dns_error option \<times> packetWriter" where
  "write_suffix w currentSuffix allowCompression =
     (case (if allowCompression then compressor_lookup (w_table w) currentSuffix else None) of
        Some pointerOffset \<Rightarrow>
          if w_offset w + 2 > length (w_buf w) then (Some ErrBufferTooSmall, w)
          else (None, w\<lparr>w_buf := put16_at (w_buf w) (w_offset w) (0xC000 OR pointerOffset),
                        w_offset := w_offset w + 2\<rparr>)
      | None \<Rightarrow>
          (case IndexByte currentSuffix CHR ''.'' of
             None \<Rightarrow>
               (case writeFinalLabel w currentSuffix allowCompression of
                  Inl err \<Rightarrow> (Some err, w)
                | Inr w' \<Rightarrow> (None, w'))
           | Some dotIndex \<Rightarrow>
               (case writeIntermediateLabel w currentSuffix (take dotIndex currentSuffix) allowCompression of
                  Inl err \<Rightarrow> (Some err, w)
                | Inr w' \<Rightarrow>
                    (let currentSuffix = drop (dotIndex + 1) currentSuffix in
                     if currentSuffix = [] then
                       (case write_zero w' of Inl err \<Rightarrow> (Some err, w') | Inr w'' \<Rightarrow> (None, w''))
                     else write_suffix w' currentSuffix allowCompression))))"
  by pat_completeness auto
termination
  by (relation "measure (\<lambda>(w, s, c). length s)") (auto simp: Let_def)

declare write_suffix.simps [simp del]

definition writeDomainCompressed :: "packetWriter \<Rightarrow> string \<Rightarrow> bool \<Rightarrow> dns_error option \<times> packetWriter" where
  "writeDomainCompressed w name allowCompression =
     (if length name > MaxNameLen then (Some ErrNameTooLong, w)
      else if name = [] \<or> name = ''.'' then
        (case write_zero w of Inl err \<Rightarrow> (Some err, w) | Inr w' \<Rightarrow> (None, w'))
      else write_suffix w name allowCompression)"

definition writeDomain :: "packetWriter \<Rightarrow> string \<Rightarrow> dns_error option \<times> packetWriter" where
  "writeDomain w name = writeDomainCompressed w name True"

definition writeUncompressedDomain :: "packetWriter \<Rightarrow> string \<Rightarrow> dns_error option \<times> packetWriter" where
  "writeUncompressedDomain w name = writeDomainCompressed w name False"

definition writeQuestion :: "packetWriter \<Rightarrow> Question \<Rightarrow> dns_error option \<times> packetWriter" where
  "writeQuestion w q =
     (case writeDomain w (q_Name q) of
        (Some err, w) \<Rightarrow> (Some err, w)
      | (None, w) \<Rightarrow>
          if length (w_buf w) - w_offset w < 4 then (Some ErrBufferTooSmall, w)
          else (None, w\<lparr>w_buf := put16_at (put16_at (w_buf w) (w_offset w) (q_Type q)) (w_offset w + 2) (q_Class q),
                        w_offset := w_offset w + 4\<rparr>))"

definition setTruncatedFlag :: "packetWriter \<Rightarrow> packetWriter" where
  "setTruncatedFlag w =
     w\<lparr>w_buf := put16_at (w_buf w) 2 (get16 (sub_slice (w_buf w) 2 4) OR 0x0200)\<rparr>"

text \<open>One record: the fixed part and the record data at the offset.\<close>

definition put_record :: "packetWriter \<Rightarrow> RRSet \<Rightarrow> bytes \<Rightarrow> packetWriter" where
  "put_record w rrset rdataWire =
     (let off = w_offset w;
          buf = put16_at (w_buf w) off (rr_Type rrset);
          buf = put16_at buf (off + 2) (rr_Class rrset);
          buf = put32_at buf (off + 4) (TTL rrset);
          buf = put16_at buf (off + 8) (word_of_nat (length rdataWire));
          buf = copy_at buf (off + 10) rdataWire
      in w\<lparr>w_buf := buf, w_offset := off + 10 + length rdataWire\<rparr>)"

fun write_records ::
  "packetWriter \<Rightarrow> string \<Rightarrow> RRSet \<Rightarrow> bytes list \<Rightarrow> u16 \<Rightarrow> (dns_error + u16) \<times> packetWriter" where
  "write_records w ownerName rrset [] count = (Inr count, w)"
| "write_records w ownerName rrset (rdataWire # rest) count =
     (let recordStartOffset = w_offset w in
      case writeDomain w ownerName of
        (Some err, w) \<Rightarrow>
          if err = ErrBufferTooSmall then
            (Inr count, setTruncatedFlag (w\<lparr>w_offset := recordStartOffset\<rparr>))
          else (Inl err, w)
      | (None, w) \<Rightarrow>
          if length (w_buf w) - w_offset w < 10 + length rdataWire then
            (Inr count, setTruncatedFlag (w\<lparr>w_offset := recordStartOffset\<rparr>))
          else
            (let w = put_record w rrset rdataWire; count = count + 1 in
             if count = 0xFFFF then (Inr count, w)
             else write_records w ownerName rrset rest count))"

definition writeRRSet :: "packetWriter \<Rightarrow> string \<Rightarrow> RRSet \<Rightarrow> (dns_error + u16) \<times> packetWriter" where
  "writeRRSet w ownerName rrset = write_records w ownerName rrset (RData rrset) 0"

definition updateCounts :: "packetWriter \<Rightarrow> u16 \<Rightarrow> u16 \<Rightarrow> u16 \<Rightarrow> packetWriter" where
  "updateCounts w answerCount authorityCount additionalCount =
     w\<lparr>w_buf := put16_at (put16_at (put16_at (w_buf w) 6 answerCount) 8 authorityCount) 10 additionalCount\<rparr>"

definition writeEDNS0 :: "packetWriter \<Rightarrow> Message \<Rightarrow> Result \<Rightarrow> u16 \<times> packetWriter" where
  "writeEDNS0 w m res =
     (if EDNS0Size m = 0 then (0, w)
      else if length (w_buf w) - w_offset w < 11 then (0, w)
      else
        (let off = w_offset w;
             buf = (w_buf w)[off := 0];
             buf = put16_at buf (off + 1) TypeOPT;
             buf = put16_at buf (off + 3) 4096;
             ednsFlags = (if DO m then 0x8000 else 0 :: u16);
             extRCodeUpper = drop_bit 4 (RCode res);
             ttlVal = push_bit 24 (ucast extRCodeUpper) OR ucast ednsFlags;
             buf = put32_at buf (off + 5) ttlVal;
             buf = put16_at buf (off + 9) 0
         in (1, w\<lparr>w_buf := buf, w_offset := off + 11\<rparr>)))"

definition writeAuthoritySection :: "packetWriter \<Rightarrow> Message \<Rightarrow> Result \<Rightarrow> (dns_error + u16) \<times> packetWriter" where
  "writeAuthoritySection w m res =
     (if Questions m = [] \<or> \<not> HasAuthority res then (Inr 0, w)
      else
        (let authorityOwner = (if AuthorityName res = [] then q_Name (Questions m ! 0) else AuthorityName res) in
         case writeRRSet w authorityOwner (Authority res) of
           (Inl err, w) \<Rightarrow> (Inl err, w)
         | (Inr authorityCount, w) \<Rightarrow>
             if DO m \<and> HasAuthorityRRSIG res then
               (case writeRRSet w authorityOwner (AuthorityRRSIG res) of
                  (Inl err, w) \<Rightarrow> (Inl err, w)
                | (Inr rrsigCount, w) \<Rightarrow> (Inr (authorityCount + rrsigCount), w))
             else (Inr authorityCount, w)))"

fun write_questions :: "packetWriter \<Rightarrow> Question list \<Rightarrow> dns_error option \<times> packetWriter" where
  "write_questions w [] = (None, w)"
| "write_questions w (q # qs) =
     (case writeQuestion w q of
        (Some err, w) \<Rightarrow> (Some err, w)
      | (None, w) \<Rightarrow> write_questions w qs)"

definition response_flags :: "Message \<Rightarrow> Result \<Rightarrow> u16" where
  "response_flags m res =
     (let flags = (Flags (msg_Header m) AND 0x7900) OR 0x8400 OR ucast (RCode res AND 0x0F) in
      if RCode res = RCodeSuccess \<and> \<not> HasAnswer res \<and> HasAuthority res \<and> rr_Type (Authority res) = TypeNS
      then flags AND NOT 0x0400 else flags)"

definition writeAnswerSection :: "packetWriter \<Rightarrow> Message \<Rightarrow> Result \<Rightarrow> (dns_error + u16) \<times> packetWriter" where
  "writeAnswerSection w m res =
     (if RCode res = RCodeSuccess \<and> Questions m \<noteq> [] \<and> HasAnswer res then
        (case writeRRSet w (q_Name (Questions m ! 0)) (Answer res) of
           (Inl err, w) \<Rightarrow> (Inl err, w)
         | (Inr answerCount, w) \<Rightarrow>
             if DO m \<and> HasAnswerRRSIG res then
               (case writeRRSet w (q_Name (Questions m ! 0)) (AnswerRRSIG res) of
                  (Inl err, w) \<Rightarrow> (Inl err, w)
                | (Inr rrsigCount, w) \<Rightarrow> (Inr (answerCount + rrsigCount), w))
             else (Inr answerCount, w))
      else (Inr 0, w))"

text \<open>\<open>PackResponse\<close> writes into the caller's buffer and returns the number of bytes; the model
  returns the written buffer with it.\<close>

definition PackResponse :: "Message \<Rightarrow> bytes \<Rightarrow> Result \<Rightarrow> int \<Rightarrow> dns_error + (nat \<times> bytes)" where
  "PackResponse m buf res maxSize =
     (if length (Questions m) > unat maxQuestions then Inl ErrTooManyQuestions
      else
        res_bind (newPacketWriter buf maxSize) (\<lambda>w.
          (let w = writeHeader w (ID (msg_Header m)) (response_flags m res) (word_of_nat (length (Questions m))) in
           case write_questions w (Questions m) of
             (Some err, _) \<Rightarrow> Inl err
           | (None, w) \<Rightarrow>
               (case writeAnswerSection w m res of
                  (Inl err, _) \<Rightarrow> Inl err
                | (Inr answerCount, w) \<Rightarrow>
                    (case writeAuthoritySection w m res of
                       (Inl err, _) \<Rightarrow> Inl err
                     | (Inr authorityCount, w) \<Rightarrow>
                         (case (if RCode res = RCodeSuccess \<and> Questions m \<noteq> [] \<and> HasAdditional res
                                then writeRRSet w (q_Name (Questions m ! 0)) (Additional res) else (Inr 0, w)) of
                            (Inl err, _) \<Rightarrow> Inl err
                          | (Inr additionalCount, w) \<Rightarrow>
                              (let (n, w) = writeEDNS0 w m res;
                                   w = updateCounts w answerCount authorityCount (additionalCount + n)
                               in Inr (w_offset w, w_buf w @ drop (length (w_buf w)) buf))))))))"

section \<open>Payload limits and slip responses\<close>

definition MaxPayloadSize :: "int \<Rightarrow> int \<Rightarrow> int" where
  "MaxPayloadSize transportSize edns0Size =
     (if transportSize = MaxUDPSize \<and> edns0Size > MaxUDPSize then min edns0Size MaxEDNS0Size
      else transportSize)"

function slip_scan :: "bytes \<Rightarrow> nat \<Rightarrow> nat" where
  "slip_scan payload offset =
     (if offset < length payload then
        (let lenByte = unat (payload ! offset) in
         if lenByte = 0 then offset + 1
         else if lenByte \<ge> 0xC0 then offset + 2
         else slip_scan payload (offset + (1 + lenByte)))
      else offset)"
  by pat_completeness auto
termination
  by (relation "measure (\<lambda>(p, o1). length p - o1)") auto

declare slip_scan.simps [simp del]

definition TruncateToSlip :: "bytes \<Rightarrow> nat \<Rightarrow> nat \<times> bytes" where
  "TruncateToSlip buf written =
     (if length buf < headerSize \<or> written < headerSize \<or> written > length buf then (written, buf)
      else
        (let flags = get16 (sub_slice buf 2 4) OR 0x0200;
             buf = put16_at (put16_at (put16_at (put16_at buf 2 flags) 6 0) 8 0) 10 0;
             payload = take written buf;
             offset = slip_scan payload headerSize + 4
         in (if offset \<le> length payload then offset else headerSize, buf)))"

section \<open>Names survive what is written after them\<close>

lemma sub_slice_prefix: "b \<le> length p \<Longrightarrow> sub_slice (p @ q) a b = sub_slice p a b"
  by (cases "a \<le> b") (simp_all add: sub_slice_def)

lemma name_at_extend: "name_at p off ls j nx \<Longrightarrow> name_at (p @ q) off ls j nx"
proof (induction rule: name_at.induct)
  case (name_end off p)
  then show ?case using name_at.name_end [of off "p @ q"] by (simp add: nth_append)
next
  case (name_label off p ls j nx)
  then have n: "(p @ q) ! off = p ! off" by (simp add: nth_append)
  have "sub_slice (p @ q) (off + 1) (off + 1 + unat (p ! off)) = sub_slice p (off + 1) (off + 1 + unat (p ! off))"
    using name_label(4) by (rule sub_slice_prefix)
  with name_at.name_label [of off "p @ q" ls j nx] name_label n show ?case by simp
next
  case (name_pointer off p ls j nx)
  then have n: "(p @ q) ! off = p ! off" by (simp add: nth_append)
  have "pointer_target (p @ q) off = pointer_target p off"
    using name_pointer(1) by (simp add: pointer_target_def sub_slice_prefix)
  with name_at.name_pointer [of off "p @ q" ls j nx] name_pointer n show ?case by simp
qed

lemma name_at_take:
  assumes "name_at (take a p) off ls j nx" and "take a p' = take a p" and "a \<le> b"
  shows "name_at (take b p') off ls j nx"
proof -
  have "take b p' = take a p @ drop a (take b p')"
    using assms(2,3) by (metis append_take_drop_id min_absorb1 take_take)
  then show ?thesis using name_at_extend [OF assms(1)] by metis
qed

lemma and_low14:
  assumes "unat (v :: u16) \<le> 0x3FFF"
  shows "v AND 0x3FFF = v"
proof -
  have "take_bit 14 (unat v) = unat v" using assms by (intro take_bit_nat_eq_self) simp
  then have "take_bit 14 v = v" by (simp add: word_unat_eq_iff unsigned_take_bit_eq)
  then have "v AND mask 14 = v" by (simp add: take_bit_eq_mask)
  moreover have "mask 14 = (0x3FFF :: u16)" by (simp add: mask_eq_exp_minus_1)
  ultimately show ?thesis by simp
qed

lemma pointer_word:
  assumes "unat (v :: u16) \<le> 0x3FFF"
  shows "(0xC000 OR v) AND 0x3FFF = v"
    and "(ucast (drop_bit 8 (0xC000 OR v)) :: byte) AND 0xC0 = 0xC0"
proof -
  have "(0xC000 OR v) AND 0x3FFF = (0xC000 AND 0x3FFF) OR (v AND 0x3FFF)"
    by (rule bit.conj_disj_distrib2)
  also have "(0xC000 AND 0x3FFF :: u16) = 0" by simp
  finally show "(0xC000 OR v) AND 0x3FFF = v" using and_low14 [OF assms] by simp
  have "(ucast (drop_bit 8 (0xC000 OR v)) :: byte) = ucast (drop_bit 8 (0xC000 :: u16)) OR ucast (drop_bit 8 v)"
    by (rule bit_word_eqI) (auto simp: bit_simps)
  also have "ucast (drop_bit 8 (0xC000 :: u16)) = (0xC0 :: byte)" by simp
  finally show "(ucast (drop_bit 8 (0xC000 OR v)) :: byte) AND 0xC0 = 0xC0"
    by (simp add: bit.conj_disj_distrib2)
qed

section \<open>The frame of the writer\<close>

text \<open>Writing forward: the buffer keeps its length, the offset moves inside it, and the bytes
  before the old offset stay.\<close>

definition advances :: "packetWriter \<Rightarrow> packetWriter \<Rightarrow> bool" where
  "advances w w' \<longleftrightarrow>
     length (w_buf w') = length (w_buf w) \<and> w_offset w \<le> w_offset w' \<and> w_offset w' \<le> length (w_buf w) \<and>
     take (w_offset w) (w_buf w') = take (w_offset w) (w_buf w)"

lemma advances_refl: "w_offset w \<le> length (w_buf w) \<Longrightarrow> advances w w"
  by (simp add: advances_def)

lemma advances_trans: "advances a b \<Longrightarrow> advances b c \<Longrightarrow> advances a c"
  unfolding advances_def by (metis (no_types, lifting) le_trans min_absorb1 take_take)

text \<open>What a label writes, as a list: the buffer up to the old offset, then the label.\<close>

lemma write_label_bytes:
  assumes "off + 1 + length l \<le> length buf"
  shows "take (off + 1 + length l) (copy_at (buf[off := b]) (off + 1) l) = take off buf @ b # l"
proof -
  have "take (off + 1) (buf[off := b]) = take off buf @ [b]"
    using assms by (simp add: take_Suc_conv_app_nth take_update_swap list_update_append min_def)
  then show ?thesis
    using assms by (simp add: copy_at_fit)
qed

lemma intermediate_label:
  assumes "writeIntermediateLabel w full l c = Inr w'" and "l \<noteq> []"
  shows "length l \<le> MaxLabelLen" and "w_offset w' = w_offset w + 1 + length l"
    and "length (w_buf w') = length (w_buf w)" and "w_offset w' \<le> length (w_buf w)"
    and "take (w_offset w') (w_buf w') = take (w_offset w) (w_buf w) @ word_of_nat (length l) # bytes_of l"
    and "w_table w' = (if c then compressor_insert (w_table w) full (w_offset w) else w_table w)"
  using assms write_label_bytes [of "w_offset w" "bytes_of l" "w_buf w" "word_of_nat (length l)"]
  by (auto simp: writeIntermediateLabel_def Let_def split: if_splits)

lemma final_label:
  assumes "writeFinalLabel w l c = Inr w'" and "l \<noteq> []"
  shows "length l \<le> MaxLabelLen" and "w_offset w' = w_offset w + 2 + length l"
    and "length (w_buf w') = length (w_buf w)" and "w_offset w' \<le> length (w_buf w)"
    and "take (w_offset w') (w_buf w') = take (w_offset w) (w_buf w) @ word_of_nat (length l) # bytes_of l @ [0]"
    and "w_table w' = (if c then compressor_insert (w_table w) l (w_offset w) else w_table w)"
proof -
  let ?b = "copy_at ((w_buf w)[w_offset w := word_of_nat (length l)]) (w_offset w + 1) (bytes_of l)"
  have w': "w' = \<lparr>w_buf = ?b[w_offset w + 1 + length l := 0],
      w_table = (if c then compressor_insert (w_table w) l (w_offset w) else w_table w),
      w_offset = w_offset w + 1 + length l + 1\<rparr>"
    and fits: "w_offset w + 1 + length l + 1 \<le> length (w_buf w)" and "length l \<le> MaxLabelLen"
    using assms by (auto simp: writeFinalLabel_def Let_def split: if_splits)
  have len: "length ?b = length (w_buf w)" using fits by simp
  have "take (w_offset w + 1 + length l + 1) (?b[w_offset w + 1 + length l := 0]) =
      take (w_offset w + 1 + length l) ?b @ [0]"
    using fits len by (simp add: take_Suc_conv_app_nth take_update_swap list_update_append min_def del: length_copy_at)
  with write_label_bytes [of "w_offset w" "bytes_of l" "w_buf w" "word_of_nat (length l)"] fits w' len
  show "take (w_offset w') (w_buf w') = take (w_offset w) (w_buf w) @ word_of_nat (length l) # bytes_of l @ [0]"
    by simp
  show "length l \<le> MaxLabelLen" "w_offset w' = w_offset w + 2 + length l"
    "length (w_buf w') = length (w_buf w)" "w_offset w' \<le> length (w_buf w)"
    "w_table w' = (if c then compressor_insert (w_table w) l (w_offset w) else w_table w)"
    using w' fits len \<open>length l \<le> MaxLabelLen\<close> by simp_all
qed

lemma advancesI:
  assumes "length (w_buf w') = length (w_buf w)" "w_offset w' \<le> length (w_buf w)"
    and "take (w_offset w') (w_buf w') = take (w_offset w) (w_buf w) @ xs" "w_offset w \<le> length (w_buf w)"
    and "w_offset w \<le> w_offset w'"
  shows "advances w w'"
proof -
  have "take (w_offset w) (w_buf w') = take (w_offset w) (take (w_offset w') (w_buf w'))"
    using assms(5) by (simp add: min_absorb1)
  also have "\<dots> = take (w_offset w) (w_buf w)" unfolding assms(3) using assms(4) by simp
  finally show ?thesis using assms by (simp add: advances_def)
qed

lemma intermediate_advances:
  "writeIntermediateLabel w full l c = Inr w' \<Longrightarrow> w_offset w \<le> length (w_buf w) \<Longrightarrow> advances w w'"
proof (cases "l = []")
  case True
  assume "writeIntermediateLabel w full l c = Inr w'" "w_offset w \<le> length (w_buf w)"
  then show ?thesis using True by (simp add: writeIntermediateLabel_def advances_refl)
next
  case False
  assume w: "writeIntermediateLabel w full l c = Inr w'" "w_offset w \<le> length (w_buf w)"
  show ?thesis
    using intermediate_label [OF w(1) False] w(2) by (intro advancesI) auto
qed

lemma final_advances:
  "writeFinalLabel w l c = Inr w' \<Longrightarrow> w_offset w \<le> length (w_buf w) \<Longrightarrow> advances w w'"
proof (cases "l = []")
  case True
  assume "writeFinalLabel w l c = Inr w'" "w_offset w \<le> length (w_buf w)"
  then show ?thesis using True by (simp add: writeFinalLabel_def advances_refl)
next
  case False
  assume w: "writeFinalLabel w l c = Inr w'" "w_offset w \<le> length (w_buf w)"
  show ?thesis
    using final_label [OF w(1) False] w(2) by (intro advancesI) auto
qed

lemma zero_advances: "write_zero w = Inr w' \<Longrightarrow> advances w w'"
  by (auto simp: write_zero_def advances_def split: if_splits)

lemma write_suffix_advances:
  "w_offset w \<le> length (w_buf w) \<Longrightarrow> advances w (snd (write_suffix w s c))"
proof (induction w s c rule: write_suffix.induct)
  case (1 w s c)
  note unf = write_suffix.simps [of w s c]
  show ?case
  proof (cases "if c then compressor_lookup (w_table w) s else None")
    case (Some p)
    then show ?thesis using 1(2)
      by (auto simp: unf advances_def take_put16_at)
  next
    case None
    show ?thesis
    proof (cases "IndexByte s CHR ''.''")
      case dot: None
      show ?thesis
        using None dot final_advances [of w s c] advances_refl [OF 1(2)] 1(2)
        by (simp add: unf split: sum.split)
    next
      case dot: (Some i)
      show ?thesis
      proof (cases "writeIntermediateLabel w s (take i s) c")
        case (Inl err)
        then show ?thesis using None dot advances_refl [OF 1(2)] by (simp add: unf)
      next
        case (Inr w')
        have a: "advances w w'" using intermediate_advances [OF Inr 1(2)] .
        then have "w_offset w' \<le> length (w_buf w')" by (simp add: advances_def)
        then have "advances w' (snd (write_suffix w' (drop (i + 1) s) c))" if "drop (i + 1) s \<noteq> []"
          using 1(1) [OF None dot Inr refl that] by blast
        moreover have "advances w' (snd (case write_zero w' of Inl err \<Rightarrow> (Some err, w') | Inr w'' \<Rightarrow> (None, w'')))"
          using zero_advances [of w'] advances_refl [OF \<open>w_offset w' \<le> length (w_buf w')\<close>] by (simp split: sum.split)
        ultimately show ?thesis
          using None dot Inr advances_trans [OF a] by (simp add: unf Let_def)
      qed
    qed
  qed
qed

lemma writeDomain_advances:
  "w_offset w \<le> length (w_buf w) \<Longrightarrow> advances w (snd (writeDomainCompressed w name c))"
  using write_suffix_advances zero_advances [of w]
  by (simp add: writeDomainCompressed_def advances_refl split: sum.split)

section \<open>Compression is correct\<close>

text \<open>Names the server handles: dot-separated labels, none empty, each at most 63 bytes.\<close>

definition plain :: "string \<Rightarrow> bool" where
  "plain s \<longleftrightarrow> (\<forall>l \<in> set (split_on CHR ''.'' s). l \<noteq> [] \<and> length l \<le> MaxLabelLen)"

text \<open>The wire labels \<open>ls\<close> are the labels of \<open>s\<close> up to case.\<close>

definition spells :: "bytes list \<Rightarrow> string \<Rightarrow> bool" where
  "spells ls s \<longleftrightarrow> map (lower_ascii \<circ> string_of) ls = map lower_ascii (split_on CHR ''.'' s)"

definition entry_ok :: "nat \<Rightarrow> packetWriter \<Rightarrow> string \<Rightarrow> u16 \<Rightarrow> bool" where
  "entry_ok J w nm o1 \<longleftrightarrow> unat o1 \<le> 0x3FFF \<and> unat o1 < w_offset w \<and>
     (\<exists>ls j nx. name_at (take (w_offset w) (w_buf w)) (unat o1) ls j nx \<and> j \<le> J \<and> spells ls nm)"

definition table_ok :: "nat \<Rightarrow> packetWriter \<Rightarrow> bool" where
  "table_ok J w \<longleftrightarrow> (\<forall>(nm, o1) \<in> set (w_table w). entry_ok J w nm o1)"

lemma equalFold_lower: "equalFoldASCII a b \<longleftrightarrow> lower_ascii a = lower_ascii b"
  by (auto simp: equalFoldASCII_def lower_ascii_def list_all2_conv_all_nth list_eq_iff_nth_eq)

lemma spells_fold: "spells ls a \<Longrightarrow> equalFoldASCII a b \<Longrightarrow> spells ls b"
  by (simp add: spells_def equalFold_lower flip: split_on_lower)

lemma table_find_Some: "table_find c s = Some o1 \<Longrightarrow> \<exists>nm. (nm, o1) \<in> set c \<and> equalFoldASCII nm s"
  by (induction c s rule: table_find.induct) (auto split: if_splits)

lemma entry_ok_advances: "entry_ok J w nm o1 \<Longrightarrow> advances w w' \<Longrightarrow> entry_ok J w' nm o1"
  unfolding entry_ok_def advances_def
  by (meson less_le_trans name_at_take)

lemma entry_ok_Suc: "entry_ok J w nm o1 \<Longrightarrow> entry_ok (Suc J) w nm o1"
  unfolding entry_ok_def by (meson le_SucI)

lemma insert_table:
  "(nm, o1) \<in> set (compressor_insert c s off) \<Longrightarrow>
   (nm, o1) \<in> set c \<or> (nm = s \<and> o1 = word_of_nat off \<and> off \<le> 0x3FFF)"
  by (auto simp: compressor_insert_def split: if_splits)

lemma name_at_label_bytes:
  assumes "l \<noteq> []" "length l \<le> MaxLabelLen"
    and "name_at (pre @ word_of_nat (length l) # bytes_of l @ post) (length pre + 1 + length l) ls j nx"
  shows "name_at (pre @ word_of_nat (length l) # bytes_of l @ post) (length pre) (bytes_of l # ls) j nx"
proof -
  let ?p = "pre @ word_of_nat (length l) # bytes_of l @ post"
  note e = encode_label_good [OF assms(1,2)]
  have "?p ! length pre = word_of_nat (length l)" by simp
  moreover have "sub_slice ?p (length pre + 1) (length pre + 1 + length l) = bytes_of l"
    by (simp add: sub_slice_def)
  ultimately show ?thesis
    using name_label [of "length pre" ?p ls j nx] assms e by simp
qed

text \<open>A suffix that is written leads to its labels, and so does every table entry it adds.\<close>

definition wrote :: "nat \<Rightarrow> packetWriter \<Rightarrow> string \<Rightarrow> packetWriter \<Rightarrow> bool" where
  "wrote J w s w' \<longleftrightarrow>
     (\<exists>ls j. name_at (take (w_offset w') (w_buf w')) (w_offset w) ls j (w_offset w') \<and> j \<le> Suc J \<and> spells ls s) \<and>
     (\<forall>(nm, o1) \<in> set (w_table w') - set (w_table w). entry_ok (Suc J) w' nm o1)"

lemma wrote_pointer:
  assumes "w_offset w + 2 \<le> length (w_buf w)" and "entry_ok J w nm o1" and "equalFoldASCII nm s"
  shows "wrote J w s (w\<lparr>w_buf := put16_at (w_buf w) (w_offset w) (0xC000 OR o1), w_offset := w_offset w + 2\<rparr>)"
proof -
  let ?pre = "take (w_offset w) (w_buf w)" and ?v = "0xC000 OR o1"
  obtain ls j nx where n: "name_at ?pre (unat o1) ls j nx" "spells ls nm" and j: "j \<le> J" and o1: "unat o1 \<le> 0x3FFF" "unat o1 < w_offset w"
    using assms(2) by (auto simp: entry_ok_def)
  have len: "length ?pre = w_offset w" using assms(1) by simp
  have buf: "take (w_offset w + 2) (put16_at (w_buf w) (w_offset w) ?v) = ?pre @ put16 ?v"
    using assms(1) by (simp add: put16_at_def copy_at_fit)
  let ?p = "?pre @ put16 ?v"
  have "?p ! w_offset w = ucast (drop_bit 8 ?v)" using len by (simp add: nth_append put16_def)
  then have "?p ! w_offset w AND 0xC0 = 0xC0" using pointer_word(2) [OF o1(1)] by simp
  moreover have "sub_slice ?p (w_offset w) (w_offset w + 2) = put16 ?v" using len by (simp add: sub_slice_def)
  then have "pointer_target ?p (w_offset w) = unat o1"
    using pointer_word(1) [OF o1(1)] by (simp add: pointer_target_def)
  ultimately have "name_at ?p (w_offset w) ls (Suc j) (w_offset w + 2)"
    using name_pointer [of "w_offset w" ?p ls j nx] name_at_extend [OF n(1), of "put16 ?v"] o1(2) len by simp
  moreover have "spells ls s" using n(2) assms(3) by (rule spells_fold)
  ultimately show ?thesis using buf j unfolding wrote_def
    by (intro conjI exI [of _ ls] exI [of _ "Suc j"]) simp_all
qed

lemma new_entry_ok:
  assumes "name_at (take (w_offset w') (w_buf w')) off ls j nx" and "j \<le> Suc J" and "spells ls s" and "off \<le> 0x3FFF" and "off < w_offset w'"
  shows "entry_ok (Suc J) w' s (word_of_nat off)"
proof -
  have "unat (word_of_nat off :: u16) = off" using assms(4) by (simp add: unat_of_nat)
  with assms show ?thesis unfolding entry_ok_def by metis
qed

lemma wrote_final:
  assumes "writeFinalLabel w s True = Inr w'" and "plain s" and "IndexByte s CHR ''.'' = None"
    and "w_offset w \<le> length (w_buf w)"
  shows "wrote J w s w'"
proof -
  have sp: "split_on CHR ''.'' s = [s]"
    using assms(3) by (simp add: IndexByte_None split_on_no_sep)
  then have s: "s \<noteq> []" using assms(2) by (simp add: plain_def)
  note f = final_label [OF assms(1) s]
  let ?pre = "take (w_offset w) (w_buf w)"
  have len: "length ?pre = w_offset w" using assms(4) by simp
  have "name_at (pre @ b # bs @ [0]) (length pre + 1 + length bs) [] 0 (length pre + 1 + length bs + 1)" for pre bs b
    by (rule name_end) (simp_all add: nth_append)
  from this [of ?pre _ "bytes_of s"]
  have "name_at (?pre @ word_of_nat (length s) # bytes_of s @ [0]) (length ?pre + 1 + length s) [] 0 (length ?pre + 1 + length s + 1)"
    by simp
  from name_at_label_bytes [OF s f(1) this] len f(2,5)
  have n: "name_at (take (w_offset w') (w_buf w')) (w_offset w) [bytes_of s] 0 (w_offset w')" by simp
  have "spells [bytes_of s] s" by (simp add: spells_def sp)
  with n show ?thesis
    using insert_table [of _ _ "w_table w" s "w_offset w"] new_entry_ok [OF n, of J] f(2,6)
    unfolding wrote_def by fastforce
qed

lemma write_suffix_correct:
  "w_offset w \<le> length (w_buf w) \<Longrightarrow> plain s \<Longrightarrow>
   (\<forall>(nm, o1) \<in> set (w_table w). length nm \<le> length s \<longrightarrow> entry_ok J w nm o1) \<Longrightarrow>
   write_suffix w s True = (None, w') \<Longrightarrow> wrote J w s w'"
proof (induction w s True rule: write_suffix.induct)
  case (1 w s)
  note unf = write_suffix.simps [of w s True]
  have ne: "s \<noteq> [] \<and> s \<noteq> ''.''" using 1(3) by (auto simp: plain_def)
  show ?case
  proof (cases "compressor_lookup (w_table w) s")
    case (Some p)
    then obtain nm where nm: "(nm, p) \<in> set (w_table w)" "equalFoldASCII nm s"
      using table_find_Some by (auto simp: compressor_lookup_def split: if_splits)
    then have "length nm = length s" by (simp add: equalFoldASCII_def)
    with nm 1(4) have "entry_ok J w nm p" by auto
    with Some 1(5) nm(2) show ?thesis
      using wrote_pointer [of w J nm p s] by (auto simp: unf split: if_splits)
  next
    case None
    show ?thesis
    proof (cases "IndexByte s CHR ''.''")
      case dot: None
      with None 1 show ?thesis by (auto simp: unf intro: wrote_final split: sum.splits)
    next
      case dot: (Some i)
      define l s' where "l = take i s" and "s' = drop (i + 1) s"
      have s: "s = l @ CHR ''.'' # s'" and nd: "CHR ''.'' \<notin> set l"
        using IndexByte_Some [OF dot] id_take_nth_drop [of i s] by (auto simp: l_def s'_def)
      have sp: "split_on CHR ''.'' s = l # split_on CHR ''.'' s'" using nd by (simp add: s split_on_append_sep split_on_no_sep)
      then have l: "l \<noteq> []" "plain s'" "s' \<noteq> []" using 1(3) by (auto simp: plain_def)
      obtain w1 where w1: "writeIntermediateLabel w s l True = Inr w1" "write_suffix w1 s' True = (None, w')"
        using 1(5) None dot l(3) by (auto simp: unf l_def s'_def Let_def split: sum.splits)
      note f = intermediate_label [OF w1(1) l(1)]
      have a1: "advances w w1" using intermediate_advances [OF w1(1) 1(2)] .
      have a2: "advances w1 w'" using write_suffix_advances [of w1 s' True] w1(2) a1 by (simp add: advances_def)
      have "\<forall>(nm, o1) \<in> set (w_table w1). length nm \<le> length s' \<longrightarrow> entry_ok J w1 nm o1"
        using insert_table [of _ _ "w_table w" s "w_offset w"] f(6) 1(4) entry_ok_advances [OF _ a1]
        by (fastforce simp: s)
      with 1(1) [of i w1 s'] None dot w1 l a1 have ih: "wrote J w1 s' w'"
        by (simp add: l_def s'_def advances_def)
      then obtain ls j where n: "name_at (take (w_offset w') (w_buf w')) (w_offset w1) ls j (w_offset w')" "spells ls s'" "j \<le> Suc J"
        by (auto simp: wrote_def)
      let ?pre = "take (w_offset w) (w_buf w)"
      have len: "length ?pre = w_offset w" using 1(2) by simp
      have "take (w_offset w1) (w_buf w') = ?pre @ word_of_nat (length l) # bytes_of l"
        using a2 f(5) by (simp add: advances_def)
      then obtain post where post: "take (w_offset w') (w_buf w') = ?pre @ word_of_nat (length l) # bytes_of l @ post"
        using a2 by (metis (no_types, lifting) advances_def append_Cons append_assoc append_take_drop_id min_absorb1 take_take)
      have n1: "name_at (take (w_offset w') (w_buf w')) (w_offset w) (bytes_of l # ls) j (w_offset w')"
        using name_at_label_bytes [OF l(1) f(1), of ?pre post ls j "w_offset w'"] n(1) post f(2) len by simp
      have sp1: "spells (bytes_of l # ls) s" using n(2) by (simp add: spells_def sp)
      have "entry_ok (Suc J) w' nm o1" if "(nm, o1) \<in> set (w_table w') - set (w_table w)" for nm o1
        using that insert_table [of nm o1 "w_table w" s "w_offset w"] f(2,6) ih new_entry_ok [OF n1 n(3) sp1] a2
        by (fastforce simp: wrote_def advances_def)
      with n1 n(3) sp1 show ?thesis unfolding wrote_def by blast
    qed
  qed
qed

text \<open>The invariant of the table through a whole name.\<close>

lemma writeDomain_correct:
  assumes "table_ok J w" and "w_offset w \<le> length (w_buf w)" and "plain name" and "writeDomain w name = (None, w')"
  shows "table_ok (Suc J) w' \<and> advances w w' \<and>
    (\<exists>ls j. name_at (take (w_offset w') (w_buf w')) (w_offset w) ls j (w_offset w') \<and> j \<le> Suc J \<and> spells ls name)"
proof -
  have "name \<noteq> [] \<and> name \<noteq> ''.''" using assms(3) by (auto simp: plain_def)
  then have ws: "write_suffix w name True = (None, w')"
    using assms(4) by (auto simp: writeDomain_def writeDomainCompressed_def split: if_splits)
  have a: "advances w w'" using write_suffix_advances [OF assms(2), of name True] ws by simp
  have "wrote J w name w'"
    using assms(1) by (intro write_suffix_correct [OF assms(2,3) _ ws]) (auto simp: table_ok_def)
  then show ?thesis
    using a assms(1) entry_ok_Suc [OF entry_ok_advances [OF _ a]] unfolding wrote_def table_ok_def by fast
qed

section \<open>Sections of a response\<close>

text \<open>From the header on, every step keeps what is before its offset except for the truncation
  bit, which it may set.\<close>

definition flags_of :: "bytes \<Rightarrow> u16" where
  "flags_of buf = get16 (sub_slice buf 2 4)"

definition keeps :: "packetWriter \<Rightarrow> packetWriter \<Rightarrow> bool" where
  "keeps w w' \<longleftrightarrow>
     headerSize \<le> w_offset w \<and> length (w_buf w') = length (w_buf w) \<and>
     w_offset w \<le> w_offset w' \<and> w_offset w' \<le> length (w_buf w) \<and>
     take 2 (w_buf w') = take 2 (w_buf w) \<and>
     sub_slice (w_buf w') 4 (w_offset w) = sub_slice (w_buf w) 4 (w_offset w) \<and>
     (flags_of (w_buf w') = flags_of (w_buf w) \<or> flags_of (w_buf w') = flags_of (w_buf w) OR 0x0200)"

lemma sub_slice_cong_take: "take n xs = take n ys \<Longrightarrow> b \<le> n \<Longrightarrow> sub_slice xs a b = sub_slice ys a b"
  by (metis sub_slice_take)

lemma sub_slice_mono: "sub_slice xs a n = sub_slice ys a n \<Longrightarrow> b \<le> n \<Longrightarrow> sub_slice xs a b = sub_slice ys a b"
  by (metis (no_types, lifting) diff_le_mono min_absorb1 sub_slice_def take_take)

lemma take_cong_le: "take n xs = take n ys \<Longrightarrow> m \<le> n \<Longrightarrow> take m xs = take m ys"
  by (metis min_absorb1 take_take)

lemma advances_keeps:
  assumes "advances w w'" and "headerSize \<le> w_offset w"
  shows "keeps w w'"
proof -
  have t: "take (w_offset w) (w_buf w') = take (w_offset w) (w_buf w)" using assms(1) by (simp add: advances_def)
  have "take 2 (w_buf w') = take 2 (w_buf w)" using take_cong_le [OF t, of 2] assms(2) by simp
  moreover have "sub_slice (w_buf w') a b = sub_slice (w_buf w) a b" if "b \<le> w_offset w" for a b
    using sub_slice_cong_take [OF t that] .
  ultimately show ?thesis using assms by (simp add: keeps_def advances_def flags_of_def)
qed

lemma keeps_refl: "headerSize \<le> w_offset w \<Longrightarrow> w_offset w \<le> length (w_buf w) \<Longrightarrow> keeps w w"
  by (simp add: keeps_def)

lemma or_twice: "(x OR y) OR y = (x OR y :: u16)"
  by (rule bit_word_eqI) (auto simp: bit_simps)

lemma keepsD:
  assumes "keeps w w'"
  shows "headerSize \<le> w_offset w" "length (w_buf w') = length (w_buf w)" "w_offset w \<le> w_offset w'"
    "w_offset w' \<le> length (w_buf w)" "take 2 (w_buf w') = take 2 (w_buf w)"
    "sub_slice (w_buf w') 4 (w_offset w) = sub_slice (w_buf w) 4 (w_offset w)"
    "flags_of (w_buf w') = flags_of (w_buf w) \<or> flags_of (w_buf w') = flags_of (w_buf w) OR 0x0200"
  using assms unfolding keeps_def by blast+

lemma keepsI:
  assumes "headerSize \<le> w_offset w" "length (w_buf w') = length (w_buf w)" "w_offset w \<le> w_offset w'"
    "w_offset w' \<le> length (w_buf w)" "take 2 (w_buf w') = take 2 (w_buf w)"
    "sub_slice (w_buf w') 4 (w_offset w) = sub_slice (w_buf w) 4 (w_offset w)"
    "flags_of (w_buf w') = flags_of (w_buf w) \<or> flags_of (w_buf w') = flags_of (w_buf w) OR 0x0200"
  shows "keeps w w'"
  using assms unfolding keeps_def by blast

lemma keeps_trans:
  assumes ab: "keeps a b" and bc: "keeps b c"
  shows "keeps a c"
proof (rule keepsI)
  show "headerSize \<le> w_offset a" by (rule keepsD [OF ab])
  show "length (w_buf c) = length (w_buf a)" using keepsD(2) [OF ab] keepsD(2) [OF bc] by (rule trans [rotated])
  show "w_offset a \<le> w_offset c" using keepsD(3) [OF ab] keepsD(3) [OF bc] by (rule le_trans)
  show "w_offset c \<le> length (w_buf a)" using keepsD(4) [OF bc] keepsD(2) [OF ab] by metis
  show "take 2 (w_buf c) = take 2 (w_buf a)" using keepsD(5) [OF ab] keepsD(5) [OF bc] by (rule trans [rotated])
  show "sub_slice (w_buf c) 4 (w_offset a) = sub_slice (w_buf a) 4 (w_offset a)"
    using sub_slice_mono [OF keepsD(6) [OF bc] keepsD(3) [OF ab]] keepsD(6) [OF ab] by (rule trans)
  show "flags_of (w_buf c) = flags_of (w_buf a) \<or> flags_of (w_buf c) = flags_of (w_buf a) OR 0x0200"
    using keepsD(7) [OF ab] keepsD(7) [OF bc] by (elim disjE) (simp_all add: or_twice)
qed

lemma truncated_keeps:
  assumes k: "keeps w w'"
  shows "keeps w (setTruncatedFlag (w'\<lparr>w_offset := w_offset w\<rparr>))"
proof -
  define v where "v = flags_of (w_buf w') OR 0x0200"
  define buf where "buf = put16_at (w_buf w') 2 v"
  have len: "4 \<le> length (w_buf w')" using keepsD(1-4) [OF k] by linarith
  then have b: "buf = take 2 (w_buf w') @ put16 v @ drop 4 (w_buf w')"
    by (simp add: buf_def put16_at_def copy_at_fit)
  have eq: "setTruncatedFlag (w'\<lparr>w_offset := w_offset w\<rparr>) = w'\<lparr>w_offset := w_offset w, w_buf := buf\<rparr>"
    by (simp add: setTruncatedFlag_def flags_of_def buf_def v_def)
  have "take 2 buf = take 2 (w_buf w')" "sub_slice buf 4 n = sub_slice (w_buf w') 4 n" "sub_slice buf 2 4 = put16 v"
    "length buf = length (w_buf w')" for n
    using len by (simp_all add: b sub_slice_def)
  moreover from this have "flags_of buf = v" by (simp add: flags_of_def)
  moreover have "v = flags_of (w_buf w) OR 0x0200"
    using keepsD(7) [OF k] unfolding v_def by (elim disjE) (simp_all add: or_twice)
  ultimately show ?thesis
    unfolding eq using keepsD [OF k] by (intro keepsI) simp_all
qed

lemma put_record_advances:
  assumes "w_offset w + 10 + length rd \<le> length (w_buf w)"
  shows "advances w (put_record w rr rd)"
  using assms by (simp add: put_record_def advances_def Let_def take_put16_at take_put32_at take_copy_at)

lemma write_records_keeps:
  "headerSize \<le> w_offset w \<Longrightarrow> w_offset w \<le> length (w_buf w) \<Longrightarrow>
   keeps w (snd (write_records w name rr rds count))"
proof (induction w name rr rds count rule: write_records.induct)
  case (1 w name rr count)
  then show ?case by (simp add: keeps_refl)
next
  case (2 w name rr rd rest count)
  obtain r w1 where d: "writeDomain w name = (r, w1)" by (cases "writeDomain w name")
  have k1: "keeps w w1"
    using advances_keeps [OF _ 2(2)] writeDomain_advances [OF 2(3), of name True] d by (simp add: writeDomain_def)
  show ?case
  proof (cases r)
    case (Some err)
    then show ?thesis using k1 truncated_keeps [OF k1] by (simp add: d Let_def)
  next
    case None
    show ?thesis
    proof (cases "length (w_buf w1) - w_offset w1 < 10 + length rd")
      case True
      then show ?thesis using None truncated_keeps [OF k1] by (simp add: d Let_def)
    next
      case False
      let ?w2 = "put_record w1 rr rd"
      have a: "advances w1 ?w2" using False k1 by (intro put_record_advances) (auto simp: keeps_def)
      have k2: "keeps w ?w2" using keeps_trans [OF k1 advances_keeps [OF a]] k1 2(2) by (simp add: keeps_def)
      then have "keeps ?w2 (snd (write_records ?w2 name rr rest (count + 1)))" if "count + 1 \<noteq> 0xFFFF"
        using 2(1) [OF refl d [symmetric] None False refl refl that] 2(2) by (simp add: keeps_def)
      with k2 keeps_trans None False show ?thesis by (auto simp: d Let_def)
    qed
  qed
qed

lemma writeRRSet_keeps:
  "headerSize \<le> w_offset w \<Longrightarrow> w_offset w \<le> length (w_buf w) \<Longrightarrow> writeRRSet w name rr = (r, w') \<Longrightarrow> keeps w w'"
  using write_records_keeps [of w name rr "RData rr" 0] by (simp add: writeRRSet_def)

section \<open>Questions read back\<close>

lemma lower_join: "lower_ascii (join_with CHR ''.'' xs) = join_with CHR ''.'' (map lower_ascii xs)"
  by (induction "CHR ''.''" xs rule: join_with.induct) (simp_all add: lower_ascii_def)

lemma spells_name: "spells ls s \<Longrightarrow> lower_ascii (join_with CHR ''.'' (map string_of ls)) = lower_ascii s"
proof -
  assume "spells ls s"
  then have "lower_ascii (join_with CHR ''.'' (map string_of ls)) = join_with CHR ''.'' (map lower_ascii (split_on CHR ''.'' s))"
    by (simp add: spells_def lower_join comp_def)
  also have "\<dots> = lower_ascii (join_with CHR ''.'' (split_on CHR ''.'' s))" by (simp only: lower_join)
  finally show ?thesis by simp
qed

lemma spells_length:
  assumes "spells ls s"
  shows "wire_length ls = length s + 1"
proof -
  have eq: "map length ls = map length (map bytes_of (split_on CHR ''.'' s))"
    using arg_cong [OF assms [unfolded spells_def], of "map length"] by (simp add: comp_def)
  have "wire_length xs = sum_list (map Suc (map length xs))" for xs
    by (simp add: wire_length_def comp_def)
  then have "wire_length ls = wire_length (map bytes_of (split_on CHR ''.'' s))" by (simp only: eq)
  also have "\<dots> = length s + 1" using wire_length_join [of "split_on CHR ''.'' s" "CHR ''.''"] by simp
  finally show ?thesis .
qed

text \<open>A name written by the server and found again by the reader, in any longer message.\<close>

lemma spelled_unpack:
  assumes "name_at p off ls j nx" and "j \<le> maxJumps" and "spells ls s" and "length s \<le> 254"
  shows "\<exists>nm. UnpackDomainName (p @ q) off = Inr (nm, nx) \<and> lower_ascii nm = lower_ascii s"
proof -
  have "reads (p @ q) 0 [] off False off (join_with CHR ''.'' (map string_of ls)) nx"
    unfolding reads_def using assms spells_length [OF assms(3)] name_at_extend [OF assms(1)]
    by (intro exI [of _ ls] exI [of _ j] exI [of _ nx]) simp
  then have "UnpackDomainName (p @ q) off = Inr (join_with CHR ''.'' (map string_of ls), nx)"
    using decode_loop_iff [OF buffered_new, of False off off] by (simp add: UnpackDomainName_def new_decompressor_def)
  with spells_name [OF assms(3)] show ?thesis by blast
qed

definition same_question :: "Question \<Rightarrow> Question \<Rightarrow> bool" where
  "same_question q q' \<longleftrightarrow> lower_ascii (q_Name q') = lower_ascii (q_Name q) \<and>
     q_Type q' = q_Type q \<and> q_Class q' = q_Class q"

definition sendable :: "Question \<Rightarrow> bool" where
  "sendable q \<longleftrightarrow> plain (q_Name q) \<and> length (q_Name q) \<le> 254 \<and> q_Type q \<noteq> TypeOPT"

lemma writeQuestion_reads:
  assumes "table_ok J w" "w_offset w \<le> length (w_buf w)" "sendable q" "Suc J \<le> maxJumps"
    and "writeQuestion w q = (None, w')"
  shows "table_ok (Suc J) w' \<and> advances w w' \<and>
    (\<forall>rest. \<exists>q'. decodeQuestion \<lparr>r_payload = take (w_offset w') (w_buf w') @ rest, r_offset = w_offset w\<rparr> =
       Inr (q', \<lparr>r_payload = take (w_offset w') (w_buf w') @ rest, r_offset = w_offset w'\<rparr>) \<and> same_question q q')"
proof -
  obtain w1 where w1: "writeDomain w (q_Name q) = (None, w1)" and fit: "w_offset w1 + 4 \<le> length (w_buf w1)"
    and w': "w' = w1\<lparr>w_buf := put16_at (put16_at (w_buf w1) (w_offset w1) (q_Type q)) (w_offset w1 + 2) (q_Class q),
      w_offset := w_offset w1 + 4\<rparr>"
    using assms(5) writeDomain_advances [OF assms(2), of "q_Name q" True]
    by (auto simp: writeQuestion_def writeDomain_def advances_def split: option.splits prod.splits if_splits)
  note c = writeDomain_correct [OF assms(1,2) _ w1]
  then obtain ls j where t: "table_ok (Suc J) w1" and a: "advances w w1"
    and n: "name_at (take (w_offset w1) (w_buf w1)) (w_offset w) ls j (w_offset w1)" "j \<le> Suc J" "spells ls (q_Name q)"
    using assms(3) by (auto simp: sendable_def)
  let ?pre = "take (w_offset w1) (w_buf w1)"
  have b: "take (w_offset w') (w_buf w') = ?pre @ put16 (q_Type q) @ put16 (q_Class q)"
    using fit by (simp add: w' put16_at_def copy_at_fit)
  have a': "advances w1 w'" using fit by (simp add: w' advances_def take_put16_at)
  have "table_ok (Suc J) w'"
    using t entry_ok_advances [OF _ a'] by (auto simp: table_ok_def w')
  moreover have "\<exists>q'. decodeQuestion \<lparr>r_payload = take (w_offset w') (w_buf w') @ rest, r_offset = w_offset w\<rparr> =
       Inr (q', \<lparr>r_payload = take (w_offset w') (w_buf w') @ rest, r_offset = w_offset w'\<rparr>) \<and> same_question q q'" for rest
  proof -
    obtain nm where nm: "UnpackDomainName (?pre @ put16 (q_Type q) @ put16 (q_Class q) @ rest) (w_offset w) = Inr (nm, w_offset w1)"
      "lower_ascii nm = lower_ascii (q_Name q)"
      using spelled_unpack [OF n(1) le_trans [OF n(2) assms(4)] n(3)] assms(3) by (auto simp: sendable_def)
    define pre where "pre = ?pre"
    have len: "length pre = w_offset w1" using fit by (simp add: pre_def)
    let ?p = "pre @ put16 (q_Type q) @ put16 (q_Class q) @ rest"
    have "sub_slice ?p (length pre) (length pre + 2) = put16 (q_Type q)"
      "sub_slice ?p (length pre + 2) (length pre + 2 + 2) = put16 (q_Class q)"
      by (simp_all add: sub_slice_def)
    with nm(1) len assms(3)
    have "decodeQuestion \<lparr>r_payload = ?p, r_offset = w_offset w\<rparr> =
        Inr (\<lparr>q_Name = nm, q_Type = q_Type q, q_Class = q_Class q\<rparr>, \<lparr>r_payload = ?p, r_offset = w_offset w1 + 4\<rparr>)"
      by (simp add: decodeQuestion_def decodeDomainName_def pre_def [symmetric] field16_def sendable_def Let_def)
    with nm(2) show ?thesis
      unfolding b by (simp add: pre_def [symmetric] same_question_def w')
  qed
  ultimately show ?thesis using advances_trans [OF a a'] by blast
qed

lemma write_questions_advances:
  "w_offset w \<le> length (w_buf w) \<Longrightarrow> write_questions w qs = (r, w') \<Longrightarrow> advances w w'"
proof (induction qs arbitrary: w)
  case Nil
  then show ?case by (simp add: advances_refl)
next
  case (Cons q qs)
  obtain r1 w1 where q: "writeQuestion w q = (r1, w1)" by (cases "writeQuestion w q")
  obtain r0 w0 where d: "writeDomain w (q_Name q) = (r0, w0)" by (cases "writeDomain w (q_Name q)")
  have a0: "advances w w0" using writeDomain_advances [OF Cons.prems(1), of "q_Name q" True] d by (simp add: writeDomain_def)
  have "advances w0 w1"
    using q d a0 by (auto simp: writeQuestion_def advances_def take_put16_at split: option.splits if_splits)
  then have a1: "advances w w1" using advances_trans [OF a0] by blast
  show ?case
  proof (cases r1)
    case None
    have "w_offset w1 \<le> length (w_buf w1)" using a1 by (simp add: advances_def)
    from Cons.IH [OF this] Cons.prems(2) q None have "advances w1 w'" by simp
    with a1 advances_trans show ?thesis by blast
  next
    case (Some e)
    with Cons.prems q a1 show ?thesis by simp
  qed
qed

lemma write_questions_read:
  "table_ok J w \<Longrightarrow> w_offset w \<le> length (w_buf w) \<Longrightarrow> list_all sendable qs \<Longrightarrow>
   J + length qs \<le> maxJumps \<Longrightarrow> write_questions w qs = (None, w') \<Longrightarrow>
   \<exists>qs'. unpack_questions (length qs) \<lparr>r_payload = take (w_offset w') (w_buf w') @ rest, r_offset = w_offset w\<rparr> acc =
     (Inr \<lparr>r_payload = take (w_offset w') (w_buf w') @ rest, r_offset = w_offset w'\<rparr>, acc @ qs') \<and>
     list_all2 same_question qs qs'"
proof (induction qs arbitrary: J w acc)
  case Nil
  then show ?case by simp
next
  case (Cons q qs)
  obtain w1 where w1: "writeQuestion w q = (None, w1)" "write_questions w1 qs = (None, w')"
    using Cons.prems(5) by (auto split: option.splits prod.splits)
  note wq = writeQuestion_reads [OF Cons.prems(1,2) _ _ w1(1)]
  have t: "table_ok (Suc J) w1" and a: "advances w w1" using wq Cons.prems by auto
  then have off: "w_offset w1 \<le> length (w_buf w1)" by (simp add: advances_def)
  have a1: "advances w1 w'" using write_questions_advances [OF off w1(2)] .
  let ?p = "take (w_offset w') (w_buf w') @ rest"
  have p: "?p = take (w_offset w1) (w_buf w1) @ drop (w_offset w1) (take (w_offset w') (w_buf w')) @ rest"
  proof -
    have "take (w_offset w1) (take (w_offset w') (w_buf w')) = take (w_offset w1) (w_buf w1)"
      using a1 by (simp add: advances_def min_absorb1)
    then show ?thesis by (metis append_assoc append_take_drop_id)
  qed
  obtain q' where q': "decodeQuestion \<lparr>r_payload = ?p, r_offset = w_offset w\<rparr> =
      Inr (q', \<lparr>r_payload = ?p, r_offset = w_offset w1\<rparr>)" "same_question q q'"
    using wq Cons.prems unfolding p by auto
  obtain qs' where "unpack_questions (length qs) \<lparr>r_payload = ?p, r_offset = w_offset w1\<rparr> (acc @ [q']) =
      (Inr \<lparr>r_payload = ?p, r_offset = w_offset w'\<rparr>, (acc @ [q']) @ qs')" "list_all2 same_question qs qs'"
    using Cons.IH [OF t off _ _ w1(2), of "acc @ [q']"] Cons.prems by auto
  with q' show ?case by (intro exI [of _ "q' # qs'"]) simp
qed

section \<open>The whole response\<close>

lemma header_bytes:
  assumes "12 \<le> length buf"
  shows "put16_at (put16_at (put16_at (put16_at (put16_at (put16_at buf 0 a) 2 b) 4 c) 6 d) 8 e) 10 f =
    put16 a @ put16 b @ put16 c @ put16 d @ put16 e @ put16 f @ drop 12 buf"
proof -
  have step: "put16_at (p @ ys) (length p) v = p @ put16 v @ drop 2 ys" if "2 \<le> length ys" for p ys v
    using that by (simp add: put16_at_def copy_at_fit)
  show ?thesis
    using assms step [of buf "[]" a] step [of "drop 2 buf" "put16 a" b] step [of "drop 4 buf" "put16 a @ put16 b" c]
      step [of "drop 6 buf" "put16 a @ put16 b @ put16 c" d]
      step [of "drop 8 buf" "put16 a @ put16 b @ put16 c @ put16 d" e]
      step [of "drop 10 buf" "put16 a @ put16 b @ put16 c @ put16 d @ put16 e" f]
    by simp
qed

lemma section_keeps:
  assumes "headerSize \<le> w_offset w" "w_offset w \<le> length (w_buf w)"
  shows "writeAnswerSection w m res = (r, w') \<Longrightarrow> keeps w w'"
    and "writeAuthoritySection w m res = (r, w') \<Longrightarrow> keeps w w'"
proof -
  have two: "keeps w w'" if "(case writeRRSet w a x of (Inl err, w) \<Rightarrow> (Inl err, w)
      | (Inr n, w) \<Rightarrow> if b then (case writeRRSet w a y of (Inl err, w) \<Rightarrow> (Inl err, w)
          | (Inr k, w) \<Rightarrow> (Inr (n + k), w)) else (Inr n, w)) = (r, w')" for a x y b
  proof -
    obtain r1 w1 where 1: "writeRRSet w a x = (r1, w1)" by (cases "writeRRSet w a x")
    have k1: "keeps w w1" by (rule writeRRSet_keeps [OF assms 1])
    obtain r2 w2 where 2: "writeRRSet w1 a y = (r2, w2)" by (cases "writeRRSet w1 a y")
    have "keeps w1 w2" using keepsD(1-4) [OF k1] by (intro writeRRSet_keeps [OF _ _ 2]) simp_all
    then show ?thesis using that k1 keeps_trans [OF k1] 1 2 by (auto split: sum.splits if_splits)
  qed
  show "writeAnswerSection w m res = (r, w') \<Longrightarrow> keeps w w'"
    using keeps_refl [OF assms] two by (auto simp: writeAnswerSection_def split: if_splits)
  show "writeAuthoritySection w m res = (r, w') \<Longrightarrow> keeps w w'"
    using keeps_refl [OF assms] two by (auto simp: writeAuthoritySection_def Let_def split: if_splits)
qed

lemma writeEDNS0_advances:
  "w_offset w \<le> length (w_buf w) \<Longrightarrow> writeEDNS0 w m res = (n, w') \<Longrightarrow> advances w w'"
  by (auto simp: writeEDNS0_def advances_def Let_def take_put16_at take_put32_at split: if_splits)

text \<open>The stages of \<open>PackResponse\<close>: header, questions, the other sections, counts.\<close>

lemma PackResponse_stages:
  assumes "PackResponse m buf res maxSize = Inr (n, out)"
  obtains w w1 w5 an ns ar where
    "newPacketWriter buf maxSize = Inr w" "length (Questions m) \<le> 10"
    "write_questions (writeHeader w (ID (msg_Header m)) (response_flags m res) (word_of_nat (length (Questions m))))
       (Questions m) = (None, w1)"
    "keeps (writeHeader w (ID (msg_Header m)) (response_flags m res) (word_of_nat (length (Questions m)))) w1"
    "keeps w1 w5" "n = w_offset w5"
    "out = w_buf (updateCounts w5 an ns ar) @ drop (length (w_buf w5)) buf"
proof -
  obtain w where w: "newPacketWriter buf maxSize = Inr w" and q: "\<not> length (Questions m) > 10"
    using assms by (auto simp: PackResponse_def res_bind_eq_Inr split: if_splits)
  let ?w0 = "writeHeader w (ID (msg_Header m)) (response_flags m res) (word_of_nat (length (Questions m)))"
  have len: "12 \<le> length (w_buf w)"
    using w by (auto simp: newPacketWriter_def Let_def split: if_splits)
  have w0: "w_offset ?w0 = 12" "length (w_buf ?w0) = length (w_buf w)"
    using len by (simp_all add: writeHeader_def)
  obtain w1 where w1: "write_questions ?w0 (Questions m) = (None, w1)"
    using assms w q by (auto simp: PackResponse_def Let_def split: option.splits prod.splits)
  have k1: "keeps ?w0 w1"
    using write_questions_advances [OF _ w1] w0 len by (intro advances_keeps) simp_all
  then have o1: "12 \<le> w_offset w1" "w_offset w1 \<le> length (w_buf w1)" using keepsD [OF k1] w0 by auto
  obtain an w2 where w2: "writeAnswerSection w1 m res = (Inr an, w2)"
    using assms w q w1 by (auto simp: PackResponse_def Let_def split: sum.splits prod.splits)
  have k2: "keeps w1 w2" by (rule section_keeps(1) [OF o1 w2])
  then have o2: "12 \<le> w_offset w2" "w_offset w2 \<le> length (w_buf w2)" using keepsD [OF k2] by auto
  obtain ns w3 where w3: "writeAuthoritySection w2 m res = (Inr ns, w3)"
    using assms w q w1 w2 by (auto simp: PackResponse_def Let_def split: sum.splits prod.splits)
  have k3: "keeps w2 w3" by (rule section_keeps(2) [OF o2 w3])
  then have o3: "12 \<le> w_offset w3" "w_offset w3 \<le> length (w_buf w3)" using keepsD [OF k3] by auto
  obtain ad w4 where w4: "(if RCode res = RCodeSuccess \<and> Questions m \<noteq> [] \<and> HasAdditional res
      then writeRRSet w3 (q_Name (Questions m ! 0)) (Additional res) else (Inr 0, w3)) = (Inr ad, w4)"
    using assms w q w1 w2 w3 by (auto simp: PackResponse_def Let_def split: sum.splits prod.splits)
  have k4: "keeps w3 w4"
    using w4 keeps_refl [OF o3] writeRRSet_keeps [OF o3] by (simp split: if_splits)
  then have o4: "12 \<le> w_offset w4" "w_offset w4 \<le> length (w_buf w4)" using keepsD [OF k4] by auto
  obtain ne w5 where w5: "writeEDNS0 w4 m res = (ne, w5)" by (cases "writeEDNS0 w4 m res")
  have "keeps w4 w5" using advances_keeps [OF writeEDNS0_advances [OF o4(2) w5] o4(1)] .
  then have "keeps w1 w5" using keeps_trans k2 k3 k4 by blast
  moreover have "n = w_offset w5" "out = w_buf (updateCounts w5 an ns (ad + ne)) @ drop (length (w_buf w5)) buf"
    using assms w q w1 w2 w3 w4 w5 keepsD(1-4) [OF \<open>keeps w4 w5\<close>]
    by (simp_all add: PackResponse_def Let_def updateCounts_def)
  ultimately show ?thesis using that w q w1 k1 by simp
qed

lemma updateCounts_bytes:
  assumes "12 \<le> length (w_buf w)"
  shows "length (w_buf (updateCounts w a b c)) = length (w_buf w)"
    and "take 6 (w_buf (updateCounts w a b c)) = take 6 (w_buf w)"
    and "drop 12 (w_buf (updateCounts w a b c)) = drop 12 (w_buf w)"
    and "sub_slice (w_buf (updateCounts w a b c)) 6 12 = put16 a @ put16 b @ put16 c"
proof -
  have step: "put16_at (p @ ys) (length p) v = p @ put16 v @ drop 2 ys" if "2 \<le> length ys" for p ys v
    using that by (simp add: put16_at_def copy_at_fit)
  have "w_buf (updateCounts w a b c) = take 6 (w_buf w) @ put16 a @ put16 b @ put16 c @ drop 12 (w_buf w)"
    using assms step [of "drop 6 (w_buf w)" "take 6 (w_buf w)" a] step [of "drop 8 (w_buf w)" "take 6 (w_buf w) @ put16 a" b]
      step [of "drop 10 (w_buf w)" "take 6 (w_buf w) @ put16 a @ put16 b" c]
    by (simp add: updateCounts_def min_absorb2)
  then show "length (w_buf (updateCounts w a b c)) = length (w_buf w)"
    "take 6 (w_buf (updateCounts w a b c)) = take 6 (w_buf w)"
    "drop 12 (w_buf (updateCounts w a b c)) = drop 12 (w_buf w)"
    "sub_slice (w_buf (updateCounts w a b c)) 6 12 = put16 a @ put16 b @ put16 c"
    using assms by (simp_all add: sub_slice_def min_absorb2)
qed

lemma writeHeader_bytes:
  assumes "12 \<le> length (w_buf w)"
  shows "take 2 (w_buf (writeHeader w i f q)) = put16 i" and "flags_of (w_buf (writeHeader w i f q)) = f"
    and "sub_slice (w_buf (writeHeader w i f q)) 4 6 = put16 q"
    and "length (w_buf (writeHeader w i f q)) = length (w_buf w)" "w_offset (writeHeader w i f q) = 12"
    and "w_table (writeHeader w i f q) = w_table w"
proof -
  have "w_buf (writeHeader w i f q) = put16 i @ put16 f @ put16 q @ put16 0 @ put16 0 @ put16 0 @ drop 12 (w_buf w)"
    using header_bytes [OF assms] by (simp add: writeHeader_def)
  then show "take 2 (w_buf (writeHeader w i f q)) = put16 i" "flags_of (w_buf (writeHeader w i f q)) = f"
    "sub_slice (w_buf (writeHeader w i f q)) 4 6 = put16 q"
    "length (w_buf (writeHeader w i f q)) = length (w_buf w)"
    using assms by (simp_all add: flags_of_def sub_slice_def)
  show "w_offset (writeHeader w i f q) = 12" "w_table (writeHeader w i f q) = w_table w"
    by (simp_all add: writeHeader_def)
qed

lemma newPacketWriter_ok:
  "newPacketWriter buf maxSize = Inr w \<Longrightarrow>
   12 \<le> length (w_buf w) \<and> int (length (w_buf w)) \<le> maxSize \<and> length (w_buf w) \<le> length buf \<and>
   w_buf w = take (length (w_buf w)) buf \<and> w_table w = []"
  by (auto simp: newPacketWriter_def Let_def min_def split: if_splits)


text \<open>The writer never looks at the bytes it has written: with other header bytes it writes the
  same questions.\<close>

definition rehead :: "bytes \<Rightarrow> packetWriter \<Rightarrow> packetWriter" where
  "rehead h w = w\<lparr>w_buf := h @ drop (length h) (w_buf w)\<rparr>"

definition behind :: "bytes \<Rightarrow> packetWriter \<Rightarrow> bool" where
  "behind h w \<longleftrightarrow> length h \<le> w_offset w \<and> w_offset w \<le> length (w_buf w)"

lemma rehead_simps [simp]:
  "w_offset (rehead h w) = w_offset w" "w_table (rehead h w) = w_table w"
  "behind h w \<Longrightarrow> length (w_buf (rehead h w)) = length (w_buf w)"
  by (simp_all add: rehead_def behind_def)

lemma copy_at_rehead:
  "length h \<le> a \<Longrightarrow> a + length ys \<le> length b \<Longrightarrow>
   copy_at (h @ drop (length h) b) a ys = h @ drop (length h) (copy_at b a ys)"
  by (simp add: copy_at_fit drop_take)

lemma update_rehead:
  "length h \<le> a \<Longrightarrow> (h @ drop (length h) b)[a := v] = h @ drop (length h) (b[a := v])"
  by (simp add: list_update_append drop_update_swap)

lemma label_rehead:
  assumes "behind h w"
  shows "writeFinalLabel (rehead h w) l c = map_sum id (rehead h) (writeFinalLabel w l c)"
    and "writeIntermediateLabel (rehead h w) s l c = map_sum id (rehead h) (writeIntermediateLabel w s l c)"
    and "write_zero (rehead h w) = map_sum id (rehead h) (write_zero w)"
  using assms rehead_simps(3) [OF assms]
  by (simp_all add: writeFinalLabel_def writeIntermediateLabel_def write_zero_def Let_def behind_def)
     (simp_all add: rehead_def update_rehead copy_at_rehead)

lemma behind_advances: "behind h w \<Longrightarrow> advances w w' \<Longrightarrow> behind h w'"
  by (simp add: behind_def advances_def)

lemma write_suffix_rehead:
  "behind h w \<Longrightarrow> write_suffix (rehead h w) s c = map_prod id (rehead h) (write_suffix w s c)"
proof (induction w s c rule: write_suffix.induct)
  case (1 w s c)
  note b = 1(2)
  note lr = label_rehead [OF b]
  show ?case
  proof (cases "if c then compressor_lookup (w_table w) s else None")
    case (Some off)
    have "put16_at (w_buf (rehead h w)) (w_offset w) v = w_buf (rehead h (w\<lparr>w_buf := put16_at (w_buf w) (w_offset w) v\<rparr>))"
      if "w_offset w + 2 \<le> length (w_buf w)" for v
      using b that by (simp add: rehead_def put16_at_def copy_at_rehead behind_def)
    with Some b show ?thesis
      by (subst (1 2) write_suffix.simps) (auto simp: rehead_def behind_def)
  next
    case None
    show ?thesis
    proof (cases "IndexByte s CHR ''.''")
      case None': None
      with None show ?thesis
        by (subst (1 2) write_suffix.simps) (auto simp: lr split: sum.split)
    next
      case (Some d)
      show ?thesis
      proof (cases "writeIntermediateLabel w s (take d s) c")
        case (Inl e)
        with None Some show ?thesis by (subst (1 2) write_suffix.simps) (auto simp: lr split: if_splits)
      next
        case (Inr w')
        have b': "behind h w'"
          using Inr b by (auto simp: writeIntermediateLabel_def behind_def Let_def split: if_splits)
        have "write_suffix (rehead h w') (drop (d + 1) s) c = map_prod id (rehead h) (write_suffix w' (drop (d + 1) s) c)"
          if "drop (d + 1) s \<noteq> []"
          using 1(1) [OF None Some Inr refl that b'] .
        with None Some Inr show ?thesis
          by (subst (1 2) write_suffix.simps) (auto simp: lr label_rehead(3) [OF b'] Let_def split: sum.split)
      qed
    qed
  qed
qed

lemma writeDomain_rehead:
  "behind h w \<Longrightarrow> writeDomain (rehead h w) n = map_prod id (rehead h) (writeDomain w n)"
  by (simp add: writeDomain_def writeDomainCompressed_def write_suffix_rehead label_rehead split: sum.split)

lemma write_questions_rehead:
  "behind h w \<Longrightarrow> write_questions (rehead h w) qs = map_prod id (rehead h) (write_questions w qs)"
proof (induction qs arbitrary: w)
  case Nil
  then show ?case by simp
next
  case (Cons q qs)
  obtain r w1 where d: "writeDomain w (q_Name q) = (r, w1)" by (cases "writeDomain w (q_Name q)")
  have b1: "behind h w1"
    using behind_advances [OF Cons.prems] writeDomain_advances [of w "q_Name q" True] Cons.prems d
    by (simp add: behind_def writeDomain_def)
  have q: "writeQuestion (rehead h w) q = map_prod id (rehead h) (writeQuestion w q)"
    using b1 rehead_simps(3) [OF b1]
    by (auto simp: writeQuestion_def writeDomain_rehead [OF Cons.prems] d put16_at_def split: option.split)
       (simp add: rehead_def behind_def copy_at_rehead)
  obtain r2 w2 where w2: "writeQuestion w q = (r2, w2)" by (cases "writeQuestion w q")
  have "behind h w2"
    using w2 d b1 by (auto simp: writeQuestion_def behind_def put16_at_def split: option.splits if_splits)
  with q w2 Cons.IH show ?case by (auto split: option.split)
qed

text \<open>C11: the question section survives the trip.  For a message of ordinary questions, the
  questions of every response \<open>PackResponse\<close> writes, with all the name compression between
  them, are read back by the message reader: same types and classes, same names up to case,
  whether or not the answers were truncated.\<close>

theorem PackResponse_questions_read_back:
  assumes "PackResponse m buf res maxSize = Inr (n, out)" and "list_all sendable (Questions m)"
  shows "\<exists>r qs. unpack_questions (length (Questions m)) \<lparr>r_payload = take n out, r_offset = headerSize\<rparr> [] = (Inr r, qs) \<and>
    list_all2 same_question (Questions m) qs"
proof -
  from assms(1) obtain w w1 w5 an ns ar where
    w: "newPacketWriter buf maxSize = Inr w" and q: "length (Questions m) \<le> 10" and
    w1: "write_questions (writeHeader w (ID (msg_Header m)) (response_flags m res) (word_of_nat (length (Questions m))))
       (Questions m) = (None, w1)" and
    k1: "keeps (writeHeader w (ID (msg_Header m)) (response_flags m res) (word_of_nat (length (Questions m)))) w1" and
    k5: "keeps w1 w5" and n: "n = w_offset w5" and
    out: "out = w_buf (updateCounts w5 an ns ar) @ drop (length (w_buf w5)) buf"
    by (rule PackResponse_stages)
  let ?w0 = "writeHeader w (ID (msg_Header m)) (response_flags m res) (word_of_nat (length (Questions m)))"
  note nw = newPacketWriter_ok [OF w]
  note hd = writeHeader_bytes [OF nw [THEN conjunct1]]
  have len: "12 \<le> length (w_buf w5)" "n \<le> length (w_buf w5)" "12 \<le> w_offset w1" "w_offset w1 \<le> n"
    "w_offset w1 \<le> length (w_buf w1)"
    using keepsD(1-4) [OF k1] keepsD(1-4) [OF k5] nw hd(4,5) n by simp_all
  note u = updateCounts_bytes [OF len(1), of an ns ar]
  define h where "h = take 12 out"
  have h: "length h = 12" using u(1) len(1) by (simp add: h_def out)
  have b: "behind h ?w0" using h nw hd(4,5) by (simp add: behind_def)
  have q1: "write_questions (rehead h ?w0) (Questions m) = (None, rehead h w1)"
    using write_questions_rehead [OF b, of "Questions m"] w1 by simp
  have d5: "drop 12 (take (w_offset w1) (w_buf w5)) = drop 12 (take (w_offset w1) (w_buf w1))"
  proof -
    have "sub_slice (w_buf w5) 4 (w_offset w1) = sub_slice (w_buf w1) 4 (w_offset w1)" by (rule keepsD(6) [OF k5])
    from arg_cong [OF this, of "drop 8"] show ?thesis by (simp add: sub_slice_def drop_take)
  qed
  have "take (w_offset w1) out = h @ drop 12 (take (w_offset w1) (w_buf w5))"
  proof -
    have "drop 12 (take (w_offset w1) out) = drop 12 (take (w_offset w1) (w_buf w5))"
      using u(1,3) len by (simp add: out drop_take)
    moreover have "take 12 (take (w_offset w1) out) = h" using len by (simp add: h_def min_absorb1)
    ultimately show ?thesis by (metis append_take_drop_id)
  qed
  then have "take (w_offset w1) (w_buf (rehead h w1)) = take (w_offset w1) out"
    using h len(3) d5 by (simp add: rehead_def drop_take)
  moreover have "take n out = take (w_offset w1) out @ drop (w_offset w1) (take n out)"
    using len(4) append_take_drop_id [of "w_offset w1" "take n out"] by (simp add: min_absorb1)
  ultimately have p: "take n out = take (w_offset w1) (w_buf (rehead h w1)) @ drop (w_offset w1) (take n out)" by simp
  have "table_ok 0 (rehead h ?w0)" using nw hd(6) by (simp add: table_ok_def)
  from write_questions_read [OF this _ assms(2) _ q1, of "drop (w_offset w1) (take n out)" "[]"] q b hd(5)
  show ?thesis unfolding p [symmetric] rehead_simps by (auto simp: behind_def rehead_def)
qed

section \<open>Slip responses\<close>

lemma slip_scan_ge: "off \<le> slip_scan p off"
proof (induction p off rule: slip_scan.induct)
  case (1 p off)
  then show ?case by (subst slip_scan.simps) (fastforce simp: Let_def)
qed

text \<open>A slip response is a prefix of the response with a rewritten header.  It is between a
  bare header and the response in length, keeps the identifier, the question count and every
  byte after the header, has the truncation bit, and counts no answer, authority or additional
  record.\<close>

theorem TruncateToSlip_safe:
  assumes "headerSize \<le> written" and "written \<le> length buf" and "TruncateToSlip buf written = (k, out)"
  shows "headerSize \<le> k \<and> k \<le> written \<and> length out = length buf \<and> take 2 out = take 2 buf \<and>
    flags_of out = flags_of buf OR 0x0200 \<and> sub_slice out 4 6 = sub_slice buf 4 6 \<and>
    sub_slice out 6 12 = replicate 6 0 \<and> drop headerSize out = drop headerSize buf"
proof -
  define v where "v = flags_of buf OR 0x0200"
  define b where "b = put16_at buf 2 v"
  define w where "w = \<lparr>w_buf = b, w_table = [], w_offset = 0\<rparr>"
  have b: "b = take 2 buf @ put16 v @ drop 4 buf" "12 \<le> length b" "length b = length buf"
    using assms(1,2) by (simp_all add: b_def put16_at_def copy_at_fit)
  have out: "out = w_buf (updateCounts w 0 0 0)"
    and k: "k = (if slip_scan (take written out) headerSize + 4 \<le> written
      then slip_scan (take written out) headerSize + 4 else headerSize)"
    using assms by (auto simp: TruncateToSlip_def Let_def updateCounts_def w_def b_def v_def flags_of_def put16_at_def split: if_splits)
  have "12 \<le> length (w_buf w)" using b(2) by (simp add: w_def)
  note u = updateCounts_bytes [OF this, of 0 0 0, folded out]
  have sl: "sub_slice out a c = sub_slice b a c" if "c \<le> 6" for a c
    using sub_slice_cong_take [OF u(2) that] by (simp add: w_def)
  have "take 2 out = take 2 b" using take_cong_le [OF u(2), of 2] by (simp add: w_def)
  moreover have "sub_slice b 2 4 = put16 v" "sub_slice b 4 6 = sub_slice buf 4 6" "take 2 b = take 2 buf"
    "drop 12 b = drop 12 buf"
    using assms(1,2) by (simp_all add: b(1) sub_slice_def)
  moreover have "sub_slice out 6 12 = replicate 6 0"
    using u(4) by (simp add: put16_def eval_nat_numeral)
  moreover have "headerSize \<le> k \<and> k \<le> written"
    using k slip_scan_ge [of headerSize "take written out"] assms(1) by simp
  ultimately show ?thesis
    using u(1,3) b(3) sl [of 4 2] sl [of 6 4] by (simp add: flags_of_def w_def v_def)
qed

text \<open>A query with two questions, and the response to it.\<close>

definition two_questions :: Message where
  "two_questions = empty_message\<lparr>Questions :=
     [\<lparr>q_Name = ''a'', q_Type = TypeA, q_Class = ClassIN\<rparr>,
      \<lparr>q_Name = ''b'', q_Type = TypeA, q_Class = ClassIN\<rparr>]\<rparr>"

definition sample_response :: bytes where
  "sample_response = [0, 0, 0x84, 0, 0, 2, 0, 0, 0, 0, 0, 0, 1, 97, 0, 0, 1, 0, 1, 1, 98, 0, 0, 1, 0, 1]"

lemma sample_response_packed:
  "PackResponse two_questions (replicate 26 0) no_Result 26 = Inr (26, sample_response)"
  by code_simp


theorem PackResponse_questions_read_back_witness:
  "list_all sendable (Questions two_questions) \<and>
   (\<exists>r qs. unpack_questions 2 \<lparr>r_payload = take 26 sample_response, r_offset = headerSize\<rparr> [] = (Inr r, qs) \<and>
     list_all2 same_question (Questions two_questions) qs)"
proof -
  have s: "list_all sendable (Questions two_questions)" by code_simp
  have "length (Questions two_questions) = 2" by (simp add: two_questions_def)
  with s PackResponse_questions_read_back [OF sample_response_packed s] show ?thesis by simp
qed

theorem TruncateToSlip_safe_witness:
  "TruncateToSlip sample_response 26 = (19, snd (TruncateToSlip sample_response 26)) \<and>
   flags_of (snd (TruncateToSlip sample_response 26)) = flags_of sample_response OR 0x0200"
proof -
  have t: "TruncateToSlip sample_response 26 = (19, snd (TruncateToSlip sample_response 26))" by code_simp
  with TruncateToSlip_safe [OF _ _ t] show ?thesis by (simp add: sample_response_def)
qed

text \<open>The comment of \<open>TruncateToSlip\<close> says that the question section is retained.  Only its
  first question is: the slip response to a query with two questions still counts two, ends
  after the first, and the message reader rejects it, although it accepts the response the
  slip was made from.\<close>

theorem TruncateToSlip_keeps_one_question:
  "fst (Message_Unpack empty_message sample_response) = None \<and>
   fst (TruncateToSlip sample_response 26) = 19 \<and>
   sub_slice (snd (TruncateToSlip sample_response 26)) 4 6 = put16 2 \<and>
   fst (Message_Unpack empty_message (take 19 (snd (TruncateToSlip sample_response 26)))) \<noteq> None"
  by (intro conjI) code_simp+

end
