(* ===== verification/Rrl.thy ===== *)
theory Rrl
  imports GoLib DnsTypes
begin

text \<open>
  \<open>internal/rrl/limiter.go\<close>: response rate limiting.  A table of slots, split into 64 shards,
  holds one token counter per client network, response class and name; a response is allowed,
  dropped, or answered with a truncated message.  The main results: indices into the table never
  leave it, the number of allowed responses in any period is bounded by the configured rate, and
  a rate beyond 16 bits switches the limiter off.
\<close>

section \<open>net/netip: addresses\<close>

text \<open>An address is the zero value, an IPv4 address, or an IPv6 address held as two 64-bit halves.
  The zone of an IPv6 address plays no role here.\<close>

datatype Addr = AddrInvalid | Addr4 u32 | Addr6 u64 u64

definition Addr_IsValid :: "Addr \<Rightarrow> bool" where
  "Addr_IsValid ip \<longleftrightarrow> ip \<noteq> AddrInvalid"

fun Addr_Is4 :: "Addr \<Rightarrow> bool" where
  "Addr_Is4 (Addr4 _) = True"
| "Addr_Is4 _ = False"

fun Addr_Is4In6 :: "Addr \<Rightarrow> bool" where
  "Addr_Is4In6 (Addr6 hi lo) \<longleftrightarrow> hi = 0 \<and> drop_bit 32 lo = 0xFFFF"
| "Addr_Is4In6 _ = False"

fun Addr_Unmap :: "Addr \<Rightarrow> Addr" where
  "Addr_Unmap (Addr6 hi lo) = (if Addr_Is4In6 (Addr6 hi lo) then Addr4 (ucast lo) else Addr6 hi lo)"
| "Addr_Unmap ip = ip"

definition put64 :: "u64 \<Rightarrow> bytes" where
  "put64 v = put32 (ucast (drop_bit 32 v)) @ put32 (ucast v)"

text \<open>\<open>As4\<close> panics on other addresses; it is called on unmapped IPv4 addresses only.\<close>

fun Addr_As4 :: "Addr \<Rightarrow> bytes" where
  "Addr_As4 (Addr4 a) = put32 a"
| "Addr_As4 _ = [0, 0, 0, 0]"

fun Addr_As16 :: "Addr \<Rightarrow> bytes" where
  "Addr_As16 (Addr6 hi lo) = put64 hi @ put64 lo"
| "Addr_As16 (Addr4 a) = put64 0 @ put32 0xFFFF @ put32 a"
| "Addr_As16 AddrInvalid = replicate 16 0"

section \<open>Configuration and state\<close>

abbreviation DefaultResponsesPerSecond :: int where "DefaultResponsesPerSecond \<equiv> 50"
abbreviation DefaultErrorsPerSecond :: int where "DefaultErrorsPerSecond \<equiv> 10"
abbreviation DefaultSlipRate :: int where "DefaultSlipRate \<equiv> 2"
abbreviation DefaultTableSize :: int where "DefaultTableSize \<equiv> 65536"
abbreviation DefaultIPv4Prefix :: int where "DefaultIPv4Prefix \<equiv> 24"
abbreviation DefaultIPv6Prefix :: int where "DefaultIPv6Prefix \<equiv> 56"
abbreviation numShards :: nat where "numShards \<equiv> 64"

datatype responseClass = classPositive | classNXDomain | classError

datatype Action = ActionAllow | ActionDrop | ActionSlip

fun Action_String :: "Action \<Rightarrow> string" where
  "Action_String ActionAllow = ''ALLOW''"
| "Action_String ActionDrop = ''DROP''"
| "Action_String ActionSlip = ''SLIP''"

record Config =
  ResponsesPerSecond :: int
  ErrorsPerSecond :: int
  SlipRate :: int
  TableSize :: int
  IPv4Prefix :: int
  IPv6Prefix :: int

definition DefaultConfig :: Config where
  "DefaultConfig = \<lparr>ResponsesPerSecond = DefaultResponsesPerSecond, ErrorsPerSecond = DefaultErrorsPerSecond,
     SlipRate = DefaultSlipRate, TableSize = DefaultTableSize, IPv4Prefix = DefaultIPv4Prefix,
     IPv6Prefix = DefaultIPv6Prefix\<rparr>"

record slot =
  keyHash :: u64
  timestamp :: u32
  tokens :: u16
  slipCount :: u16

definition zero_slot :: slot where
  "zero_slot = \<lparr>keyHash = 0, timestamp = 0, tokens = 0, slipCount = 0\<rparr>"

record Limiter =
  l_shards :: "slot list list"
  l_cfg :: Config
  l_shardMask :: u64
  l_slotMask :: u64

text \<open>\<open>bits.Len\<close>: the number of bits needed for a number.  The shift of a Go \<open>int\<close> wraps at 64 bits,
  two's complement.\<close>

fun bits_Len :: "nat \<Rightarrow> nat" where
  "bits_Len n = (if n = 0 then 0 else Suc (bits_Len (n div 2)))"

declare bits_Len.simps [simp del]

definition roundUpPowerOfTwo :: "int \<Rightarrow> int" where
  "roundUpPowerOfTwo v = (if v \<le> 1 then 1 else signed_take_bit 63 (push_bit (bits_Len (nat (v - 1))) 1))"

definition rrl_defaults :: "Config \<Rightarrow> Config" where
  "rrl_defaults cfg =
     (let cfg = (if ResponsesPerSecond cfg \<le> 0 then cfg\<lparr>ResponsesPerSecond := DefaultResponsesPerSecond\<rparr> else cfg);
          cfg = (if ErrorsPerSecond cfg \<le> 0 then cfg\<lparr>ErrorsPerSecond := DefaultErrorsPerSecond\<rparr> else cfg);
          cfg = (if SlipRate cfg < 0 then cfg\<lparr>SlipRate := DefaultSlipRate\<rparr> else cfg);
          cfg = (if TableSize cfg \<le> 0 then cfg\<lparr>TableSize := DefaultTableSize\<rparr> else cfg);
          cfg = (if IPv4Prefix cfg \<le> 0 \<or> IPv4Prefix cfg > 32 then cfg\<lparr>IPv4Prefix := DefaultIPv4Prefix\<rparr> else cfg)
      in if IPv6Prefix cfg \<le> 0 \<or> IPv6Prefix cfg > 128 then cfg\<lparr>IPv6Prefix := DefaultIPv6Prefix\<rparr> else cfg)"

text \<open>Go's integer division truncates towards zero, which \<open>max\<close> makes irrelevant here.\<close>

definition rrl_New :: "Config \<Rightarrow> Limiter" where
  "rrl_New cfg =
     (let cfg = rrl_defaults cfg;
          tableSize = roundUpPowerOfTwo (TableSize cfg);
          slotsPerShard = max 1 (tableSize div int numShards);
          slotsPerShard = roundUpPowerOfTwo slotsPerShard;
          cfg = cfg\<lparr>TableSize := slotsPerShard * int numShards\<rparr>
      in \<lparr>l_shards = replicate numShards (replicate (nat slotsPerShard) zero_slot), l_cfg = cfg,
          l_shardMask = word_of_nat (numShards - 1), l_slotMask = word_of_int (slotsPerShard - 1)\<rparr>)"

section \<open>Keys\<close>

definition classifyRCode :: "rcode \<Rightarrow> responseClass" where
  "classifyRCode rCode =
     (if rCode = RCodeSuccess then classPositive
      else if rCode = RCodeNameError then classNXDomain
      else classError)"

fun class_number :: "responseClass \<Rightarrow> u64" where
  "class_number classPositive = 0"
| "class_number classNXDomain = 1"
| "class_number classError = 2"

text \<open>A Go shift by at least the width gives zero, as \<open>push_bit\<close> does.\<close>

definition hashSubnet :: "Config \<Rightarrow> Addr \<Rightarrow> u64" where
  "hashSubnet cfg ip =
     (if Addr_Is4 ip \<or> Addr_Is4In6 ip then
        (let octets4 = Addr_As4 (Addr_Unmap ip);
             mask = push_bit (nat (32 - IPv4Prefix cfg)) (NOT 0 :: u32);
             subnet = (push_bit 24 (ucast (octets4 ! 0)) OR push_bit 16 (ucast (octets4 ! 1))
                       OR push_bit 8 (ucast (octets4 ! 2)) OR ucast (octets4 ! 3)) AND mask
         in ucast subnet)
      else
        (let octets16 = Addr_As16 ip;
             hi = foldl (\<lambda>hi i. push_bit 8 hi OR ucast (octets16 ! i)) 0 [0..<8];
             lo = foldl (\<lambda>lo i. push_bit 8 lo OR ucast (octets16 ! (i + 8))) 0 [0..<8]
         in if IPv6Prefix cfg \<le> 64 then hi AND push_bit (nat (64 - IPv6Prefix cfg)) (NOT 0)
            else hi XOR (lo AND push_bit (nat (128 - IPv6Prefix cfg)) (NOT 0))))"

definition hash_char :: "u64 \<Rightarrow> char \<Rightarrow> u64" where
  "hash_char h c =
     (let b = (of_char c :: byte);
          b = (if 0x41 \<le> b \<and> b \<le> 0x5A then b + 32 else b)
      in (h XOR ucast b) * 0x94d049bb133111eb)"

definition hashKey :: "Config \<Rightarrow> Addr \<Rightarrow> responseClass \<Rightarrow> string \<Rightarrow> u64" where
  "hashKey cfg ip class domain =
     (let h = 0x517cc1b727220a95 XOR hashSubnet cfg ip;
          h = (h XOR class_number class) * 0xbf58476d1ce4e5b9;
          h = (if class = classPositive then foldl hash_char h domain else h)
      in h XOR drop_bit 32 h)"

section \<open>The decision\<close>

text \<open>The work on one slot, under the lock of its shard.\<close>

definition slot_check :: "int \<Rightarrow> int \<Rightarrow> u64 \<Rightarrow> u32 \<Rightarrow> slot \<Rightarrow> Action \<times> slot" where
  "slot_check limit slipRate hash now sl =
     (if keyHash sl \<noteq> hash then (ActionAllow, \<lparr>keyHash = hash, timestamp = now, tokens = 1, slipCount = 0\<rparr>)
      else
        (let sl = (if now < timestamp sl then sl\<lparr>timestamp := now\<rparr> else sl);
             elapsed = now - timestamp sl;
             sl = (if elapsed > 0 then
                     (let decay = elapsed * word_of_int limit;
                          current = ucast (tokens sl) :: u32
                      in sl\<lparr>tokens := if decay < current then ucast (current - decay) else 0,
                            timestamp := now, slipCount := 0\<rparr>)
                   else sl)
         in if uint (tokens sl) < limit then (ActionAllow, sl\<lparr>tokens := tokens sl + 1\<rparr>)
            else
              (let sl = sl\<lparr>tokens := word_of_int limit\<rparr> in
               if slipRate > 0 then
                 (let sl = sl\<lparr>slipCount := slipCount sl + 1\<rparr> in
                  if uint (slipCount sl) \<ge> slipRate then (ActionSlip, sl\<lparr>slipCount := 0\<rparr>)
                  else (ActionDrop, sl))
               else (ActionDrop, sl))))"

definition class_limit :: "Config \<Rightarrow> responseClass \<Rightarrow> int" where
  "class_limit cfg class = (if class \<noteq> classPositive then ErrorsPerSecond cfg else ResponsesPerSecond cfg)"

text \<open>Indexing outside of the table is a panic, \<open>None\<close>.\<close>

definition checkAt :: "Limiter \<Rightarrow> Addr \<Rightarrow> string \<Rightarrow> rcode \<Rightarrow> u32 \<Rightarrow> (Action \<times> Limiter) option" where
  "checkAt l clientIP domain rCode now =
     (if \<not> Addr_IsValid clientIP then Some (ActionAllow, l)
      else
        (let class = classifyRCode rCode;
             hash = hashKey (l_cfg l) clientIP class domain;
             shardIndex = unat (drop_bit 58 hash AND l_shardMask l);
             slotIndex = unat (hash AND l_slotMask l)
         in if shardIndex < length (l_shards l) \<and> slotIndex < length (l_shards l ! shardIndex) then
              (case slot_check (class_limit (l_cfg l) class) (SlipRate (l_cfg l)) hash now (l_shards l ! shardIndex ! slotIndex) of
                 (act, sl) \<Rightarrow>
                   Some (act, l\<lparr>l_shards := (l_shards l)[shardIndex := (l_shards l ! shardIndex)[slotIndex := sl]]\<rparr>))
            else None))"

definition rrl_Check :: "Limiter \<Rightarrow> Addr \<Rightarrow> string \<Rightarrow> rcode \<Rightarrow> int \<Rightarrow> (Action \<times> Limiter) option" where
  "rrl_Check l clientIP domain rCode unixTime = checkAt l clientIP domain rCode (word_of_int unixTime)"

text \<open>A sequence of responses, each with its client, name, code and time.\<close>

type_synonym rrl_request = "Addr \<times> string \<times> rcode \<times> u32"

fun rrl_run :: "Limiter \<Rightarrow> rrl_request list \<Rightarrow> (Action list \<times> Limiter) option" where
  "rrl_run l [] = Some ([], l)"
| "rrl_run l ((ip, domain, rCode, now) # reqs) =
     (case checkAt l ip domain rCode now of
        None \<Rightarrow> None
      | Some (act, l) \<Rightarrow> (case rrl_run l reqs of None \<Rightarrow> None | Some (acts, l) \<Rightarrow> Some (act # acts, l)))"

section \<open>The table\<close>

lemma bits_Len_pos: "0 < n \<Longrightarrow> 2 ^ (bits_Len n - 1) \<le> n \<and> n < 2 ^ bits_Len n \<and> 0 < bits_Len n"
proof (induction n rule: bits_Len.induct)
  case (1 n)
  show ?case
  proof (cases "n div 2 = 0")
    case True
    with 1(2) have "n = 1" by simp
    then show ?thesis by (simp add: bits_Len.simps [of "Suc 0"] bits_Len.simps [of 0])
  next
    case False
    obtain m where "bits_Len (n div 2) = Suc m" "2 ^ m \<le> n div 2" "n div 2 < 2 ^ Suc m"
      using 1 False by (cases "bits_Len (n div 2)") auto
    with 1(2) show ?thesis by (auto simp: bits_Len.simps [of n])
  qed
qed

lemma bits_Len_eq:
  assumes "2 ^ k \<le> n" and "n < 2 ^ Suc k"
  shows "bits_Len n = Suc k"
proof -
  have "0 < n" using assms(1) by (rule less_le_trans [rotated]) simp
  from bits_Len_pos [OF this] assms have "(2 :: nat) ^ (bits_Len n - 1) < 2 ^ Suc k" "(2 :: nat) ^ k < 2 ^ bits_Len n" "0 < bits_Len n"
    by (blast intro: le_less_trans)+
  then have "bits_Len n - 1 < Suc k" "k < bits_Len n" by (simp_all only: power_strict_increasing_iff one_less_numeral_iff semiring_norm)
  with \<open>0 < bits_Len n\<close> show ?thesis by simp
qed

text \<open>The next power of two, as long as it is an \<open>int\<close>.\<close>

lemma roundUpPowerOfTwo_power:
  assumes "v \<le> 2 ^ 62"
  shows "\<exists>k \<le> 62. roundUpPowerOfTwo v = 2 ^ k \<and> v \<le> 2 ^ k \<and> (1 < v \<longrightarrow> 2 ^ k < 2 * v)"
proof (cases "v \<le> 1")
  case True
  then show ?thesis by (intro exI [of _ 0]) (simp add: roundUpPowerOfTwo_def)
next
  case False
  let ?n = "nat (v - 1)" and ?k = "bits_Len (nat (v - 1))"
  have n: "2 ^ (?k - 1) \<le> ?n" "?n < 2 ^ ?k" "0 < ?k" using bits_Len_pos [of ?n] False by auto
  have "?n < 2 ^ 62" using assms False by (simp add: nat_less_iff)
  with n(1) have "(2 :: nat) ^ (?k - 1) < 2 ^ 62" by (rule le_less_trans)
  then have k: "?k \<le> 62" using n(3) by (subst (asm) power_strict_increasing_iff) simp_all
  then have "roundUpPowerOfTwo v = 2 ^ ?k"
    using False by (simp add: roundUpPowerOfTwo_def push_bit_eq_mult signed_take_bit_int_eq_self
        power_strict_increasing [of ?k 63 "2 :: int", simplified] order.trans [of _ 0])
  moreover have "v \<le> 2 ^ ?k" using n(2) False by (simp add: nat_less_iff)
  moreover have "(2 :: int) ^ (?k - 1) \<le> v - 1" using n(1) False by (simp add: le_nat_iff)
  then have "2 ^ ?k < 2 * v" using n(3) power_Suc [of "2 :: int" "?k - 1"] by simp
  ultimately show ?thesis using k by blast
qed

definition limiter_ok :: "Limiter \<Rightarrow> bool" where
  "limiter_ok l \<longleftrightarrow> length (l_shards l) = numShards \<and> l_shardMask l = 63 \<and>
     (\<exists>k \<le> 62. l_slotMask l = word_of_nat (2 ^ k - 1) \<and> list_all (\<lambda>ss. length ss = 2 ^ k) (l_shards l))"

lemma and_mask_less:
  fixes w :: u64
  assumes "k < 64"
  shows "unat (w AND word_of_nat (2 ^ k - 1)) < 2 ^ k"
proof -
  have "word_of_nat (2 ^ k - 1) = (mask k :: u64)" by (simp add: mask_eq_exp_minus_1 of_nat_diff)
  then have "unat (w AND word_of_nat (2 ^ k - 1)) = unat w mod 2 ^ k"
    by (simp only: take_bit_eq_mask [symmetric] unsigned_take_bit_eq) (simp only: take_bit_eq_mod)
  then show ?thesis by simp
qed

lemma limiter_ok_New:
  assumes "TableSize cfg < 2 ^ 63"
  shows "limiter_ok (rrl_New cfg)"
proof -
  let ?t = "roundUpPowerOfTwo (TableSize (rrl_defaults cfg))"
  have "TableSize (rrl_defaults cfg) < 2 ^ 63" using assms by (simp add: rrl_defaults_def Let_def)
  then have "?t \<le> 2 ^ 62"
  proof (cases "TableSize (rrl_defaults cfg) \<le> 2 ^ 62")
    case True
    then obtain k where "k \<le> 62" "?t = 2 ^ k" using roundUpPowerOfTwo_power by blast
    then show ?thesis using power_increasing [of k 62 "2 :: int"] by simp
  next
    case False
    have "bits_Len (nat (TableSize (rrl_defaults cfg) - 1)) = Suc 62"
      using \<open>TableSize (rrl_defaults cfg) < 2 ^ 63\<close> False by (intro bits_Len_eq) (simp_all add: nat_less_iff le_nat_iff)
    then show ?thesis using False by (simp add: roundUpPowerOfTwo_def signed_take_bit_eq_if_negative)
  qed
  then have "max 1 (?t div 64) \<le> 2 ^ 62" by auto
  from roundUpPowerOfTwo_power [OF this] obtain k where "k \<le> 62" "roundUpPowerOfTwo (max 1 (?t div 64)) = 2 ^ k" by blast
  moreover have "(word_of_int (2 ^ k - 1) :: u64) = word_of_nat (2 ^ k - 1)" by (simp add: of_nat_diff)
  ultimately show ?thesis
    by (auto simp: limiter_ok_def rrl_New_def Let_def list_all_iff nat_power_eq intro!: exI [of _ k])
qed

lemma checkAt_ok:
  assumes "limiter_ok l"
  shows "\<exists>act l'. checkAt l ip domain rCode now = Some (act, l') \<and> limiter_ok l' \<and> l_cfg l' = l_cfg l \<and> l_slotMask l' = l_slotMask l"
proof -
  obtain k where k: "k \<le> 62" "l_slotMask l = word_of_nat (2 ^ k - 1)" "list_all (\<lambda>ss. length ss = 2 ^ k) (l_shards l)"
    and len: "length (l_shards l) = 64" "l_shardMask l = 63" using assms by (auto simp: limiter_ok_def)
  have i: "unat (w AND 63) < 64" for w :: u64 using and_mask_less [of 6 w] by simp
  have j: "unat (w AND l_slotMask l) < 2 ^ k" for w using and_mask_less [of k w] k by simp
  have row: "length (l_shards l ! unat (w AND 63)) = 2 ^ k" for w :: u64
    using k(3) i len by (simp add: list_all_length)
  show ?thesis
  proof (cases "Addr_IsValid ip")
    case False
    then show ?thesis using assms by (simp add: checkAt_def)
  next
    case True
    then show ?thesis
      using k len i j row unfolding checkAt_def Let_def
      by (auto simp: limiter_ok_def list_all_length nth_list_update split: prod.split)
  qed
qed

lemma rrl_run_total: "limiter_ok l \<Longrightarrow> \<exists>acts l'. rrl_run l reqs = Some (acts, l') \<and> length acts = length reqs \<and> limiter_ok l'"
proof (induction reqs arbitrary: l)
  case (Cons r reqs)
  obtain ip d rc now where r: "r = (ip, d, rc, now)" by (cases r)
  obtain act l1 where 1: "checkAt l ip d rc now = Some (act, l1)" "limiter_ok l1" using checkAt_ok [OF Cons.prems] by blast
  from Cons.IH [OF 1(2)] obtain acts l2 where "rrl_run l1 reqs = Some (acts, l2)" "length acts = length reqs" "limiter_ok l2" by blast
  with 1 show ?case by (simp add: r)
qed simp

section \<open>One slot over time\<close>

fun slot_run :: "int \<Rightarrow> int \<Rightarrow> u64 \<Rightarrow> slot \<Rightarrow> u32 list \<Rightarrow> Action list" where
  "slot_run limit slipRate hash sl [] = []"
| "slot_run limit slipRate hash sl (now # ts) =
     (case slot_check limit slipRate hash now sl of (act, sl) \<Rightarrow> act # slot_run limit slipRate hash sl ts)"

abbreviation allowed :: "Action list \<Rightarrow> nat" where
  "allowed acts \<equiv> count_list acts ActionAllow"

text \<open>One check, when the decay does not wrap: an ideal bucket.\<close>

lemma slot_check_bucket:
  assumes "keyHash sl = hash" and "timestamp sl \<le> now" and "0 < L" and "L \<le> 65535"
    and "(unat now - unat (timestamp sl)) * L < 2 ^ 32"
    and "slot_check (int L) slipRate hash now sl = (act, sl')"
  shows "keyHash sl' = hash \<and> timestamp sl' = now \<and>
    (let k = unat (tokens sl) - (unat now - unat (timestamp sl)) * L in
     if k < L then act = ActionAllow \<and> unat (tokens sl') = k + 1
     else act \<noteq> ActionAllow \<and> unat (tokens sl') = L)"
proof -
  define e where "e = unat now - unat (timestamp sl)"
  have L: "unat (word_of_int (int L) :: u32) = L" "unat (word_of_int (int L) :: u16) = L"
    using assms(4) by (simp_all add: unat_of_nat)
  have e: "unat (now - timestamp sl) = e" using assms(2) by (simp add: e_def unat_sub word_le_nat_alt)
  have d: "unat ((now - timestamp sl) * word_of_int (int L)) = e * L"
    using assms(5) e L by (simp add: unat_word_ariths e_def)
  define sl1 where "sl1 = (if now - timestamp sl > 0 then
      (let decay = (now - timestamp sl) * word_of_int (int L); current = ucast (tokens sl) :: u32
       in sl\<lparr>tokens := if decay < current then ucast (current - decay) else 0, timestamp := now, slipCount := 0\<rparr>) else sl)"
  have lt: "unat (tokens sl) < 65536" using unsigned_less [of "tokens sl"] by simp
  then have cur: "unat (ucast (tokens sl) :: u32) = unat (tokens sl)" by (simp add: unsigned_ucast_eq take_bit_nat_eq_self)
  have k: "unat (tokens sl1) = unat (tokens sl) - e * L" and h: "keyHash sl1 = hash" "timestamp sl1 = now"
  proof -
    have sub: "unat (ucast (ucast (tokens sl) - w :: u32) :: u16) = unat (tokens sl) - unat w" if "unat w < unat (tokens sl)" for w
    proof -
      have "unat (ucast (tokens sl) - w) = unat (tokens sl) - unat w" using that cur by (simp add: unat_sub word_le_nat_alt)
      then show ?thesis using lt by (simp add: unsigned_ucast_eq take_bit_nat_eq_self)
    qed
    show "unat (tokens sl1) = unat (tokens sl) - e * L"
      using sub [of "(now - timestamp sl) * word_of_int (int L)"] d e cur
      by (auto simp: sl1_def Let_def word_less_nat_alt)
    show "keyHash sl1 = hash" "timestamp sl1 = now"
      using assms(1) by (simp_all add: sl1_def Let_def word_gt_0)
  qed
  have "slot_check (int L) slipRate hash now sl =
     (if uint (tokens sl1) < int L then (ActionAllow, sl1\<lparr>tokens := tokens sl1 + 1\<rparr>)
      else (let sl = sl1\<lparr>tokens := word_of_int (int L)\<rparr> in
            if slipRate > 0 then
              (let sl = sl\<lparr>slipCount := slipCount sl + 1\<rparr> in
               if uint (slipCount sl) \<ge> slipRate then (ActionSlip, sl\<lparr>slipCount := 0\<rparr>) else (ActionDrop, sl))
            else (ActionDrop, sl)))"
    using assms(1,2) by (simp add: slot_check_def sl1_def Let_def not_less [symmetric])
  moreover have "uint (tokens sl1) < int L \<longleftrightarrow> unat (tokens sl1) < L" by (simp only: uint_nat of_nat_less_iff)
  moreover have "unat (tokens sl1 + 1) = unat (tokens sl1) + 1" if "unat (tokens sl1) < L"
    using that assms(4) by (simp add: unat_word_ariths)
  ultimately show ?thesis
    using assms(6) k h L by (auto simp: Let_def e_def split: if_splits)
qed

text \<open>The potential of a slot: what is allowed until \<open>b\<close> and what is used up together are bounded by
  the rate.\<close>

lemma slot_run_potential:
  assumes "0 < L" and "L \<le> 65535" and "(b - unat (timestamp sl)) * L < 2 ^ 32"
    and "keyHash sl = hash" and "unat (tokens sl) \<le> L" and "sorted (timestamp sl # ts)" and "\<forall>t \<in> set ts. unat t \<le> b"
    and "unat (timestamp sl) \<le> b"
  shows "allowed (slot_run (int L) slipRate hash sl ts) + unat (tokens sl) \<le> L * (b - unat (timestamp sl) + 1)"
  using assms
proof (induction ts arbitrary: sl)
  case Nil
  then show ?case by (simp add: trans_le_add2)
next
  case (Cons now ts)
  obtain act sl' where c: "slot_check (int L) slipRate hash now sl = (act, sl')" by (cases "slot_check (int L) slipRate hash now sl")
  let ?e = "unat now - unat (timestamp sl)"
  have now: "timestamp sl \<le> now" "unat now \<le> b" "unat (timestamp sl) \<le> unat now" using Cons.prems(6,7) by (auto simp: word_le_nat_alt)
  have e: "?e * L < 2 ^ 32" by (rule le_less_trans [OF _ Cons.prems(3)]) (use now in \<open>auto intro: mult_le_mono1\<close>)
  note k = slot_check_bucket [OF Cons.prems(4) now(1) Cons.prems(1,2) e c]
  have "(b - unat (timestamp sl')) * L < 2 ^ 32"
    by (rule le_less_trans [OF _ Cons.prems(3)]) (use k now in \<open>auto intro: mult_le_mono1\<close>)
  moreover have "unat (tokens sl') \<le> L" using k by (auto simp: Let_def split: if_splits)
  ultimately have ih: "allowed (slot_run (int L) slipRate hash sl' ts) + unat (tokens sl') \<le> L * (b - unat now + 1)"
    using Cons.IH [of sl'] Cons.prems k now by simp
  have "b - unat (timestamp sl) + 1 = (b - unat now + 1) + ?e" using now by simp
  then have split: "L * (b - unat (timestamp sl) + 1) = L * (b - unat now + 1) + ?e * L"
    by (simp only: distrib_left mult.commute)
  show ?case
  proof (cases "unat (tokens sl) - ?e * L < L")
    case True
    with k have "act = ActionAllow" "unat (tokens sl') = unat (tokens sl) - ?e * L + 1" by (simp_all add: Let_def)
    then show ?thesis using ih unfolding split by (simp add: c)
  next
    case False
    with k have "act \<noteq> ActionAllow" "unat (tokens sl') = L" by (simp_all add: Let_def)
    then show ?thesis using ih Cons.prems(5) unfolding split by (simp add: c)
  qed
qed

lemma slot_check_start:
  assumes "0 < L" and "L \<le> 65535" and "slot_check (int L) slipRate hash now sl = (act, sl')"
  shows "keyHash sl' = hash \<and> timestamp sl' = now \<and> 0 < unat (tokens sl') \<and> unat (tokens sl') \<le> L"
proof (cases "keyHash sl = hash")
  case True
  have L: "unat (word_of_int (int L) :: u16) = L" using assms(2) by (simp add: unat_of_nat)
  have t: "unat (t + 1) = unat t + 1 \<and> unat t < L" if "uint t < int L" for t :: u16
  proof -
    have "unat t < L" using that by (simp only: uint_nat of_nat_less_iff)
    then show ?thesis using assms(2) by (simp add: unat_word_ariths)
  qed
  show ?thesis
    using assms(1,3) True L unfolding slot_check_def Let_def
    by (auto simp: word_gt_0 not_less dest!: t split: if_splits)
next
  case False
  then show ?thesis using assms by (auto simp: slot_check_def)
qed

lemma slot_run_bound:
  assumes "0 < L" and "L \<le> 65535" and "(b - a) * L < 2 ^ 32" and "sorted ts" and "\<forall>t \<in> set ts. a \<le> unat t \<and> unat t \<le> b"
  shows "allowed (slot_run (int L) slipRate hash sl ts) \<le> L * (b - a + 1)"
proof (cases ts)
  case (Cons now rest)
  obtain act sl' where c: "slot_check (int L) slipRate hash now sl = (act, sl')" by (cases "slot_check (int L) slipRate hash now sl")
  have now: "a \<le> unat now" "unat now \<le> b" using assms(5) Cons by auto
  note st = slot_check_start [OF assms(1,2) c]
  have "(b - unat now) * L < 2 ^ 32" by (rule le_less_trans [OF _ assms(3)]) (use now in \<open>auto intro: mult_le_mono1\<close>)
  then have "allowed (slot_run (int L) slipRate hash sl' rest) + unat (tokens sl') \<le> L * (b - unat now + 1)"
    using slot_run_potential [OF assms(1,2), of b sl' hash rest slipRate] st assms(4,5) now Cons by simp
  moreover have "allowed (slot_run (int L) slipRate hash sl ts) \<le> allowed (slot_run (int L) slipRate hash sl' rest) + 1"
    by (simp add: Cons c)
  moreover have "L * (b - unat now + 1) \<le> L * (b - a + 1)" using now by (intro mult_le_mono2) simp
  ultimately show ?thesis using st by linarith
qed simp

section \<open>One client in the table\<close>

fun rrl_key :: "Config \<Rightarrow> rrl_request \<Rightarrow> u64 option" where
  "rrl_key cfg (ip, domain, rCode, now) =
     (if Addr_IsValid ip then Some (hashKey cfg ip (classifyRCode rCode) domain) else None)"

fun rrl_time :: "rrl_request \<Rightarrow> u32" where
  "rrl_time (ip, domain, rCode, now) = now"

fun rrl_limit :: "Config \<Rightarrow> rrl_request \<Rightarrow> int" where
  "rrl_limit cfg (ip, domain, rCode, now) = class_limit cfg (classifyRCode rCode)"

text \<open>Where the slot of a key is.\<close>

definition rrl_place :: "Limiter \<Rightarrow> u64 \<Rightarrow> nat \<times> nat" where
  "rrl_place l h = (unat (drop_bit 58 h AND l_shardMask l), unat (h AND l_slotMask l))"

definition slot_at :: "Limiter \<Rightarrow> u64 \<Rightarrow> slot" where
  "slot_at l h = l_shards l ! fst (rrl_place l h) ! snd (rrl_place l h)"

lemma checkAt_same: "checkAt l ip d rc now = Some (act, l') \<Longrightarrow>
  l_cfg l' = l_cfg l \<and> l_shardMask l' = l_shardMask l \<and> l_slotMask l' = l_slotMask l"
  by (auto simp: checkAt_def Let_def split: if_splits prod.splits)

lemma checkAt_slot:
  assumes "checkAt l ip d rc now = Some (act, l')"
  shows "rrl_key (l_cfg l) (ip, d, rc, now) = Some h \<Longrightarrow>
      slot_check (rrl_limit (l_cfg l) (ip, d, rc, now)) (SlipRate (l_cfg l)) h now (slot_at l h) = (act, slot_at l' h)"
    and "rrl_key (l_cfg l) (ip, d, rc, now) = None \<or>
      (\<exists>h'. rrl_key (l_cfg l) (ip, d, rc, now) = Some h' \<and> rrl_place l h' \<noteq> rrl_place l h) \<Longrightarrow> slot_at l' h = slot_at l h"
  using assms
  by (auto simp: checkAt_def Let_def slot_at_def rrl_place_def nth_list_update split: if_splits prod.splits)

lemma rrl_run_slot:
  assumes "rrl_run l reqs = Some (acts, l')" and "l_cfg l = cfg"
    and "\<And>r h'. r \<in> set reqs \<Longrightarrow> rrl_key cfg r = Some h' \<Longrightarrow>
      if h' = h then rrl_limit cfg r = limit else rrl_place l h' \<noteq> rrl_place l h"
  shows "map snd (filter (\<lambda>(r, act). rrl_key cfg r = Some h) (zip reqs acts)) =
    slot_run limit (SlipRate cfg) h (slot_at l h) (map rrl_time (filter (\<lambda>r. rrl_key cfg r = Some h) reqs))"
  using assms
proof (induction reqs arbitrary: l acts)
  case (Cons r reqs)
  obtain ip d rc now where r: "r = (ip, d, rc, now)" by (cases r)
  obtain act l1 acts1 where c: "checkAt l ip d rc now = Some (act, l1)" and run: "rrl_run l1 reqs = Some (acts1, l')"
    and acts: "acts = act # acts1"
    using Cons.prems(1) r by (auto split: option.splits)
  note same = checkAt_same [OF c]
  then have place: "rrl_place l1 = rrl_place l" by (simp add: rrl_place_def fun_eq_iff)
  have ih: "map snd (filter (\<lambda>(r, act). rrl_key cfg r = Some h) (zip reqs acts1)) =
    slot_run limit (SlipRate cfg) h (slot_at l1 h) (map rrl_time (filter (\<lambda>r. rrl_key cfg r = Some h) reqs))"
    by (rule Cons.IH [OF run]) (use same Cons.prems(2,3) place in force)+
  show ?case
  proof (cases "rrl_key cfg r = Some h")
    case True
    with checkAt_slot(1) [OF c, of h] Cons.prems(2) Cons.prems(3) [of r h] ih show ?thesis by (simp add: acts r del: rrl_key.simps rrl_limit.simps)
  next
    case False
    with checkAt_slot(2) [OF c, of h] Cons.prems(2) Cons.prems(3) [of r] have "slot_at l1 h = slot_at l h"
      by (cases "rrl_key cfg r") (auto simp: r simp del: rrl_key.simps split: if_splits)
    with False ih show ?thesis by (simp add: acts)
  qed
qed simp

text \<open>C16: the rate is kept.  Consider the responses of one key (client network, class and name) in
  any sequence of responses whose times go from \<open>a\<close> to \<open>b\<close>, where no other key lands in the same
  slot of the table: at most \<open>limit\<close> responses per second of that period are allowed, whatever the
  slot held before.  (The limit fits into 16 bits, and the decay of the period into 32.)\<close>

theorem rrl_rate_bound:
  assumes "rrl_run l reqs = Some (acts, l')" and "0 < L" and "L \<le> 65535" and "(b - a) * L < 2 ^ 32"
    and "sorted (map rrl_time reqs)" and "\<forall>r \<in> set reqs. a \<le> unat (rrl_time r) \<and> unat (rrl_time r) \<le> b"
    and "\<forall>r \<in> set reqs. \<forall>h'. rrl_key (l_cfg l) r = Some h' \<longrightarrow>
      (if h' = h then rrl_limit (l_cfg l) r = int L else rrl_place l h' \<noteq> rrl_place l h)"
  shows "allowed (map snd (filter (\<lambda>(r, act). rrl_key (l_cfg l) r = Some h) (zip reqs acts))) \<le> L * (b - a + 1)"
proof -
  have "map snd (filter (\<lambda>(r, act). rrl_key (l_cfg l) r = Some h) (zip reqs acts)) =
    slot_run (int L) (SlipRate (l_cfg l)) h (slot_at l h) (map rrl_time (filter (\<lambda>r. rrl_key (l_cfg l) r = Some h) reqs))"
    using rrl_run_slot [OF assms(1) refl, of h "int L"] assms(7) by blast
  moreover have "sorted (map rrl_time (filter (\<lambda>r. rrl_key (l_cfg l) r = Some h) reqs))"
    by (rule sorted_filter [OF assms(5)])
  ultimately show ?thesis using slot_run_bound [OF assms(2-4)] assms(6) by simp
qed

text \<open>A limiter never leaves its table and never stops working: whatever the configuration (its
  table size being a Go \<open>int\<close>), every sequence of checks runs to the end with one decision each.\<close>

theorem rrl_total:
  assumes "TableSize cfg < 2 ^ 63"
  shows "\<exists>acts l'. rrl_run (rrl_New cfg) reqs = Some (acts, l') \<and> length acts = length reqs"
  using rrl_run_total [OF limiter_ok_New [OF assms]] by blast

text \<open>A rate of more than 65535 responses per second is no limit at all: the 16-bit counter of
  a slot wraps before it reaches the limit, and every response is allowed.\<close>

theorem rrl_wide_limit_off:
  assumes "65535 < class_limit (l_cfg l) (classifyRCode rCode)" and "checkAt l ip domain rCode now = Some (act, l')"
  shows "act = ActionAllow"
proof -
  have "uint t < class_limit (l_cfg l) (classifyRCode rCode)" for t :: u16
    using assms(1) unsigned_less [of t, where ?'a = int] by simp
  then show ?thesis using assms(2)
    by (auto simp: checkAt_def slot_check_def Let_def split: if_splits prod.splits)
qed

section \<open>Samples\<close>

lemma sample_limit: "l_cfg (rrl_New DefaultConfig) = DefaultConfig"
proof -
  have "bits_Len 65535 = Suc 15" "bits_Len 1023 = Suc 9" by (rule bits_Len_eq; simp)+
  then show ?thesis by (simp add: rrl_New_def rrl_defaults_def DefaultConfig_def roundUpPowerOfTwo_def Let_def)
qed

theorem rrl_rate_bound_witness:
  "\<exists>acts l'. rrl_run (rrl_New DefaultConfig) (replicate 60 (Addr4 0x7F000001, ''a.org'', RCodeSuccess, 7)) = Some (acts, l') \<and>
     allowed acts \<le> 50"
proof -
  let ?l = "rrl_New DefaultConfig" and ?r = "(Addr4 0x7F000001, ''a.org'', RCodeSuccess, 7) :: rrl_request"
  obtain acts l' where run: "rrl_run ?l (replicate 60 ?r) = Some (acts, l')" and len: "length acts = length (replicate 60 ?r)"
    using rrl_run_total [OF limiter_ok_New, of DefaultConfig "replicate 60 ?r"] by (auto simp: DefaultConfig_def)
  define h where "h = the (rrl_key (l_cfg ?l) ?r)"
  have key: "rrl_key (l_cfg ?l) ?r = Some h" by (simp add: h_def Addr_IsValid_def)
  have lim: "rrl_limit (l_cfg ?l) ?r = int 50" unfolding sample_limit by (simp add: class_limit_def classifyRCode_def DefaultConfig_def)
  have "allowed (map snd (filter (\<lambda>(r, act). rrl_key (l_cfg ?l) r = Some h) (zip (replicate 60 ?r) acts))) \<le> 50 * (7 - 7 + 1)"
    by (rule rrl_rate_bound [OF run]) (use key lim in \<open>auto simp del: rrl_key.simps rrl_limit.simps\<close>)
  moreover have "filter (\<lambda>(r, act). rrl_key (l_cfg ?l) r = Some h) (zip (replicate 60 ?r) acts) = zip (replicate 60 ?r) acts"
    using key by (auto simp: filter_id_conv in_set_zip simp del: rrl_key.simps)
  ultimately have "allowed acts \<le> 50" using len by simp
  with run show ?thesis by blast
qed

theorem rrl_total_witness:
  "\<exists>acts l'. rrl_run (rrl_New (DefaultConfig\<lparr>TableSize := 2 ^ 63 - 1\<rparr>)) [(Addr6 0 1, ''a.org'', RCodeRefused, 0)] = Some (acts, l') \<and>
     length acts = 1"
  using rrl_total [of "DefaultConfig\<lparr>TableSize := 2 ^ 63 - 1\<rparr>" "[(Addr6 0 1, ''a.org'', RCodeRefused, 0)]"] by simp

theorem rrl_wide_limit_off_witness:
  "\<exists>act l'. checkAt (rrl_New (DefaultConfig\<lparr>ResponsesPerSecond := 70000\<rparr>)) (Addr4 1) ''a.org'' RCodeSuccess 0 = Some (act, l') \<and>
     act = ActionAllow"
proof -
  let ?c = "DefaultConfig\<lparr>ResponsesPerSecond := 70000\<rparr>"
  have "limiter_ok (rrl_New ?c)" by (rule limiter_ok_New) (simp add: DefaultConfig_def)
  then obtain act l' where c: "checkAt (rrl_New ?c) (Addr4 1) ''a.org'' RCodeSuccess 0 = Some (act, l')" using checkAt_ok by blast
  have "65535 < class_limit (l_cfg (rrl_New ?c)) (classifyRCode RCodeSuccess)"
    by (simp add: rrl_New_def rrl_defaults_def DefaultConfig_def class_limit_def classifyRCode_def Let_def)
  from rrl_wide_limit_off [OF this c] c show ?thesis by blast
qed

end
