(* ===== verification/Framing.thy ===== *)
theory Framing
  imports Prelude
begin

text \<open>
  Frames in a byte stream, as the persistence layer uses them: a decoder that takes one frame
  off the front of the stream, and a loop that consumes frames until the stream ends.  The
  laws are those of a self-delimiting code: a whole frame is decoded whatever follows it, and
  a torn one is reported as such.  Everything a log promises about a crash follows from them.
\<close>

section \<open>Prefixes of a sequence of frames\<close>

lemma prefix_concat:
  assumes "prefix p (concat ys)"
  shows "\<exists>k q. k \<le> length ys \<and> p = concat (take k ys) @ q \<and>
    (q = [] \<or> k < length ys \<and> strict_prefix q (ys ! k))"
  using assms
proof (induction ys arbitrary: p)
  case Nil
  then show ?case by simp
next
  case (Cons y ys)
  then have "prefix p (y @ concat ys)" by simp
  then consider "strict_prefix p y" | p' where "p = y @ p'" "prefix p' (concat ys)"
    by (cases "p = y") (auto simp: prefix_append strict_prefix_def)
  then show ?case
  proof cases
    case 1
    then show ?thesis by (intro exI [of _ 0] exI [of _ p]) simp
  next
    case 2
    from Cons.IH [OF 2(2)] obtain k q where "k \<le> length ys" "p' = concat (take k ys) @ q"
      "q = [] \<or> k < length ys \<and> strict_prefix q (ys ! k)" by blast
    with 2(1) show ?thesis by (intro exI [of _ "Suc k"] exI [of _ q]) auto
  qed
qed

section \<open>The code\<close>

locale framing =
  fixes encode :: "'a \<Rightarrow> bytes"
    and decode :: "bytes \<Rightarrow> 'e + ('a \<times> bytes)"
    and valid :: "'a \<Rightarrow> bool"
    and torn :: "'e \<Rightarrow> bool"
  assumes decode_encode: "valid x \<Longrightarrow> decode (encode x @ rest) = Inr (x, rest)"
    and decode_torn: "valid x \<Longrightarrow> strict_prefix q (encode x) \<Longrightarrow> q \<noteq> [] \<Longrightarrow> \<exists>e. decode q = Inl e \<and> torn e"
    and encode_not_Nil: "valid x \<Longrightarrow> encode x \<noteq> []"
begin

lemma encode_inject: "valid x \<Longrightarrow> valid y \<Longrightarrow> encode x = encode y \<Longrightarrow> x = y"
  using decode_encode [of x "[]"] decode_encode [of y "[]"] by simp

lemma encode_prefix_free: "valid x \<Longrightarrow> valid y \<Longrightarrow> \<not> strict_prefix (encode x) (encode y)"
  using decode_encode [of x "[]"] decode_torn [of y "encode x"] encode_not_Nil [of x] by auto

end

text \<open>The loop over a stream: \<open>act\<close> is what it does with a frame.\<close>

locale frame_log = framing encode decode valid torn
  for encode :: "'a \<Rightarrow> bytes" and decode :: "bytes \<Rightarrow> 'e + ('a \<times> bytes)" and valid torn +
  fixes act :: "'a \<Rightarrow> 's \<Rightarrow> 's"
    and run :: "bytes \<Rightarrow> 's \<Rightarrow> 'e option \<times> 's"
  assumes run_end: "run [] st = (None, st)"
    and run_frame: "s \<noteq> [] \<Longrightarrow> decode s = Inr (x, rest) \<Longrightarrow> run s st = run rest (act x st)"
    and run_stop: "s \<noteq> [] \<Longrightarrow> decode s = Inl e \<Longrightarrow> run s st = (Some e, st)"
begin

lemma run_frames:
  "list_all valid xs \<Longrightarrow> run (concat (map encode xs) @ rest) st = run rest (fold act xs st)"
  by (induction xs arbitrary: st) (simp_all add: run_frame decode_encode encode_not_Nil)

lemma run_log: "list_all valid xs \<Longrightarrow> run (concat (map encode xs)) st = (None, fold act xs st)"
  using run_frames [of xs "[]" st] by (simp add: run_end)

lemma run_torn:
  assumes "list_all valid xs" and "valid x" and "strict_prefix q (encode x)"
  shows "\<exists>e. run (concat (map encode xs) @ q) st = (e, fold act xs st) \<and> (\<forall>err. e = Some err \<longrightarrow> torn err)"
proof (cases "q = []")
  case True
  then show ?thesis using run_log [OF assms(1)] by simp
next
  case False
  with decode_torn [OF assms(2,3)] obtain e where "decode q = Inl e" "torn e" by blast
  with False run_frames [OF assms(1), of q st] run_stop [of q e "fold act xs st"] show ?thesis by simp
qed

text \<open>Whatever prefix of the log is left, the loop performs a prefix of its actions.\<close>

lemma run_prefix:
  assumes "list_all valid xs" and "prefix p (concat (map encode xs))"
  shows "\<exists>k e. k \<le> length xs \<and> concat (map encode (take k xs)) = take (length (concat (map encode (take k xs)))) p \<and>
    run p st = (e, fold act (take k xs) st) \<and> (\<forall>err. e = Some err \<longrightarrow> torn err)"
proof -
  from prefix_concat [OF assms(2)] obtain k q where k: "k \<le> length xs"
    and p: "p = concat (map encode (take k xs)) @ q"
    and q: "q = [] \<or> k < length xs \<and> strict_prefix q (map encode xs ! k)"
    by (auto simp: take_map)
  have v: "list_all valid (take k xs)" using assms(1) by (auto simp: list_all_iff dest: in_set_takeD)
  have "\<exists>e. run p st = (e, fold act (take k xs) st) \<and> (\<forall>err. e = Some err \<longrightarrow> torn err)"
    using q
  proof
    assume "q = []"
    then show ?thesis using run_log [OF v] by (simp add: p)
  next
    assume "k < length xs \<and> strict_prefix q (map encode xs ! k)"
    then have "valid (xs ! k)" "strict_prefix q (encode (xs ! k))" using assms(1) by (auto simp: list_all_length)
    from run_torn [OF v this] show ?thesis by (simp add: p)
  qed
  with k p show ?thesis by auto
qed

end

end
