(* ===== verification/Codec.thy ===== *)
theory Codec
  imports Framing DnsTypes
begin

text \<open>
  \<open>internal/codec/codec.go\<close>: the binary form of a domain with its record sets, in the
  write-ahead log and in snapshots.  The encoder packs a record into a reused buffer at
  running offsets; what it writes is shown to be the plain concatenation of the fields,
  whatever the buffer held before.  The decoder reads from a stream and feeds an optional
  checksum.
\<close>

section \<open>Errors\<close>

text \<open>The error identities of the persistence packages, as \<open>errors.Is\<close> tells them apart.\<close>

datatype persist_error =
    EOF
  | ErrUnexpectedEOF
  | codec_ErrCapacityExceeded
  | codec_ErrCorruptedData
  | wal_ErrCorruptedData
  | wal_ErrCapacityExceeded
  | ErrInvalidOpcode
  | ErrTruncated
  | ErrInvalidMagic
  | ErrUnsupportedVer
  | ErrChecksumFailed
  | snap_ErrCorruptedData
  | snap_ErrCapacityExceeded
  | snap_ErrSizeLimit
  | ErrNotExist
  | ErrUncleanState
  | ErrCompactionThresholdTooLow
  | ErrCompactionIntervalTooLow

definition is_eof :: "persist_error \<Rightarrow> bool" where
  "is_eof e \<longleftrightarrow> e = EOF \<or> e = ErrUnexpectedEOF"

abbreviation MaxDomainLen :: nat where "MaxDomainLen \<equiv> 255"
abbreviation MaxRecordsPerDomain :: nat where "MaxRecordsPerDomain \<equiv> 4096"
abbreviation MaxRDataCount :: nat where "MaxRDataCount \<equiv> 4096"
abbreviation MaxRDataLen :: nat where "MaxRDataLen \<equiv> 65535"
abbreviation maxFrameSize :: nat where "maxFrameSize \<equiv> 10 * 1024 * 1024"

section \<open>The encoder\<close>

text \<open>\<open>e_w\<close> is what has been written to the underlying writer, \<open>e_hash\<close> the running checksum if
  there is one, \<open>e_buf\<close> the backing array of the reused buffer, stale bytes included.\<close>

record Encoder =
  e_w :: bytes
  e_hash :: "u32 option"
  e_buf :: bytes

definition NewEncoder :: "bytes \<Rightarrow> u32 option \<Rightarrow> Encoder" where
  "NewEncoder w h = \<lparr>e_w = w, e_hash = h, e_buf = replicate 512 0\<rparr>"

definition Encoder_Reset :: "Encoder \<Rightarrow> bytes \<Rightarrow> u32 option \<Rightarrow> Encoder" where
  "Encoder_Reset e w h = e\<lparr>e_w := w, e_hash := h\<rparr>"

fun rdata_size :: "nat \<Rightarrow> bytes list \<Rightarrow> persist_error + nat" where
  "rdata_size frameSize [] = Inr frameSize"
| "rdata_size frameSize (rData # rest) =
     (if length rData > MaxRDataLen then Inl codec_ErrCapacityExceeded
      else (let frameSize = frameSize + (2 + length rData) in
            if frameSize > maxFrameSize then Inl codec_ErrCapacityExceeded
            else rdata_size frameSize rest))"

fun records_size :: "nat \<Rightarrow> RRSets \<Rightarrow> persist_error + nat" where
  "records_size frameSize [] = Inr frameSize"
| "records_size frameSize (record # rest) =
     (if length (RData record) > MaxRDataCount then Inl codec_ErrCapacityExceeded
      else res_bind (rdata_size (frameSize + 8) (RData record)) (\<lambda>frameSize. records_size frameSize rest))"

definition calculateFrameSize :: "string \<Rightarrow> RRSets \<Rightarrow> persist_error + nat" where
  "calculateFrameSize domain records =
     (if length domain > MaxDomainLen then Inl codec_ErrCapacityExceeded
      else if length records > MaxRecordsPerDomain then Inl codec_ErrCapacityExceeded
      else records_size (2 + length domain + 2) records)"

fun pack_rdata :: "bytes \<Rightarrow> nat \<Rightarrow> bytes list \<Rightarrow> bytes \<times> nat" where
  "pack_rdata b offset [] = (b, offset)"
| "pack_rdata b offset (rData # rest) =
     (let b = put16_at b offset (word_of_nat (length rData));
          b = copy_at b (offset + 2) rData
      in pack_rdata b (offset + (2 + length rData)) rest)"

fun pack_records :: "bytes \<Rightarrow> nat \<Rightarrow> RRSets \<Rightarrow> bytes \<times> nat" where
  "pack_records b offset [] = (b, offset)"
| "pack_records b offset (record # rest) =
     (let b = put16_at b offset (rr_Type record);
          b = put32_at b (offset + 2) (TTL record);
          b = put16_at b (offset + 6) (word_of_nat (length (RData record)));
          (b, offset) = pack_rdata b (offset + 8) (RData record)
      in pack_records b offset rest)"

definition WriteRecord :: "Encoder \<Rightarrow> string \<Rightarrow> RRSets \<Rightarrow> persist_error + Encoder" where
  "WriteRecord e domain records =
     res_bind (calculateFrameSize domain records) (\<lambda>frameSize.
       (let buf = (if length (e_buf e) < frameSize then replicate frameSize 0 else e_buf e);
            b = take frameSize buf;
            b = put16_at b 0 (word_of_nat (length domain));
            b = copy_at b 2 (bytes_of domain);
            offset = 2 + length domain;
            b = put16_at b offset (word_of_nat (length records));
            (b, offset) = pack_records b (offset + 2) records
        in Inr \<lparr>e_w = e_w e @ b,
                e_hash = map_option (\<lambda>h. crc_write h b) (e_hash e),
                e_buf = b @ drop frameSize buf\<rparr>))"

section \<open>The decoder\<close>

text \<open>\<open>io.ReadFull\<close> on a stream that holds the bytes \<open>s\<close> and then ends.\<close>

definition ReadFull :: "bytes \<Rightarrow> nat \<Rightarrow> persist_error + (bytes \<times> bytes)" where
  "ReadFull s n =
     (if n \<le> length s then Inr (take n s, drop n s)
      else if s = [] then Inl EOF else Inl ErrUnexpectedEOF)"

record Decoder =
  d_r :: bytes
  d_hash :: "u32 option"

definition readBytes :: "Decoder \<Rightarrow> nat \<Rightarrow> persist_error + (bytes \<times> Decoder)" where
  "readBytes d n =
     res_bind (ReadFull (d_r d) n) (\<lambda>(p, r).
       Inr (p, \<lparr>d_r = r, d_hash = map_option (\<lambda>h. crc_write h p) (d_hash d)\<rparr>))"

definition readUint16 :: "Decoder \<Rightarrow> persist_error + (u16 \<times> Decoder)" where
  "readUint16 d = res_bind (readBytes d 2) (\<lambda>(p, d). Inr (get16 p, d))"

definition readString :: "nat \<Rightarrow> Decoder \<Rightarrow> persist_error + (string \<times> Decoder)" where
  "readString n d = res_bind (readBytes d n) (\<lambda>(p, d). Inr (string_of p, d))"

fun read_rdata :: "nat \<Rightarrow> Decoder \<Rightarrow> persist_error + (bytes list \<times> Decoder)" where
  "read_rdata 0 d = Inr ([], d)"
| "read_rdata (Suc n) d =
     res_bind (readUint16 d) (\<lambda>(payloadLen, d).
       if unat payloadLen > MaxRDataLen then Inl codec_ErrCorruptedData
       else res_bind (readBytes d (unat payloadLen)) (\<lambda>(wireBytes, d).
         res_bind (read_rdata n d) (\<lambda>(rest, d). Inr (wireBytes # rest, d))))"

definition readRRSet :: "Decoder \<Rightarrow> persist_error + (RRSet \<times> Decoder)" where
  "readRRSet d =
     res_bind (readBytes d 8) (\<lambda>(scratch, d).
       (let qType = get16 (sub_slice scratch 0 2);
            ttl = get32 (sub_slice scratch 2 6);
            rDataCount = get16 (sub_slice scratch 6 8)
        in if unat rDataCount > MaxRDataCount then Inl codec_ErrCorruptedData
           else res_bind (read_rdata (unat rDataCount) d) (\<lambda>(rData, d).
             Inr (\<lparr>RData = rData, TTL = ttl, rr_Type = qType, rr_Class = ClassIN\<rparr>, d))))"

fun read_records :: "nat \<Rightarrow> Decoder \<Rightarrow> persist_error + (RRSets \<times> Decoder)" where
  "read_records 0 d = Inr ([], d)"
| "read_records (Suc n) d =
     res_bind (readRRSet d) (\<lambda>(record, d).
       res_bind (read_records n d) (\<lambda>(rest, d). Inr (record # rest, d)))"

definition ReadRecord :: "Decoder \<Rightarrow> persist_error + ((string \<times> RRSets) \<times> Decoder)" where
  "ReadRecord d =
     res_bind (readUint16 d) (\<lambda>(domainLen, d).
       if unat domainLen > MaxDomainLen then Inl codec_ErrCorruptedData
       else res_bind (readString (unat domainLen) d) (\<lambda>(domain, d).
         res_bind (readUint16 d) (\<lambda>(recordsCount, d).
           if unat recordsCount > MaxRecordsPerDomain then Inl codec_ErrCorruptedData
           else res_bind (read_records (unat recordsCount) d) (\<lambda>(records, d).
             Inr ((domain, records), d)))))"

section \<open>What the encoder writes\<close>

definition enc_rdata :: "bytes list \<Rightarrow> bytes" where
  "enc_rdata rds = concat (map (\<lambda>rd. put16 (word_of_nat (length rd)) @ rd) rds)"

definition enc_rrset :: "RRSet \<Rightarrow> bytes" where
  "enc_rrset r = put16 (rr_Type r) @ put32 (TTL r) @ put16 (word_of_nat (length (RData r))) @ enc_rdata (RData r)"

definition enc_record :: "string \<times> RRSets \<Rightarrow> bytes" where
  "enc_record dr = put16 (word_of_nat (length (fst dr))) @ bytes_of (fst dr) @
     put16 (word_of_nat (length (snd dr))) @ concat (map enc_rrset (snd dr))"

lemma enc_rdata_simps [simp]:
  "enc_rdata [] = []" "enc_rdata (rd # rds) = put16 (word_of_nat (length rd)) @ rd @ enc_rdata rds"
  by (simp_all add: enc_rdata_def)

lemma length_enc_rrset [simp]: "length (enc_rrset r) = 8 + length (enc_rdata (RData r))"
  by (simp add: enc_rrset_def)

text \<open>Offsets stay in the form of the source.\<close>

declare add_2_eq_Suc [simp del] add_2_eq_Suc' [simp del]

lemma copy_at_Nil [simp]: "off \<le> length b \<Longrightarrow> copy_at b off [] = b"
  by (simp add: copy_at_def)

lemma pack_rdata_eq:
  "off + length (enc_rdata rds) \<le> length b \<Longrightarrow>
   pack_rdata b off rds = (copy_at b off (enc_rdata rds), off + length (enc_rdata rds))"
proof (induction rds arbitrary: b off)
  case (Cons rd rds)
  let ?h = "put16 (word_of_nat (length rd))"
  have 1: "copy_at (copy_at b off ?h) (off + 2) rd = copy_at b off (?h @ rd)"
    using copy_at_append [of off ?h rd b] Cons.prems by simp
  have 2: "copy_at (copy_at b off (?h @ rd)) (off + (2 + length rd)) (enc_rdata rds) = copy_at b off (enc_rdata (rd # rds))"
    using copy_at_append [of off "?h @ rd" "enc_rdata rds" b] Cons.prems by (simp add: add.assoc)
  show ?case
    using Cons.IH [of "off + (2 + length rd)" "copy_at b off (?h @ rd)"] Cons.prems 2
    by (simp add: put16_at_def 1 Let_def add.assoc)
qed simp

lemma pack_records_eq:
  "off + length (concat (map enc_rrset rs)) \<le> length b \<Longrightarrow>
   pack_records b off rs = (copy_at b off (concat (map enc_rrset rs)), off + length (concat (map enc_rrset rs)))"
proof (induction rs arbitrary: b off)
  case (Cons r rs)
  let ?t = "put16 (rr_Type r)" and ?l = "put32 (TTL r)" and ?n = "put16 (word_of_nat (length (RData r)))"
  let ?rest = "concat (map enc_rrset rs)"
  have fit: "off + 8 + length (enc_rdata (RData r)) + length ?rest \<le> length b"
    using Cons.prems by simp
  have 1: "copy_at (copy_at (copy_at b off ?t) (off + 2) ?l) (off + 6) ?n = copy_at b off (?t @ ?l @ ?n)"
    using copy_at_append [of off ?t ?l b] copy_at_append [of off "?t @ ?l" ?n b] fit by simp
  have 2: "copy_at (copy_at b off (?t @ ?l @ ?n)) (off + 8) (enc_rdata (RData r)) = copy_at b off (enc_rrset r)"
    using copy_at_append [of off "?t @ ?l @ ?n" "enc_rdata (RData r)" b] fit by (simp add: enc_rrset_def)
  have len: "length (enc_rrset r) = 8 + length (enc_rdata (RData r))" by (simp add: enc_rrset_def)
  have 3: "copy_at (copy_at b off (enc_rrset r)) (off + length (enc_rrset r)) ?rest = copy_at b off (enc_rrset r @ ?rest)"
    using fit len by (intro copy_at_append) simp
  have "pack_records b off (r # rs) = pack_records (copy_at b off (enc_rrset r)) (off + length (enc_rrset r)) rs"
    using fit by (simp add: put16_at_def put32_at_def 1 2 pack_rdata_eq len Let_def add.assoc)
  also have "\<dots> = (copy_at (copy_at b off (enc_rrset r)) (off + length (enc_rrset r)) ?rest,
      off + length (enc_rrset r) + length ?rest)"
    using fit len by (intro Cons.IH) simp
  finally show ?case using 3 by (simp add: add.assoc)
qed simp

text \<open>The records that can be written, and the size of their frames.\<close>

definition rrset_fits :: "RRSet \<Rightarrow> bool" where
  "rrset_fits r \<longleftrightarrow> length (RData r) \<le> MaxRDataCount \<and> (\<forall>rd \<in> set (RData r). length rd \<le> MaxRDataLen)"

lemma rdata_size_Inr:
  "rdata_size f rds = Inr n \<Longrightarrow>
   n = f + length (enc_rdata rds) \<and> (\<forall>rd \<in> set rds. length rd \<le> MaxRDataLen)"
  by (induction f rds rule: rdata_size.induct) (auto simp: Let_def split: if_splits)

lemma records_size_Inr:
  "records_size f rs = Inr n \<Longrightarrow> n = f + length (concat (map enc_rrset rs)) \<and> list_all rrset_fits rs"
proof (induction f rs rule: records_size.induct)
  case (2 f r rs)
  then obtain x where x: "rdata_size (f + 8) (RData r) = Inr x" "records_size x rs = Inr n"
    and c: "length (RData r) \<le> MaxRDataCount"
    by (auto simp: res_bind_eq_Inr split: if_splits)
  with 2(1) [OF _ x] rdata_size_Inr [OF x(1)] show ?case by (simp add: rrset_fits_def)
qed simp

lemma calculateFrameSize_Inr:
  "calculateFrameSize d rs = Inr n \<Longrightarrow>
   n = length (enc_record (d, rs)) \<and> length d \<le> MaxDomainLen \<and> length rs \<le> MaxRecordsPerDomain \<and>
   list_all rrset_fits rs"
  by (auto simp: calculateFrameSize_def enc_record_def split: if_splits dest!: records_size_Inr)

lemma rdata_size_total:
  "\<forall>rd \<in> set rds. length rd \<le> MaxRDataLen \<Longrightarrow> f + length (enc_rdata rds) \<le> maxFrameSize \<Longrightarrow>
   rdata_size f rds = Inr (f + length (enc_rdata rds))"
  by (induction f rds rule: rdata_size.induct) (auto simp: Let_def)

lemma records_size_total:
  "list_all rrset_fits rs \<Longrightarrow> f + length (concat (map enc_rrset rs)) \<le> maxFrameSize \<Longrightarrow>
   records_size f rs = Inr (f + length (concat (map enc_rrset rs)))"
proof (induction f rs rule: records_size.induct)
  case (2 f r rs)
  let ?f = "f + 8 + length (enc_rdata (RData r))"
  have "rdata_size (f + 8) (RData r) = Inr ?f"
    using 2(2,3) by (intro rdata_size_total) (simp_all add: rrset_fits_def)
  moreover have "records_size ?f rs = Inr (?f + length (concat (map enc_rrset rs)))"
    using 2(2,3) calculation by (intro 2(1)) (simp_all add: rrset_fits_def [of r])
  ultimately show ?case using 2(2) by (simp add: rrset_fits_def [of r])
qed simp

lemma calculateFrameSize_total:
  "length d \<le> MaxDomainLen \<Longrightarrow> length rs \<le> MaxRecordsPerDomain \<Longrightarrow> list_all rrset_fits rs \<Longrightarrow>
   length (enc_record (d, rs)) \<le> maxFrameSize \<Longrightarrow>
   calculateFrameSize d rs = Inr (length (enc_record (d, rs)))"
  using records_size_total [of rs "2 + length d + 2"] by (simp add: calculateFrameSize_def enc_record_def)

text \<open>The reused buffer never shows: the bytes written are those of the record.\<close>

lemma WriteRecord_eq:
  "WriteRecord e d rs =
     res_bind (calculateFrameSize d rs) (\<lambda>n. Inr \<lparr>e_w = e_w e @ enc_record (d, rs),
       e_hash = map_option (\<lambda>h. crc_write h (enc_record (d, rs))) (e_hash e),
       e_buf = enc_record (d, rs) @ drop n (if length (e_buf e) < n then replicate n 0 else e_buf e)\<rparr>)"
proof (cases "calculateFrameSize d rs")
  case (Inr n)
  define b where "b = take n (if length (e_buf e) < n then replicate n 0 else e_buf e)"
  let ?l = "put16 (word_of_nat (length d))" and ?c = "put16 (word_of_nat (length rs))"
  let ?r = "concat (map enc_rrset rs)"
  have n: "n = length (enc_record (d, rs))" using calculateFrameSize_Inr [OF Inr] by simp
  then have len: "length b = 2 + length d + 2 + length ?r" by (simp add: b_def enc_record_def)
  have 1: "copy_at (copy_at (copy_at b 0 ?l) 2 (bytes_of d)) (2 + length d) ?c = copy_at b 0 (?l @ bytes_of d @ ?c)"
    using copy_at_append [of 0 ?l "bytes_of d" b] copy_at_append [of 0 "?l @ bytes_of d" ?c b] len by simp
  have 2: "copy_at (copy_at b 0 (?l @ bytes_of d @ ?c)) (2 + length d + 2) ?r = enc_record (d, rs)"
    using copy_at_append [of 0 "?l @ bytes_of d @ ?c" ?r b] len copy_at_all [of "enc_record (d, rs)" b]
    by (simp add: enc_record_def add.commute add.left_commute)
  have "pack_records (copy_at b 0 (?l @ bytes_of d @ ?c)) (2 + length d + 2) rs =
      (enc_record (d, rs), 2 + length d + 2 + length ?r)"
    using pack_records_eq [of "2 + length d + 2" rs "copy_at b 0 (?l @ bytes_of d @ ?c)"] len 2 by simp
  then show ?thesis
    by (simp add: WriteRecord_def Inr put16_at_def Let_def b_def [symmetric] 1 [simplified])
qed (simp add: WriteRecord_def)

section \<open>Readers of a stream\<close>

text \<open>What a successful read promises: it took some bytes \<open>p\<close> off the front and fed exactly them
  to the checksum, it would have done the same whatever followed, and on fewer bytes it would
  have run into the end of the stream.\<close>

abbreviation fed :: "bytes \<Rightarrow> u32 option \<Rightarrow> u32 option" where
  "fed p h \<equiv> map_option (\<lambda>c. crc_write c p) h"

definition takes :: "(Decoder \<Rightarrow> persist_error + ('a \<times> Decoder)) \<Rightarrow> u32 option \<Rightarrow> bytes \<Rightarrow> 'a \<Rightarrow> bool" where
  "takes f h p x \<longleftrightarrow>
     (\<forall>t. f \<lparr>d_r = p @ t, d_hash = h\<rparr> = Inr (x, \<lparr>d_r = t, d_hash = fed p h\<rparr>)) \<and>
     (\<forall>q. strict_prefix q p \<longrightarrow> (\<exists>e. f \<lparr>d_r = q, d_hash = h\<rparr> = Inl e \<and> is_eof e))"

definition streaming :: "(Decoder \<Rightarrow> persist_error + ('a \<times> Decoder)) \<Rightarrow> bool" where
  "streaming f \<longleftrightarrow>
     (\<forall>d x d'. f d = Inr (x, d') \<longrightarrow>
        (\<exists>p. d_r d = p @ d_r d' \<and> d_hash d' = fed p (d_hash d) \<and> takes f (d_hash d) p x))"

lemma streamingD:
  "streaming f \<Longrightarrow> f d = Inr (x, d') \<Longrightarrow>
   \<exists>p. d_r d = p @ d_r d' \<and> d_hash d' = fed p (d_hash d) \<and> takes f (d_hash d) p x"
  by (simp add: streaming_def)

lemma takesI:
  assumes "streaming f" and "f \<lparr>d_r = p, d_hash = h\<rparr> = Inr (x, \<lparr>d_r = [], d_hash = h'\<rparr>)"
  shows "takes f h p x"
  using streamingD [OF assms] by simp

lemma strict_prefix_append_cases:
  assumes "strict_prefix q (a @ b)"
  obtains "strict_prefix q a" | q' where "q = a @ q'" "strict_prefix q' b"
  using assms by (cases "q = a") (auto simp: strict_prefix_def prefix_append)

lemma takes_bind:
  assumes f: "takes f h p x" and g: "takes (g x) (fed p h) q y"
  shows "takes (\<lambda>d. res_bind (f d) (\<lambda>(x, d). g x d)) h (p @ q) y"
  unfolding takes_def
proof (intro conjI allI impI)
  fix t
  show "res_bind (f \<lparr>d_r = (p @ q) @ t, d_hash = h\<rparr>) (\<lambda>(x, d). g x d) =
      Inr (y, \<lparr>d_r = t, d_hash = fed (p @ q) h\<rparr>)"
    using f g by (simp add: takes_def option.map_comp comp_def)
next
  fix r
  assume "strict_prefix r (p @ q)"
  then show "\<exists>e. res_bind (f \<lparr>d_r = r, d_hash = h\<rparr>) (\<lambda>(x, d). g x d) = Inl e \<and> is_eof e"
  proof (cases rule: strict_prefix_append_cases)
    case 1
    then show ?thesis using f by (force simp: takes_def)
  next
    case (2 q')
    then show ?thesis using f g by (simp add: takes_def)
  qed
qed

lemma streaming_bind:
  assumes f: "streaming f" and g: "\<And>x. streaming (g x)"
  shows "streaming (\<lambda>d. res_bind (f d) (\<lambda>(x, d). g x d))"
  unfolding streaming_def
proof (intro allI impI)
  fix d y d'
  assume "res_bind (f d) (\<lambda>(x, d). g x d) = Inr (y, d')"
  then obtain x d1 where 1: "f d = Inr (x, d1)" and 2: "g x d1 = Inr (y, d')"
    by (auto simp: res_bind_eq_Inr)
  from streamingD [OF f 1] obtain p where p: "d_r d = p @ d_r d1" "d_hash d1 = fed p (d_hash d)" "takes f (d_hash d) p x" by blast
  from streamingD [OF g 2] obtain q where q: "d_r d1 = q @ d_r d'" "d_hash d' = fed q (d_hash d1)" "takes (g x) (d_hash d1) q y" by blast
  from takes_bind [OF p(3), of g q y] p q
  show "\<exists>p. d_r d = p @ d_r d' \<and> d_hash d' = fed p (d_hash d) \<and>
      takes (\<lambda>d. res_bind (f d) (\<lambda>(x, d). g x d)) (d_hash d) p y"
    by (intro exI [of _ "p @ q"]) (simp add: option.map_comp comp_def)
qed

lemma streaming_return: "streaming (\<lambda>d. Inr (x, d))"
  by (auto simp: streaming_def takes_def option.map_ident)

lemma streaming_fail: "streaming (\<lambda>d. Inl e)"
  by (simp add: streaming_def)

lemma streaming_if: "streaming f \<Longrightarrow> streaming g \<Longrightarrow> streaming (\<lambda>d. if b then f d else g d)"
  by (cases b) simp_all

lemma streaming_readBytes: "streaming (\<lambda>d. readBytes d n)"
  unfolding streaming_def
proof (intro allI impI)
  fix d x d'
  assume "readBytes d n = Inr (x, d')"
  then have n: "n \<le> length (d_r d)" and x: "x = take n (d_r d)"
    and d': "d' = \<lparr>d_r = drop n (d_r d), d_hash = fed x (d_hash d)\<rparr>"
    by (auto simp: readBytes_def ReadFull_def split: if_splits)
  have "takes (\<lambda>d. readBytes d n) (d_hash d) x x"
    using n by (auto simp: takes_def readBytes_def ReadFull_def x is_eof_def dest: prefix_length_less)
  then show "\<exists>p. d_r d = p @ d_r d' \<and> d_hash d' = fed p (d_hash d) \<and> takes (\<lambda>d. readBytes d n) (d_hash d) p x"
    by (intro exI [of _ x]) (simp add: x d')
qed

lemma streaming_readUint16: "streaming readUint16"
  using streaming_bind [OF streaming_readBytes [of 2], of "\<lambda>p d. Inr (get16 p, d)"]
  by (simp add: streaming_return readUint16_def [abs_def])

lemma streaming_readString: "streaming (readString n)"
  using streaming_bind [OF streaming_readBytes [of n], of "\<lambda>p d. Inr (string_of p, d)"]
  by (simp add: streaming_return readString_def [abs_def])

lemmas streaming_intros = streaming_bind streaming_return streaming_fail streaming_if
  streaming_readBytes streaming_readUint16 streaming_readString

lemma streaming_read_rdata: "streaming (read_rdata n)"
proof (induction n)
  case 0
  have "read_rdata 0 = (\<lambda>d. Inr ([], d))" by (simp add: fun_eq_iff)
  then show ?case by (simp only: streaming_return)
next
  case (Suc n)
  have "read_rdata (Suc n) = (\<lambda>d. res_bind (readUint16 d) (\<lambda>(payloadLen, d).
       if unat payloadLen > MaxRDataLen then Inl codec_ErrCorruptedData
       else res_bind (readBytes d (unat payloadLen)) (\<lambda>(wireBytes, d).
         res_bind (read_rdata n d) (\<lambda>(rest, d). Inr (wireBytes # rest, d)))))"
    by (simp add: fun_eq_iff)
  then show ?case by (simp only:) (intro streaming_intros Suc)
qed

lemma streaming_readRRSet: "streaming readRRSet"
  unfolding readRRSet_def [abs_def] Let_def by (intro streaming_intros streaming_read_rdata)

lemma streaming_read_records: "streaming (read_records n)"
proof (induction n)
  case 0
  have "read_records 0 = (\<lambda>d. Inr ([], d))" by (simp add: fun_eq_iff)
  then show ?case by (simp only: streaming_return)
next
  case (Suc n)
  have "read_records (Suc n) = (\<lambda>d. res_bind (readRRSet d) (\<lambda>(record, d).
       res_bind (read_records n d) (\<lambda>(rest, d). Inr (record # rest, d))))"
    by (simp add: fun_eq_iff)
  then show ?case by (simp only:) (intro streaming_intros streaming_readRRSet Suc)
qed

lemma streaming_ReadRecord: "streaming ReadRecord"
  unfolding ReadRecord_def [abs_def] by (intro streaming_intros streaming_read_records)

section \<open>Reading back\<close>

lemma unat_word16: "n \<le> 65535 \<Longrightarrow> unat (word_of_nat n :: u16) = n"
  by (simp add: unat_of_nat)

lemmas fed_simps = option.map_comp comp_def

lemma readBytes_append: "n = length p \<Longrightarrow> readBytes \<lparr>d_r = p @ t, d_hash = h\<rparr> n = Inr (p, \<lparr>d_r = t, d_hash = fed p h\<rparr>)"
  by (simp add: readBytes_def ReadFull_def)

lemma readUint16_put16: "readUint16 \<lparr>d_r = put16 v @ t, d_hash = h\<rparr> = Inr (v, \<lparr>d_r = t, d_hash = fed (put16 v) h\<rparr>)"
  by (simp add: readUint16_def readBytes_append)

lemma read_rdata_enc:
  "\<forall>rd \<in> set rds. length rd \<le> MaxRDataLen \<Longrightarrow>
   read_rdata (length rds) \<lparr>d_r = enc_rdata rds @ t, d_hash = h\<rparr> = Inr (rds, \<lparr>d_r = t, d_hash = fed (enc_rdata rds) h\<rparr>)"
  by (induction rds arbitrary: h) (simp_all add: readUint16_put16 readBytes_append unat_word16 fed_simps option.map_ident)

text \<open>The class is not stored: every record set comes back in class IN.\<close>

definition in_class :: "RRSet \<Rightarrow> RRSet" where
  "in_class r = r\<lparr>rr_Class := ClassIN\<rparr>"

lemma readRRSet_enc:
  assumes "rrset_fits r"
  shows "readRRSet \<lparr>d_r = enc_rrset r @ t, d_hash = h\<rparr> = Inr (in_class r, \<lparr>d_r = t, d_hash = fed (enc_rrset r) h\<rparr>)"
proof -
  let ?s = "put16 (rr_Type r) @ put32 (TTL r) @ put16 (word_of_nat (length (RData r)))"
  have e: "enc_rrset r @ t = ?s @ enc_rdata (RData r) @ t" by (simp add: enc_rrset_def)
  have "readBytes \<lparr>d_r = ?s @ enc_rdata (RData r) @ t, d_hash = h\<rparr> 8 =
      Inr (?s, \<lparr>d_r = enc_rdata (RData r) @ t, d_hash = fed ?s h\<rparr>)"
    by (rule readBytes_append) simp
  moreover have "sub_slice ?s 0 2 = put16 (rr_Type r)" "sub_slice ?s 2 6 = put32 (TTL r)"
    "sub_slice ?s 6 8 = put16 (word_of_nat (length (RData r)))"
    by (simp_all add: sub_slice_def)
  ultimately show ?thesis
    using assms unfolding e readRRSet_def
    by (simp add: rrset_fits_def unat_word16 read_rdata_enc in_class_def fed_simps enc_rrset_def)
qed

lemma read_records_enc:
  "list_all rrset_fits rs \<Longrightarrow>
   read_records (length rs) \<lparr>d_r = concat (map enc_rrset rs) @ t, d_hash = h\<rparr> =
     Inr (map in_class rs, \<lparr>d_r = t, d_hash = fed (concat (map enc_rrset rs)) h\<rparr>)"
  by (induction rs arbitrary: h) (simp_all add: readRRSet_enc fed_simps option.map_ident)

lemma ReadRecord_enc:
  assumes "length d \<le> MaxDomainLen" "length rs \<le> MaxRecordsPerDomain" "list_all rrset_fits rs"
  shows "ReadRecord \<lparr>d_r = enc_record (d, rs) @ t, d_hash = h\<rparr> =
    Inr ((d, map in_class rs), \<lparr>d_r = t, d_hash = fed (enc_record (d, rs)) h\<rparr>)"
proof -
  have "readString (length d) \<lparr>d_r = bytes_of d @ u, d_hash = g\<rparr> = Inr (d, \<lparr>d_r = u, d_hash = fed (bytes_of d) g\<rparr>)" for u g
    by (simp add: readString_def readBytes_append)
  then show ?thesis
    using assms by (simp add: ReadRecord_def enc_record_def readUint16_put16 unat_word16 read_records_enc fed_simps)
qed

lemma takes_ReadRecord:
  assumes "length d \<le> MaxDomainLen" "length rs \<le> MaxRecordsPerDomain" "list_all rrset_fits rs"
  shows "takes ReadRecord h (enc_record (d, rs)) (d, map in_class rs)"
  using ReadRecord_enc [OF assms, of "[]" h] by (intro takesI [OF streaming_ReadRecord]) simp

text \<open>What the encoder writes, the decoder reads, and a torn record is noticed.  A successful
  \<open>WriteRecord\<close> appends bytes from which \<open>ReadRecord\<close> takes the same domain and record sets (in
  class IN), whatever follows them, feeding the same bytes to the checksum; every proper
  prefix of them ends in an end-of-file error.\<close>

theorem WriteRecord_ReadRecord:
  assumes "WriteRecord e domain records = Inr e'"
  shows "\<exists>frame. e_w e' = e_w e @ frame \<and> e_hash e' = fed frame (e_hash e) \<and>
    (\<forall>h rest. ReadRecord \<lparr>d_r = frame @ rest, d_hash = h\<rparr> =
       Inr ((domain, map in_class records), \<lparr>d_r = rest, d_hash = fed frame h\<rparr>)) \<and>
    (\<forall>h q. strict_prefix q frame \<longrightarrow> (\<exists>err. ReadRecord \<lparr>d_r = q, d_hash = h\<rparr> = Inl err \<and> is_eof err))"
proof -
  obtain n where n: "calculateFrameSize domain records = Inr n"
    using assms by (auto simp: WriteRecord_eq res_bind_eq_Inr)
  note c = calculateFrameSize_Inr [OF n]
  then have "takes ReadRecord h (enc_record (domain, records)) (domain, map in_class records)" for h
    by (intro takes_ReadRecord) simp_all
  then show ?thesis
    using assms n by (intro exI [of _ "enc_record (domain, records)"]) (auto simp: WriteRecord_eq takes_def)
qed

definition sample_records :: RRSets where
  "sample_records = [\<lparr>RData = [[192, 0, 2, 1]], TTL = 60, rr_Type = TypeA, rr_Class = ClassIN\<rparr>]"

theorem WriteRecord_ReadRecord_witness:
  "\<exists>e'. WriteRecord (NewEncoder [] None) ''a'' sample_records = Inr e' \<and>
   (\<exists>frame. e_w e' = [] @ frame \<and>
     (\<forall>h rest. ReadRecord \<lparr>d_r = frame @ rest, d_hash = h\<rparr> =
       Inr ((''a'', sample_records), \<lparr>d_r = rest, d_hash = fed frame h\<rparr>)))"
proof -
  have "calculateFrameSize ''a'' sample_records = Inr 19"
    by (simp add: calculateFrameSize_def sample_records_def)
  then obtain e' where e': "WriteRecord (NewEncoder [] None) ''a'' sample_records = Inr e'"
    by (simp add: WriteRecord_eq)
  have "map in_class sample_records = sample_records" by (simp add: sample_records_def in_class_def)
  with e' WriteRecord_ReadRecord [OF e'] show ?thesis by (auto simp: NewEncoder_def)
qed

end
