(* ===== verification/RecordStore.thy ===== *)
theory RecordStore
  imports DnsTypes
begin

text \<open>
  The contract between the zone tree and the code that mutates it (write-ahead log replay,
  snapshot load, batch commit, dynamic update): a tree is a finite map from keys to record
  sets, and each mutation changes it at one key.  What clients derive from the contract is
  proved once in the locale: the effect of a sequence of mutations depends, at every key, on
  the last mutation of that key only, so replaying a log over a state that already contains
  a part of it is harmless.
\<close>

section \<open>Sequences of mutations\<close>

text \<open>The two mutations of the log (\<open>opUpsert\<close> and \<open>opDelete\<close> of \<open>internal/wal/wal.go\<close>).\<close>

datatype mutation = Upsert string RRSets | DeleteDomain string

fun mutation_domain :: "mutation \<Rightarrow> string" where
  "mutation_domain (Upsert d rs) = d"
| "mutation_domain (DeleteDomain d) = d"

fun mutation_value :: "mutation \<Rightarrow> RRSets option" where
  "mutation_value (Upsert d rs) = (if rs = [] then None else Some rs)"
| "mutation_value (DeleteDomain d) = None"

fun apply_mutation ::
  "('t \<Rightarrow> string \<Rightarrow> RRSets \<Rightarrow> 't) \<Rightarrow> ('t \<Rightarrow> string \<Rightarrow> 't) \<Rightarrow> 't \<Rightarrow> mutation \<Rightarrow> 't" where
  "apply_mutation upsert delete t (Upsert d rs) = upsert t d rs"
| "apply_mutation upsert delete t (DeleteDomain d) = delete t d"

definition run_mutations ::
  "('t \<Rightarrow> string \<Rightarrow> RRSets \<Rightarrow> 't) \<Rightarrow> ('t \<Rightarrow> string \<Rightarrow> 't) \<Rightarrow> 't \<Rightarrow> mutation list \<Rightarrow> 't" where
  "run_mutations upsert delete t ms = foldl (apply_mutation upsert delete) t ms"

lemma run_mutations_Nil [simp]: "run_mutations u d t [] = t"
  and run_mutations_Cons [simp]:
    "run_mutations u d t (m # ms) = run_mutations u d (apply_mutation u d t m) ms"
  and run_mutations_append:
    "run_mutations u d t (ms @ ms') = run_mutations u d (run_mutations u d t ms) ms'"
  by (simp_all add: run_mutations_def)

text \<open>Their meaning on maps.\<close>

definition map_mutations ::
  "(string \<Rightarrow> 'k) \<Rightarrow> ('k \<Rightarrow> RRSets option) \<Rightarrow> mutation list \<Rightarrow> 'k \<Rightarrow> RRSets option" where
  "map_mutations key =
     foldl (\<lambda>m op. m(key (mutation_domain op) := mutation_value op))"

lemma map_mutations_simps [simp]:
  "map_mutations key m [] = m"
  "map_mutations key m (op # ops) =
     map_mutations key (m(key (mutation_domain op) := mutation_value op)) ops"
  "map_mutations key m (ops @ ops') = map_mutations key (map_mutations key m ops) ops'"
  by (simp_all add: map_mutations_def)

text \<open>The last mutation of a key decides its value.\<close>

fun last_mutation :: "(string \<Rightarrow> 'k) \<Rightarrow> 'k \<Rightarrow> mutation list \<Rightarrow> mutation option" where
  "last_mutation key k [] = None"
| "last_mutation key k (op # ops) =
     (case last_mutation key k ops of
        Some op' \<Rightarrow> Some op'
      | None \<Rightarrow> if key (mutation_domain op) = k then Some op else None)"

lemma map_mutations_last:
  "map_mutations key m ops k =
     (case last_mutation key k ops of None \<Rightarrow> m k | Some op \<Rightarrow> mutation_value op)"
  by (induction ops arbitrary: m) (auto split: option.split)

lemma last_mutation_Some: "last_mutation key k ops = Some op \<Longrightarrow> op \<in> set ops \<and> key (mutation_domain op) = k"
  by (induction ops) (auto split: option.splits if_splits)

lemma last_mutation_None: "last_mutation key k ops = None \<longleftrightarrow> (\<forall>op \<in> set ops. key (mutation_domain op) \<noteq> k)"
  by (induction ops) (auto split: option.splits)

text \<open>Inserting a complete list of the entries of a map into an empty one rebuilds it.\<close>

lemma map_mutations_rebuild:
  assumes "\<And>d rs. (d, rs) \<in> set es \<Longrightarrow> rs \<noteq> [] \<and> m (key d) = Some rs"
    and "\<And>k. m k \<noteq> None \<Longrightarrow> \<exists>(d, rs) \<in> set es. key d = k"
  shows "map_mutations key Map.empty (map (\<lambda>(d, rs). Upsert d rs) es) = m"
proof
  fix k
  show "map_mutations key Map.empty (map (\<lambda>(d, rs). Upsert d rs) es) k = m k"
  proof (cases "last_mutation key k (map (\<lambda>(d, rs). Upsert d rs) es)")
    case None
    then have "m k = None" using assms(2) [of k] by (fastforce simp: last_mutation_None)
    with None show ?thesis by (simp add: map_mutations_last)
  next
    case (Some op)
    from last_mutation_Some [OF this] obtain d rs where "(d, rs) \<in> set es" "op = Upsert d rs" "key d = k"
      by auto
    with assms(1) Some show ?thesis by (auto simp: map_mutations_last)
  qed
qed

lemma last_mutation_append:
  "last_mutation key k (ops @ ops') =
     (case last_mutation key k ops' of Some op \<Rightarrow> Some op | None \<Rightarrow> last_mutation key k ops)"
  by (induction ops) (auto split: option.split)

lemma map_mutations_absorb:
  "map_mutations key (map_mutations key m ops) (ops @ ops') = map_mutations key m (ops @ ops')"
  unfolding fun_eq_iff map_mutations_last last_mutation_append by (auto split: option.split)

lemma map_mutations_finite: "finite (dom m) \<Longrightarrow> finite (dom (map_mutations key m ops))"
  by (induction ops arbitrary: m) simp_all

section \<open>The contract\<close>

locale record_store =
  fixes key :: "string \<Rightarrow> 'k"
    and empty :: 't
    and upsert :: "'t \<Rightarrow> string \<Rightarrow> RRSets \<Rightarrow> 't"
    and delete :: "'t \<Rightarrow> string \<Rightarrow> 't"
    and get :: "'t \<Rightarrow> string \<Rightarrow> RRSets option"
    and count :: "'t \<Rightarrow> int"
    and invar :: "'t \<Rightarrow> bool"
    and cont :: "'t \<Rightarrow> 'k \<Rightarrow> RRSets option"
  assumes invar_empty: "invar empty"
    and cont_empty: "cont empty = Map.empty"
    and invar_upsert: "invar t \<Longrightarrow> invar (upsert t d rs)"
    and cont_upsert: "invar t \<Longrightarrow> cont (upsert t d rs) = (cont t)(key d := if rs = [] then None else Some rs)"
    and invar_delete: "invar t \<Longrightarrow> invar (delete t d)"
    and cont_delete: "invar t \<Longrightarrow> cont (delete t d) = (cont t)(key d := None)"
    and get_cont: "invar t \<Longrightarrow> get t d = cont t (key d)"
    and count_cont: "invar t \<Longrightarrow> finite (dom (cont t)) \<and> count t = int (card (dom (cont t)))"
begin

lemma apply_step:
  assumes "invar t"
  shows "invar (apply_mutation upsert delete t m) \<and>
    cont (apply_mutation upsert delete t m) = (cont t)(key (mutation_domain m) := mutation_value m)"
  using assms
  by (cases m) (auto simp: invar_upsert invar_delete cont_upsert cont_delete)

lemma invar_run: "invar t \<Longrightarrow> invar (run_mutations upsert delete t ms)"
  by (induction ms arbitrary: t) (simp_all add: apply_step)

lemma cont_run:
  "invar t \<Longrightarrow> cont (run_mutations upsert delete t ms) = map_mutations key (cont t) ms"
  by (induction ms arbitrary: t) (simp_all add: apply_step)

lemma get_run:
  "invar t \<Longrightarrow> get (run_mutations upsert delete t ms) d =
     (case last_mutation key (key d) ms of None \<Rightarrow> get t d | Some m \<Rightarrow> mutation_value m)"
  by (simp add: get_cont invar_run cont_run map_mutations_last cong: option.case_cong)

lemma replay_absorbs:
  "invar t \<Longrightarrow>
   cont (run_mutations upsert delete (run_mutations upsert delete t ms) (ms @ ms')) =
   cont (run_mutations upsert delete t (ms @ ms'))"
  by (simp only: cont_run invar_run map_mutations_absorb)

lemma replay_absorbs_get:
  "invar t \<Longrightarrow>
   get (run_mutations upsert delete (run_mutations upsert delete t ms) (ms @ ms')) d =
   get (run_mutations upsert delete t (ms @ ms')) d"
  by (simp only: get_cont invar_run replay_absorbs)

end

end
