(* ===== verification/Wal.thy ===== *)
theory Wal
  imports Codec RecordStore
begin

text \<open>
  \<open>internal/wal/wal.go\<close>: the write-ahead log.  A frame is an opcode, a payload and the CRC32 of
  both.  The writer appends frames to a buffered file; \<open>Replay\<close> consumes a log and calls back
  for every intact frame.  Writing and replaying are shown to be inverse, also when a crash
  leaves only a prefix of the log, through the locale of framed logs.
\<close>

definition OpUpsert :: byte where "OpUpsert = 1"
definition OpDelete :: byte where "OpDelete = 2"

abbreviation checksumSize :: nat where "checksumSize \<equiv> 4"
abbreviation scratchSize :: nat where "scratchSize \<equiv> 512"

section \<open>The writer\<close>

text \<open>\<open>wal_file\<close> is what the file holds, \<open>wal_bw\<close> what the buffered writer still holds back,
  \<open>wal_ebuf\<close> the buffer of the encoder, which writes to the same buffered writer and feeds the
  same checksum.\<close>

record Writer =
  wal_file :: bytes
  wal_bw :: bytes
  wal_crc :: u32
  wal_ebuf :: bytes
  wal_scratch :: bytes

definition NewWriter :: "bytes \<Rightarrow> Writer" where
  "NewWriter file = \<lparr>wal_file = file, wal_bw = [], wal_crc = 0, wal_ebuf = replicate 512 0,
     wal_scratch = replicate scratchSize 0\<rparr>"

definition writeChecksum :: "Writer \<Rightarrow> persist_error option \<times> Writer" where
  "writeChecksum w =
     (let scratch = put32_at (wal_scratch w) 0 (wal_crc w)
      in (None, w\<lparr>wal_scratch := scratch, wal_bw := wal_bw w @ take checksumSize scratch\<rparr>))"

definition AppendUpsert :: "Writer \<Rightarrow> string \<Rightarrow> RRSets \<Rightarrow> persist_error option \<times> Writer" where
  "AppendUpsert w domain records =
     (if length domain > MaxDomainLen \<or> length records > MaxRecordsPerDomain
      then (Some wal_ErrCapacityExceeded, w)
      else
        (let scratch = (wal_scratch w)[0 := OpUpsert];
             w = w\<lparr>wal_scratch := scratch, wal_bw := wal_bw w @ take 1 scratch,
                   wal_crc := crc_write 0 (take 1 scratch)\<rparr>
         in case WriteRecord \<lparr>e_w = wal_bw w, e_hash = Some (wal_crc w), e_buf = wal_ebuf w\<rparr> domain records of
              Inl err \<Rightarrow>
                (Some (if err = codec_ErrCapacityExceeded then wal_ErrCapacityExceeded else err), w)
            | Inr enc \<Rightarrow>
                writeChecksum (w\<lparr>wal_bw := e_w enc, wal_crc := the (e_hash enc), wal_ebuf := e_buf enc\<rparr>)))"

definition AppendDelete :: "Writer \<Rightarrow> string \<Rightarrow> persist_error option \<times> Writer" where
  "AppendDelete w domain =
     (if length domain > MaxDomainLen then (Some wal_ErrCapacityExceeded, w)
      else
        (let scratch = (wal_scratch w)[0 := OpDelete];
             scratch = put16_at scratch 1 (word_of_nat (length domain));
             scratch = copy_at scratch 3 (bytes_of domain);
             payloadLen = 3 + length domain;
             sum = crc_write 0 (take payloadLen scratch);
             scratch = put32_at scratch payloadLen sum;
             totalLen = payloadLen + checksumSize
         in (None, w\<lparr>wal_crc := sum, wal_scratch := scratch, wal_bw := wal_bw w @ take totalLen scratch\<rparr>)))"

definition wal_Flush :: "Writer \<Rightarrow> Writer" where
  "wal_Flush w = w\<lparr>wal_file := wal_file w @ wal_bw w, wal_bw := []\<rparr>"

section \<open>Replay\<close>

definition normalizeEOF :: "persist_error \<Rightarrow> persist_error" where
  "normalizeEOF err =
     (if err = EOF \<or> err = ErrUnexpectedEOF then ErrTruncated
      else if err = codec_ErrCorruptedData then wal_ErrCorruptedData
      else err)"

definition verifyChecksum :: "bytes \<Rightarrow> u32 \<Rightarrow> persist_error + bytes" where
  "verifyChecksum r h =
     res_bind (ReadFull r checksumSize) (\<lambda>(scratch, r).
       if get32 scratch \<noteq> h then Inl wal_ErrCorruptedData else Inr r)"

definition replayUpsert :: "bytes \<Rightarrow> u32 \<Rightarrow> persist_error + ((string \<times> RRSets) \<times> bytes)" where
  "replayUpsert br crcHash =
     (case ReadRecord \<lparr>d_r = br, d_hash = Some crcHash\<rparr> of
        Inl err \<Rightarrow> Inl (normalizeEOF err)
      | Inr ((domain, records), dec) \<Rightarrow>
          (case verifyChecksum (d_r dec) (the (d_hash dec)) of
             Inl err \<Rightarrow> Inl (normalizeEOF err)
           | Inr br \<Rightarrow> Inr ((domain, records), br)))"

definition replayDelete :: "bytes \<Rightarrow> u32 \<Rightarrow> persist_error + (string \<times> bytes)" where
  "replayDelete br crcHash =
     (case ReadFull br 2 of
        Inl err \<Rightarrow> Inl (normalizeEOF err)
      | Inr (scratch, br) \<Rightarrow>
          (let domainLen = get16 scratch in
           if domainLen = 0 \<or> unat domainLen > MaxDomainLen then Inl wal_ErrCorruptedData
           else
             (let crcHash = crc_write crcHash scratch in
              case ReadFull br (unat domainLen) of
                Inl err \<Rightarrow> Inl (normalizeEOF err)
              | Inr (scratch, br) \<Rightarrow>
                  (case verifyChecksum br (crc_write crcHash scratch) of
                     Inl err \<Rightarrow> Inl (normalizeEOF err)
                   | Inr br \<Rightarrow> Inr (string_of scratch, br)))))"

lemma ReadFull_length: "ReadFull s n = Inr (p, r) \<Longrightarrow> s = p @ r \<and> length p = n"
  by (auto simp: ReadFull_def split: if_splits)

lemma verifyChecksum_length: "verifyChecksum r h = Inr r' \<Longrightarrow> length r = length r' + 4"
  by (auto simp: verifyChecksum_def res_bind_eq_Inr split: if_splits dest!: ReadFull_length)

lemma replayUpsert_length: "replayUpsert br c = Inr (x, br') \<Longrightarrow> length br' < length br"
  using streamingD [OF streaming_ReadRecord]
  by (fastforce simp: replayUpsert_def split: sum.splits prod.splits dest!: verifyChecksum_length)

lemma replayDelete_length: "replayDelete br c = Inr (x, br') \<Longrightarrow> length br' < length br"
  by (auto simp: replayDelete_def Let_def split: sum.splits prod.splits if_splits
      dest!: verifyChecksum_length ReadFull_length)

function Replay ::
  "(string \<Rightarrow> RRSets \<Rightarrow> 's \<Rightarrow> 's) \<Rightarrow> (string \<Rightarrow> 's \<Rightarrow> 's) \<Rightarrow> bytes \<Rightarrow> 's \<Rightarrow> persist_error option \<times> 's" where
  "Replay onUpsert onDelete r st =
     (case ReadFull r 1 of
        Inl err \<Rightarrow> if err = EOF then (None, st) else (Some (normalizeEOF err), st)
      | Inr (scratch, br) \<Rightarrow>
          (let op = scratch ! 0; crcHash = crc_write 0 scratch in
           if op = OpUpsert then
             (case replayUpsert br crcHash of
                Inl err \<Rightarrow> (Some err, st)
              | Inr ((domain, records), br) \<Rightarrow> Replay onUpsert onDelete br (onUpsert domain records st))
           else if op = OpDelete then
             (case replayDelete br crcHash of
                Inl err \<Rightarrow> (Some err, st)
              | Inr (domain, br) \<Rightarrow> Replay onUpsert onDelete br (onDelete domain st))
           else (Some ErrInvalidOpcode, st)))"
  by pat_completeness auto
termination
  by (relation "measure (\<lambda>(u, d, r, st). length r)")
     (auto dest!: ReadFull_length replayUpsert_length replayDelete_length)

declare Replay.simps [simp del]

section \<open>Frames\<close>

definition sealed :: "bytes \<Rightarrow> bytes" where
  "sealed p = p @ put32 (crc32 p)"

fun frame :: "mutation \<Rightarrow> bytes" where
  "frame (Upsert d rs) = sealed (OpUpsert # enc_record (d, rs))"
| "frame (DeleteDomain d) = sealed (OpDelete # put16 (word_of_nat (length d)) @ bytes_of d)"

text \<open>What the log can hold.\<close>

fun loggable :: "mutation \<Rightarrow> bool" where
  "loggable (Upsert d rs) \<longleftrightarrow> length d \<le> MaxDomainLen \<and> length rs \<le> MaxRecordsPerDomain \<and>
     list_all rrset_fits rs \<and> list_all (\<lambda>r. rr_Class r = ClassIN) rs"
| "loggable (DeleteDomain d) \<longleftrightarrow> d \<noteq> [] \<and> length d \<le> MaxDomainLen"

text \<open>One turn of the loop of \<open>Replay\<close>, without the callback.\<close>

definition replay_frame :: "bytes \<Rightarrow> persist_error + (mutation \<times> bytes)" where
  "replay_frame r =
     (case ReadFull r 1 of
        Inl err \<Rightarrow> Inl (normalizeEOF err)
      | Inr (scratch, br) \<Rightarrow>
          (if scratch ! 0 = OpUpsert then
             map_sum id (\<lambda>((d, rs), br). (Upsert d rs, br)) (replayUpsert br (crc_write 0 scratch))
           else if scratch ! 0 = OpDelete then
             map_sum id (\<lambda>(d, br). (DeleteDomain d, br)) (replayDelete br (crc_write 0 scratch))
           else Inl ErrInvalidOpcode))"

lemma opcodes [simp]: "OpUpsert \<noteq> OpDelete" "OpDelete \<noteq> OpUpsert"
  by (simp_all add: OpUpsert_def OpDelete_def)

lemma ReadFull_append: "n = length p \<Longrightarrow> ReadFull (p @ t) n = Inr (p, t)"
  by (simp add: ReadFull_def)

lemma ReadFull_Cons: "ReadFull (b # t) 1 = Inr ([b], t)"
  by (simp add: ReadFull_def)

lemma ReadFull_short: "length q < n \<Longrightarrow> \<exists>e. ReadFull q n = Inl e \<and> is_eof e"
  by (simp add: ReadFull_def is_eof_def)

lemma normalizeEOF_eof [simp]: "is_eof e \<Longrightarrow> normalizeEOF e = ErrTruncated"
  by (auto simp: is_eof_def normalizeEOF_def)

lemma crc_write_crc32: "crc_write (crc_write 0 [b]) p = crc32 (b # p)"
  by (simp add: crc32_def crc_write_append [symmetric] del: crc_write_append)

lemma verifyChecksum_put32:
  "verifyChecksum (put32 h @ r) h = Inr r"
  "strict_prefix q (put32 h') \<Longrightarrow> \<exists>e. verifyChecksum q h = Inl e \<and> is_eof e"
  using ReadFull_short [of q 4] prefix_length_less [of q "put32 h'"]
  by (auto simp: verifyChecksum_def ReadFull_append)

lemma upsert_frame:
  assumes "loggable (Upsert d rs)"
  shows "replay_frame (frame (Upsert d rs) @ rest) = Inr (Upsert d rs, rest)"
    and "strict_prefix q (frame (Upsert d rs)) \<Longrightarrow> q \<noteq> [] \<Longrightarrow> replay_frame q = Inl ErrTruncated"
proof -
  let ?h = "crc_write 0 [OpUpsert]" and ?p = "enc_record (d, rs)"
  have "map in_class rs = rs" using assms by (auto simp: in_class_def list_all_iff intro: map_idI)
  with takes_ReadRecord [of d rs "Some ?h"] assms have t: "takes ReadRecord (Some ?h) ?p (d, rs)" by simp
  then have ok: "ReadRecord \<lparr>d_r = ?p @ u, d_hash = Some ?h\<rparr> = Inr ((d, rs), \<lparr>d_r = u, d_hash = Some (crc32 (OpUpsert # ?p))\<rparr>)" for u
    by (simp add: takes_def crc_write_crc32)
  then show "replay_frame (frame (Upsert d rs) @ rest) = Inr (Upsert d rs, rest)"
    by (simp add: replay_frame_def sealed_def ReadFull_Cons [simplified] replayUpsert_def verifyChecksum_put32)
  assume q: "strict_prefix q (frame (Upsert d rs))" "q \<noteq> []"
  then obtain q' where q': "q = OpUpsert # q'" "strict_prefix q' (?p @ put32 (crc32 (OpUpsert # ?p)))"
    by (cases q) (auto simp: sealed_def)
  from q'(2) have "replayUpsert q' ?h = Inl ErrTruncated"
  proof (cases rule: strict_prefix_append_cases)
    case 1
    then obtain e where "ReadRecord \<lparr>d_r = q', d_hash = Some ?h\<rparr> = Inl e" "is_eof e"
      using t by (auto simp: takes_def)
    then show ?thesis by (simp add: replayUpsert_def)
  next
    case (2 r)
    then obtain e where "verifyChecksum r (crc32 (OpUpsert # ?p)) = Inl e" "is_eof e"
      using verifyChecksum_put32(2) by blast
    with 2 show ?thesis by (simp add: replayUpsert_def ok)
  qed
  then show "replay_frame q = Inl ErrTruncated"
    by (simp add: replay_frame_def q'(1) ReadFull_Cons [simplified])
qed

lemma delete_frame:
  assumes "loggable (DeleteDomain d)"
  shows "replay_frame (frame (DeleteDomain d) @ rest) = Inr (DeleteDomain d, rest)"
    and "strict_prefix q (frame (DeleteDomain d)) \<Longrightarrow> q \<noteq> [] \<Longrightarrow> replay_frame q = Inl ErrTruncated"
proof -
  let ?h = "crc_write 0 [OpDelete]" and ?l = "put16 (word_of_nat (length d))"
  let ?c = "crc32 (OpDelete # ?l @ bytes_of d)"
  have u: "unat (word_of_nat (length d) :: u16) = length d" using assms by (simp add: unat_word16)
  then have n: "word_of_nat (length d) \<noteq> (0 :: u16)" using assms by auto
  have c: "crc_write (crc_write ?h ?l) (bytes_of d) = ?c"
    using crc_write_crc32 [of OpDelete "?l @ bytes_of d"] by simp
  note ev = replayDelete_def ReadFull_append n u c Let_def
  show "replay_frame (frame (DeleteDomain d) @ rest) = Inr (DeleteDomain d, rest)"
    using assms by (simp add: replay_frame_def sealed_def ReadFull_Cons [simplified] ev verifyChecksum_put32)
  assume q: "strict_prefix q (frame (DeleteDomain d))" "q \<noteq> []"
  then obtain q' where q': "q = OpDelete # q'" "strict_prefix q' (?l @ bytes_of d @ put32 ?c)"
    by (cases q) (auto simp: sealed_def)
  from q'(2) have "replayDelete q' ?h = Inl ErrTruncated"
  proof (cases rule: strict_prefix_append_cases)
    case 1
    then show ?thesis using ReadFull_short [of q' 2] prefix_length_less [OF 1] by (auto simp: replayDelete_def)
  next
    case (2 r)
    from 2(2) show ?thesis
    proof (cases rule: strict_prefix_append_cases)
      case 1
      then show ?thesis
        using ReadFull_short [of r "length d"] prefix_length_less [OF 1] assms by (auto simp: 2(1) ev)
    next
      case (2 r')
      then show ?thesis
        using verifyChecksum_put32(2) [of r' ?c ?c] assms by (auto simp: \<open>q' = ?l @ r\<close> ev)
    qed
  qed
  then show "replay_frame q = Inl ErrTruncated"
    by (simp add: replay_frame_def q'(1) ReadFull_Cons [simplified])
qed

lemma frame_not_Nil: "frame m \<noteq> []"
  by (cases m) (simp_all add: sealed_def)

section \<open>The log as framed data\<close>

fun call_back :: "(string \<Rightarrow> RRSets \<Rightarrow> 's \<Rightarrow> 's) \<Rightarrow> (string \<Rightarrow> 's \<Rightarrow> 's) \<Rightarrow> mutation \<Rightarrow> 's \<Rightarrow> 's" where
  "call_back onUpsert onDelete (Upsert d rs) st = onUpsert d rs st"
| "call_back onUpsert onDelete (DeleteDomain d) st = onDelete d st"

lemma Replay_turn:
  "Replay u d [] st = (None, st)"
  "s \<noteq> [] \<Longrightarrow> replay_frame s = Inr (m, rest) \<Longrightarrow> Replay u d s st = Replay u d rest (call_back u d m st)"
  "s \<noteq> [] \<Longrightarrow> replay_frame s = Inl e \<Longrightarrow> Replay u d s st = (Some e, st)"
  by (subst Replay.simps;
      cases s; auto simp: ReadFull_def replay_frame_def Let_def map_sum_def split: sum.splits prod.splits if_splits)+

interpretation wal: frame_log frame replay_frame loggable "\<lambda>e. e = ErrTruncated"
  "call_back onUpsert onDelete" "Replay onUpsert onDelete" for onUpsert onDelete
proof unfold_locales
  show "loggable x \<Longrightarrow> replay_frame (frame x @ rest) = Inr (x, rest)" for x rest
    by (cases x) (simp_all only: upsert_frame(1) delete_frame(1))
  show "loggable x \<Longrightarrow> strict_prefix q (frame x) \<Longrightarrow> q \<noteq> [] \<Longrightarrow> \<exists>e. replay_frame q = Inl e \<and> e = ErrTruncated" for x q
    by (cases x) (use upsert_frame(2) delete_frame(2) in blast)+
qed (simp_all add: frame_not_Nil Replay_turn)

section \<open>What the writer appends\<close>

definition writer_ok :: "Writer \<Rightarrow> bool" where
  "writer_ok w \<longleftrightarrow> length (wal_scratch w) = scratchSize"

lemma writer_ok_New [simp]: "writer_ok (NewWriter file)"
  by (simp add: writer_ok_def NewWriter_def)

text \<open>The writer after it has appended some bytes.\<close>

definition appended :: "Writer \<Rightarrow> bytes \<Rightarrow> Writer \<Rightarrow> bool" where
  "appended w p w' \<longleftrightarrow> writer_ok w' \<and> wal_file w' = wal_file w \<and> wal_bw w' = wal_bw w @ p"

lemma appended_refl: "writer_ok w \<Longrightarrow> appended w [] w"
  by (simp add: appended_def)

lemma appended_trans: "appended w p w1 \<Longrightarrow> appended w1 q w2 \<Longrightarrow> appended w (p @ q) w2"
  by (simp add: appended_def)

lemma AppendUpsert_ok:
  assumes "writer_ok w" and "AppendUpsert w d rs = (None, w')"
  shows "appended w (frame (Upsert d rs)) w' \<and> length d \<le> MaxDomainLen \<and> length rs \<le> MaxRecordsPerDomain \<and>
    list_all rrset_fits rs"
proof -
  have s: "take 1 ((wal_scratch w)[0 := OpUpsert]) = [OpUpsert]"
    using assms(1) by (cases "wal_scratch w") (simp_all add: writer_ok_def)
  have c: "take checksumSize (put32_at xs 0 v) = put32 v" if "4 \<le> length xs" for xs v
    using that by (simp add: put32_at_def copy_at_fit)
  obtain n where n: "calculateFrameSize d rs = Inr n"
    using assms(2) by (cases "calculateFrameSize d rs")
      (auto simp: AppendUpsert_def WriteRecord_eq Let_def split: if_splits)
  with assms c show ?thesis
    using calculateFrameSize_Inr [OF n]
    by (auto simp: AppendUpsert_def WriteRecord_eq s [simplified] Let_def writeChecksum_def appended_def writer_ok_def
        sealed_def crc_write_crc32 split: if_splits)
qed

lemma take_copy_at_front: "length xs \<le> length b \<Longrightarrow> take (length xs) (copy_at b 0 xs) = xs"
  by (simp add: copy_at_fit)

lemma AppendDelete_ok:
  assumes "writer_ok w" and "AppendDelete w d = (None, w')"
  shows "appended w (frame (DeleteDomain d)) w' \<and> length d \<le> MaxDomainLen"
proof -
  let ?s = "wal_scratch w" and ?l = "put16 (word_of_nat (length d))"
  let ?c = "crc32 (OpDelete # ?l @ bytes_of d)"
  have d: "length d \<le> MaxDomainLen" using assms(2) by (auto simp: AppendDelete_def split: if_splits)
  have len: "length ?s = 512" using assms(1) by (simp add: writer_ok_def)
  have "?s[0 := OpDelete] = copy_at ?s 0 [OpDelete]"
    using len by (cases ?s) (simp_all add: copy_at_def)
  then have 1: "copy_at (copy_at (?s[0 := OpDelete]) 1 ?l) 3 (bytes_of d) = copy_at ?s 0 (OpDelete # ?l @ bytes_of d)"
    using copy_at_append [of 0 "[OpDelete]" ?l ?s] copy_at_append [of 0 "OpDelete # ?l" "bytes_of d" ?s] d len by simp
  have 2: "copy_at (copy_at ?s 0 (OpDelete # ?l @ bytes_of d)) (3 + length d) (put32 v) =
      copy_at ?s 0 (OpDelete # ?l @ bytes_of d @ put32 v)" for v
    using copy_at_append [of 0 "OpDelete # ?l @ bytes_of d" "put32 v" ?s] d len by (simp add: numeral_3_eq_3)
  have t: "take (3 + length d) (copy_at ?s 0 (OpDelete # ?l @ bytes_of d)) = OpDelete # ?l @ bytes_of d"
    "take (3 + length d + 4) (copy_at ?s 0 (OpDelete # ?l @ bytes_of d @ put32 v)) = OpDelete # ?l @ bytes_of d @ put32 v" for v
    using take_copy_at_front [of "OpDelete # ?l @ bytes_of d" ?s]
      take_copy_at_front [of "OpDelete # ?l @ bytes_of d @ put32 v" ?s] d len
    by (simp_all add: numeral_3_eq_3 add.commute add.left_commute)
  have "AppendDelete w d = (None, w\<lparr>wal_crc := ?c, wal_scratch := copy_at ?s 0 (OpDelete # ?l @ bytes_of d @ put32 ?c),
      wal_bw := wal_bw w @ OpDelete # ?l @ bytes_of d @ put32 ?c\<rparr>)"
    unfolding AppendDelete_def Let_def put16_at_def put32_at_def 1 2 t using d by (simp add: crc32_def)
  with assms(2) d len show ?thesis by (auto simp: appended_def writer_ok_def sealed_def)
qed

fun append_op :: "Writer \<Rightarrow> mutation \<Rightarrow> persist_error option \<times> Writer" where
  "append_op w (Upsert d rs) = AppendUpsert w d rs"
| "append_op w (DeleteDomain d) = AppendDelete w d"

text \<open>A run of appends that all succeed.\<close>

fun append_all :: "Writer \<Rightarrow> mutation list \<Rightarrow> persist_error option \<times> Writer" where
  "append_all w [] = (None, w)"
| "append_all w (m # ms) = (case append_op w m of (Some err, w) \<Rightarrow> (Some err, w) | (None, w) \<Rightarrow> append_all w ms)"

text \<open>Mutations the log reads back as they were: the codec stores no class, and a delete frame
  has a name.\<close>

fun restorable :: "mutation \<Rightarrow> bool" where
  "restorable (Upsert d rs) \<longleftrightarrow> list_all (\<lambda>r. rr_Class r = ClassIN) rs"
| "restorable (DeleteDomain d) \<longleftrightarrow> d \<noteq> []"

lemma append_op_ok:
  "writer_ok w \<Longrightarrow> append_op w m = (None, w') \<Longrightarrow> appended w (frame m) w' \<and> (restorable m \<longrightarrow> loggable m)"
  by (cases m) (use AppendUpsert_ok AppendDelete_ok in \<open>force simp: list_all_iff\<close>)+

lemma append_all_ok:
  "writer_ok w \<Longrightarrow> append_all w ms = (None, w') \<Longrightarrow>
   appended w (concat (map frame ms)) w' \<and> (list_all restorable ms \<longrightarrow> list_all loggable ms)"
proof (induction ms arbitrary: w)
  case Nil
  then show ?case by (simp add: appended_refl)
next
  case (Cons m ms)
  then obtain w1 where w1: "append_op w m = (None, w1)" "append_all w1 ms = (None, w')"
    by (auto split: option.splits prod.splits)
  have 1: "appended w (frame m) w1" "restorable m \<longrightarrow> loggable m" using append_op_ok [OF Cons.prems(1) w1(1)] by simp_all
  then have "writer_ok w1" by (simp add: appended_def)
  from Cons.IH [OF this w1(2)] 1 show ?case using appended_trans [OF 1(1)] by simp
qed

text \<open>C4: durability and crash recovery of the log.  Start from a log of operations \<open>old\<close> and append
  the operations \<open>new\<close>, all successfully.  Whatever part of the buffered bytes reached the file
  before a crash, replaying the file performs all of \<open>old\<close> and then, in order and without gaps,
  a prefix of \<open>new\<close>; it ends without error or with \<open>ErrTruncated\<close>, never with corruption.
  After a flush it performs everything and ends without error.\<close>

theorem wal_crash_recovery:
  assumes "list_all loggable old" and "append_all (NewWriter (concat (map frame old))) new = (None, w)"
    and "list_all restorable new" and "prefix p (wal_bw w)"
  shows "(\<exists>k \<le> length new. \<exists>e. Replay onUpsert onDelete (wal_file w @ p) st =
       (e, fold (call_back onUpsert onDelete) (old @ take k new) st) \<and> (e = None \<or> e = Some ErrTruncated)) \<and>
    Replay onUpsert onDelete (wal_file (wal_Flush w)) st = (None, fold (call_back onUpsert onDelete) (old @ new) st)"
proof -
  from append_all_ok [OF writer_ok_New assms(2)] assms(3)
  have w: "wal_file w = concat (map frame old)" "wal_bw w = concat (map frame new)" and n: "list_all loggable new"
    by (simp_all add: appended_def NewWriter_def)
  from wal.run_prefix [OF n, of p onUpsert onDelete "fold (call_back onUpsert onDelete) old st"] assms(4) w(2)
  obtain k e where "k \<le> length new" "e = None \<or> e = Some ErrTruncated"
    "Replay onUpsert onDelete p (fold (call_back onUpsert onDelete) old st) =
       (e, fold (call_back onUpsert onDelete) (take k new) (fold (call_back onUpsert onDelete) old st))"
    by (metis not_None_eq)
  moreover have "Replay onUpsert onDelete (wal_file w @ p) st = Replay onUpsert onDelete p (fold (call_back onUpsert onDelete) old st)"
    unfolding w(1) by (rule wal.run_frames [OF assms(1)])
  moreover have "Replay onUpsert onDelete (wal_file (wal_Flush w)) st = (None, fold (call_back onUpsert onDelete) (old @ new) st)"
    using wal.run_log [of "old @ new" onUpsert onDelete st] assms(1) n by (simp add: wal_Flush_def w)
  ultimately show ?thesis by auto
qed

text \<open>A delete that is logged and one that is not flushed yet.\<close>

definition sample_writer :: Writer where
  "sample_writer = snd (append_all (NewWriter (concat (map frame [DeleteDomain ''a'']))) [DeleteDomain ''b''])"

lemma sample_writer_ok:
  "append_all (NewWriter (concat (map frame [DeleteDomain ''a'']))) [DeleteDomain ''b''] = (None, sample_writer)"
  by (simp add: sample_writer_def AppendDelete_def Let_def)

theorem wal_crash_recovery_witness:
  "\<exists>k \<le> 1. \<exists>e. Replay (\<lambda>d rs. id) (#) (wal_file sample_writer @ [OpDelete]) [] =
     (e, fold (call_back (\<lambda>d rs. id) (#)) ([DeleteDomain ''a''] @ take k [DeleteDomain ''b'']) []) \<and>
     (e = None \<or> e = Some ErrTruncated)"
proof -
  have "prefix [OpDelete] (wal_bw sample_writer)"
    using append_all_ok [OF writer_ok_New sample_writer_ok] by (simp add: appended_def NewWriter_def sealed_def)
  from wal_crash_recovery [OF _ sample_writer_ok _ this, of "\<lambda>d rs. id" "(#)" "[]"] show ?thesis by simp
qed

section \<open>Corruption\<close>

text \<open>The shift register of the checksum is a bijection: the top bit of the polynomial records
  which branch was taken.\<close>

lemma xor_cancel: "x XOR z = y XOR z \<longleftrightarrow> x = y" "z XOR x = z XOR y \<longleftrightarrow> x = y" for x y z :: u32
  by (auto simp: bit_eq_iff bit_xor_iff)

lemma crc_shift_inject [simp]: "crc_shift c = crc_shift c' \<longleftrightarrow> c = c'"
proof
  assume eq: "crc_shift c = crc_shift c'"
  have top: "bit (crc_shift x) 31 = bit x 0" for x
    by (auto simp: crc_shift_def bit_drop_bit_eq bit_xor_iff dest: bit_imp_le_length)
  have b0: "bit c 0 = bit c' 0" using arg_cong [OF eq, of "\<lambda>w. bit w 31"] by (simp add: top)
  with eq have dr: "drop_bit 1 c = drop_bit 1 c'"
    by (auto simp: crc_shift_def xor_cancel split: if_splits)
  have "bit c (Suc k) = bit c' (Suc k)" for k
    using arg_cong [OF dr, of "\<lambda>w. bit w k"] by (simp add: bit_drop_bit_eq)
  with b0 have "bit c n = bit c' n" for n by (cases n) simp_all
  then show "c = c'" by (intro bit_word_eqI)
qed simp

lemma crc_byte_inject:
  "crc_byte c b = crc_byte c' b \<longleftrightarrow> c = c'" "crc_byte c b = crc_byte c b' \<longleftrightarrow> b = b'"
proof -
  have f: "(crc_shift ^^ n) x = (crc_shift ^^ n) y \<longleftrightarrow> x = y" for n x y by (induction n) simp_all
  have "ucast (ucast x :: u32) = x" for x :: byte
    by (rule bit_word_eqI) (simp add: bit_simps)
  then have u: "ucast b = (ucast b' :: u32) \<longleftrightarrow> b = b'" by metis
  show "crc_byte c b = crc_byte c' b \<longleftrightarrow> c = c'" "crc_byte c b = crc_byte c b' \<longleftrightarrow> b = b'"
    by (simp_all add: crc_byte_def f xor_cancel u)
qed

lemma foldl_crc_inject: "foldl crc_byte c p = foldl crc_byte c' p \<longleftrightarrow> c = c'"
  by (induction p arbitrary: c c') (simp_all add: crc_byte_inject)

text \<open>A single damaged byte is always noticed.  If one byte of what a frame's checksum covers
  is changed, the verification of the checksum fails with \<open>ErrCorruptedData\<close>.\<close>

theorem verifyChecksum_detects_byte:
  assumes "x \<noteq> y"
  shows "verifyChecksum (put32 (crc32 (before @ x # after)) @ rest) (crc32 (before @ y # after)) = Inl wal_ErrCorruptedData"
proof -
  have "crc32 (before @ x # after) \<noteq> crc32 (before @ y # after)"
    using assms by (simp add: crc32_def crc_write_def foldl_crc_inject crc_byte_inject)
  then show ?thesis by (simp add: verifyChecksum_def ReadFull_append)
qed

theorem verifyChecksum_detects_byte_witness:
  "verifyChecksum (put32 (crc32 [2, 0, 1, 97]) @ []) (crc32 [2, 0, 1, 98]) = Inl wal_ErrCorruptedData"
  using verifyChecksum_detects_byte [of 97 98 "[2, 0, 1]" "[]" "[]"] by simp

section \<open>Logs that cannot be replayed\<close>

text \<open>A stray opcode of an upsert makes the frame after it unreadable: its first two bytes are
  taken for the length of a name, which is then too long.\<close>

lemma stray_opcode:
  assumes "loggable m"
  shows "replay_frame (OpUpsert # frame m @ rest) = Inl wal_ErrCorruptedData"
proof -
  obtain op b t where f: "frame m = op # b # t" "op = OpUpsert \<or> op = OpDelete"
    by (cases m) (auto simp: sealed_def enc_record_def put16_def)
  have "unat (get16 [op, b]) > MaxDomainLen"
  proof -
    have "get16 [op, b] = push_bit 8 (ucast op) OR ucast b" by (simp add: or.commute)
    also have "\<dots> = push_bit 8 (ucast op) + ucast b"
      by (rule disjunctive_add [symmetric]) (auto simp: bit_simps dest: bit_imp_le_length)
    finally have "unat (get16 [op, b]) = unat (push_bit 8 (ucast op) + ucast b :: u16)" by (rule arg_cong)
    moreover have "push_bit 8 (ucast op) = (256 :: u16) \<or> push_bit 8 (ucast op) = (512 :: u16)"
      using f(2) by (auto simp: OpUpsert_def OpDelete_def)
    moreover have "unat (ucast b :: u16) < 256"
      using unsigned_less [of b, where ?'a = nat] by (simp add: unsigned_ucast_eq take_bit_nat_eq_self)
    ultimately show ?thesis by (auto simp: unat_word_ariths)
  qed
  then show ?thesis
    by (simp add: replay_frame_def f(1) ReadFull_Cons [simplified] replayUpsert_def ReadRecord_def readUint16_def
        readBytes_def ReadFull_def numeral_2_eq_2 normalizeEOF_def)
qed

lemma AppendUpsert_failed:
  assumes "writer_ok w" and "AppendUpsert w d rs = (Some e, w1)"
    and "length d \<le> MaxDomainLen" and "length rs \<le> MaxRecordsPerDomain"
  shows "appended w [OpUpsert] w1"
proof -
  have s: "take 1 ((wal_scratch w)[0 := OpUpsert]) = [OpUpsert]"
    using assms(1) by (cases "wal_scratch w") (simp_all add: writer_ok_def)
  obtain err where "calculateFrameSize d rs = Inl err"
    using assms(2,3,4) by (cases "calculateFrameSize d rs")
      (auto simp: AppendUpsert_def WriteRecord_eq writeChecksum_def Let_def)
  with assms s show ?thesis
    by (auto simp: AppendUpsert_def WriteRecord_eq Let_def appended_def writer_ok_def)
qed

text \<open>C39: a rejected upsert destroys the log behind it.  \<open>AppendUpsert\<close> writes the opcode before the
  encoder checks the sizes of the record data.  When the encoder then refuses them, the opcode
  stays in the log, and the next operation, although it is appended without error, can never be
  replayed: \<open>Replay\<close> stops there with \<open>ErrCorruptedData\<close>.\<close>

theorem AppendUpsert_error_poisons_log:
  assumes "list_all loggable old" and "AppendUpsert (NewWriter (concat (map frame old))) d rs = (Some e, w1)"
    and "length d \<le> MaxDomainLen" and "length rs \<le> MaxRecordsPerDomain"
    and "append_op w1 m = (None, w2)" and "restorable m"
  shows "Replay onUpsert onDelete (wal_file (wal_Flush w2)) st =
    (Some wal_ErrCorruptedData, fold (call_back onUpsert onDelete) old st)"
proof -
  have 1: "appended (NewWriter (concat (map frame old))) [OpUpsert] w1"
    by (rule AppendUpsert_failed [OF writer_ok_New assms(2-4)])
  then have 2: "appended w1 (frame m) w2 \<and> loggable m"
    using append_op_ok [OF _ assms(5)] assms(6) by (simp add: appended_def)
  have "wal_file (wal_Flush w2) = concat (map frame old) @ OpUpsert # frame m"
    using 1 2 by (simp add: appended_def wal_Flush_def NewWriter_def)
  moreover have "replay_frame (OpUpsert # frame m) = Inl wal_ErrCorruptedData"
    using stray_opcode [of m "[]"] 2 by simp
  ultimately show ?thesis
    by (simp add: wal.run_frames [OF assms(1)] wal.run_stop)
qed

theorem AppendUpsert_error_poisons_log_witness:
  "\<exists>w1 w2. AppendUpsert (NewWriter []) ''a'' [\<lparr>RData = [replicate 65536 0], TTL = 60, rr_Type = TypeTXT, rr_Class = ClassIN\<rparr>] =
     (Some wal_ErrCapacityExceeded, w1) \<and> AppendDelete w1 ''b'' = (None, w2) \<and>
   Replay (\<lambda>d rs. id) (#) (wal_file (wal_Flush w2)) [] = (Some wal_ErrCorruptedData, [])"
proof -
  let ?rs = "[\<lparr>RData = [replicate 65536 0], TTL = 60, rr_Type = TypeTXT, rr_Class = ClassIN\<rparr>]"
  have "calculateFrameSize ''a'' ?rs = Inl codec_ErrCapacityExceeded"
    by (simp add: calculateFrameSize_def)
  then obtain w1 where w1: "AppendUpsert (NewWriter []) ''a'' ?rs = (Some wal_ErrCapacityExceeded, w1)"
    by (simp add: AppendUpsert_def WriteRecord_eq Let_def)
  moreover obtain w2 where w2: "AppendDelete w1 ''b'' = (None, w2)"
    by (simp add: AppendDelete_def Let_def)
  ultimately show ?thesis
    using AppendUpsert_error_poisons_log [of "[]" "''a''" ?rs _ w1 "DeleteDomain ''b''" w2 "\<lambda>d rs. id" "(#)" "[]"]
    by simp
qed

end
