(* ===== verification/RadixNode.thy ===== *)
theory RadixNode
  imports DnsTypes DomainIterator
begin

text \<open>
  \<open>internal/radix/node.go\<close>: the nodes of the routing tree and the search for an edge.  The
  edges of a node are sorted by label, compared bytewise (the order of HOL strings here).
  The lemmas show that the hybrid \<open>findEdge\<close> - a linear scan up to 16 edges, a binary search
  beyond - computes the insertion point of the label and whether an edge carries it, and
  they give the laws of \<open>child\<close> and \<open>put_child\<close>, the view of a node as a map from labels to
  nodes in which the wildcard is the child labelled \<open>*\<close>.
\<close>

section \<open>Nodes\<close>

text \<open>\<open>type Node struct\<close> and \<open>type Edge struct\<close>; an edge is the pair of its label and its node.
  Published nodes are never changed in place (the copy-on-write discipline of the package),
  so pointers to nodes are nodes and a nil pointer is \<open>None\<close>.\<close>

datatype node = Node (Wildcard: "node option") (NodeRRSets: RRSets)
  (Children: "(string \<times> node) list")

type_synonym edge = "string \<times> node"

definition empty_node :: node where
  "empty_node = Node None [] []"

definition clone :: "node \<Rightarrow> node" where
  "clone n = Node (Wildcard n) (Clone (NodeRRSets n)) (map (\<lambda>e. e) (Children n))"

lemma clone_id [simp]: "clone n = n"
  by (cases n) (simp add: clone_def)

text \<open>\<open>searchRRSet\<close>: a nil node has no record sets.\<close>

definition searchRRSet :: "node option \<Rightarrow> dns_type \<Rightarrow> RRSet option" where
  "searchRRSet node qt =
     (case node of None \<Rightarrow> None | Some n \<Rightarrow> find (\<lambda>r. rr_Type r = qt) (NodeRRSets n))"

section \<open>Searching an edge\<close>

fun findEdge_linear :: "edge list \<Rightarrow> string \<Rightarrow> nat \<Rightarrow> nat \<times> bool" where
  "findEdge_linear [] label i = (i, False)"
| "findEdge_linear (e # es) label i =
     (if fst e = label then (i, True)
      else if fst e > label then (i, False)
      else findEdge_linear es label (i + 1))"

text \<open>The bounds \<open>l\<close> and \<open>r\<close> are Go \<open>int\<close>s; \<open>r\<close> may become -1.\<close>

function findEdge_binary :: "edge list \<Rightarrow> string \<Rightarrow> int \<Rightarrow> int \<Rightarrow> nat \<times> bool" where
  "findEdge_binary edges label l r =
     (if l \<le> r then
        (let m = (l + r) div 2 in
         if fst (edges ! nat m) = label then (nat m, True)
         else if fst (edges ! nat m) < label then findEdge_binary edges label (m + 1) r
         else findEdge_binary edges label l (m - 1))
      else (nat l, False))"
  by pat_completeness auto
termination
  by (relation "measure (\<lambda>(edges, label, l, r). nat (r - l + 1))") auto

declare findEdge_binary.simps [simp del]

definition findEdge :: "edge list \<Rightarrow> string \<Rightarrow> nat \<times> bool" where
  "findEdge edges label =
     (if length edges \<le> 16 then findEdge_linear edges label 0
      else findEdge_binary edges label 0 (int (length edges) - 1))"

text \<open>The specification: the number of edges with a smaller label, and membership.\<close>

abbreviation sorted_edges :: "edge list \<Rightarrow> bool" where
  "sorted_edges es \<equiv> sorted_wrt (<) (map fst es)"

definition edge_pos :: "edge list \<Rightarrow> string \<Rightarrow> nat" where
  "edge_pos es label = length (takeWhile (\<lambda>e. fst e < label) es)"

lemma findEdge_linear_spec:
  "sorted_edges es \<Longrightarrow>
   findEdge_linear es label i = (i + edge_pos es label, label \<in> fst ` set es)"
  by (induction es label i rule: findEdge_linear.induct)
    (auto simp: edge_pos_def not_less dest: order.strict_trans)

lemma edge_pos_le: "edge_pos es label \<le> length es"
  by (simp add: edge_pos_def length_takeWhile_le)

lemma edge_pos_before: "i < edge_pos es label \<Longrightarrow> fst (es ! i) < label"
proof -
  assume i: "i < edge_pos es label"
  then have "takeWhile (\<lambda>e. fst e < label) es ! i = es ! i"
    by (simp add: edge_pos_def takeWhile_nth)
  moreover have "takeWhile (\<lambda>e. fst e < label) es ! i \<in> set (takeWhile (\<lambda>e. fst e < label) es)"
    using i by (simp add: edge_pos_def)
  ultimately show ?thesis by (metis set_takeWhileD)
qed

lemma edge_pos_at: "edge_pos es label < length es \<Longrightarrow> \<not> fst (es ! edge_pos es label) < label"
  unfolding edge_pos_def by (rule nth_length_takeWhile)

lemma sorted_edges_nth_less:
  "sorted_edges es \<Longrightarrow> i < j \<Longrightarrow> j < length es \<Longrightarrow> fst (es ! i) < fst (es ! j)"
  using sorted_wrt_nth_less [of "(<)" "map fst es" i j] by simp

lemma edge_pos_after:
  assumes "sorted_edges es" and "edge_pos es label \<le> i" and "i < length es"
  shows "label \<le> fst (es ! i)"
proof (cases "i = edge_pos es label")
  case True
  with assms(3) edge_pos_at [of es label] show ?thesis by (simp add: not_less)
next
  case False
  with assms have "fst (es ! edge_pos es label) < fst (es ! i)"
    by (simp add: sorted_edges_nth_less)
  moreover have "label \<le> fst (es ! edge_pos es label)"
    using assms edge_pos_at [of es label] by (simp add: not_less)
  ultimately show ?thesis by simp
qed

lemma edge_pos_mem:
  assumes "sorted_edges es"
  shows "label \<in> fst ` set es \<longleftrightarrow>
    edge_pos es label < length es \<and> fst (es ! edge_pos es label) = label"
proof
  assume "label \<in> fst ` set es"
  then obtain i where i: "i < length es" "fst (es ! i) = label"
    by (metis (no_types, lifting) image_iff in_set_conv_nth)
  have "edge_pos es label \<le> i"
    using edge_pos_before [of i es label] i(2) by (meson not_le order_less_irrefl)
  moreover have "\<not> edge_pos es label < i"
    using sorted_edges_nth_less [OF assms] i edge_pos_at [of es label] by fastforce
  ultimately show "edge_pos es label < length es \<and> fst (es ! edge_pos es label) = label"
    using i by (metis nat_less_le)
next
  assume "edge_pos es label < length es \<and> fst (es ! edge_pos es label) = label"
  then show "label \<in> fst ` set es"
    by (metis image_eqI nth_mem)
qed

lemma edge_pos_le_iff:
  assumes "sorted_edges es" and "m < length es"
  shows "edge_pos es label \<le> m \<longleftrightarrow> label \<le> fst (es ! m)"
  using edge_pos_after [OF assms(1) _ assms(2), of label] edge_pos_before [of m es label]
  by (meson linorder_not_less)

lemma findEdge_binary_spec:
  assumes sorted: "sorted_edges es"
  shows "0 \<le> l \<Longrightarrow> r < int (length es) \<Longrightarrow> l \<le> int (edge_pos es label) \<Longrightarrow>
    int (edge_pos es label) \<le> r + 1 \<Longrightarrow>
    (label \<in> fst ` set es \<Longrightarrow> int (edge_pos es label) \<le> r) \<Longrightarrow>
    findEdge_binary es label l r = (edge_pos es label, label \<in> fst ` set es)"
proof (induction "nat (r - l + 1)" arbitrary: l r rule: less_induct)
  case less
  let ?p = "edge_pos es label" and ?m = "(l + r) div 2"
  show ?case
  proof (cases "l \<le> r")
    case False
    with less.prems have "l = int ?p" and "label \<notin> fst ` set es" by auto
    with False show ?thesis by (subst findEdge_binary.simps) simp
  next
    case True
    then have m: "l \<le> ?m" "?m \<le> r" "nat ?m < length es" "0 \<le> ?m"
      using less.prems by auto
    note le = edge_pos_le_iff [OF sorted m(3), of label]
    note step = findEdge_binary.simps [of es label l r]
    consider (eq) "fst (es ! nat ?m) = label" | (lt) "fst (es ! nat ?m) < label"
      | (gt) "label < fst (es ! nat ?m)"
      by (metis linorder_neqE)
    then show ?thesis
    proof cases
      case eq
      then have "label \<in> fst ` set es" using m(3) by (metis image_eqI nth_mem)
      moreover have "?p = nat ?m"
        using edge_pos_before [of "nat ?m" es label] eq le calculation
          sorted_edges_nth_less [OF sorted, of ?p "nat ?m"] m(3) edge_pos_mem [OF sorted, of label]
        by (metis linorder_neqE_nat order_less_irrefl)
      ultimately show ?thesis using True eq by (simp add: step)
    next
      case lt
      then have "\<not> ?p \<le> nat ?m" using le by (simp add: not_le)
      then have "int ?p > ?m" by linarith
      then have "findEdge_binary es label (?m + 1) r = (?p, label \<in> fst ` set es)"
        using less.prems m True by (intro less.hyps) auto
      with True lt show ?thesis by (auto simp: step Let_def)
    next
      case gt
      then have "int ?p \<le> ?m" using le m(4) by (simp add: le_nat_iff)
      moreover have "label \<in> fst ` set es \<Longrightarrow> int ?p \<noteq> ?m"
        using gt edge_pos_mem [OF sorted, of label] by (metis nat_int order_less_irrefl)
      ultimately have "findEdge_binary es label l (?m - 1) = (?p, label \<in> fst ` set es)"
        using less.prems m True by (intro less.hyps) fastforce+
      with True gt show ?thesis by (auto simp: step Let_def)
    qed
  qed
qed

lemma findEdge_spec:
  assumes "sorted_edges es"
  shows "findEdge es label = (edge_pos es label, label \<in> fst ` set es)"
proof (cases "length es \<le> 16")
  case True
  with assms show ?thesis by (simp add: findEdge_def findEdge_linear_spec)
next
  case False
  have "findEdge_binary es label 0 (int (length es) - 1) = (edge_pos es label, label \<in> fst ` set es)"
    using edge_pos_le [of es label] edge_pos_mem [OF assms, of label]
    by (intro findEdge_binary_spec assms) auto
  with False show ?thesis by (simp add: findEdge_def)
qed

section \<open>A node as a map from labels to nodes\<close>

definition child :: "node \<Rightarrow> string \<Rightarrow> node option" where
  "child n l = (if l = ''*'' then Wildcard n else map_of (Children n) l)"

text \<open>\<open>slices.Insert\<close>, assignment through an index, and \<open>slices.Delete\<close> of one element.\<close>

definition edges_insert :: "edge list \<Rightarrow> nat \<Rightarrow> edge \<Rightarrow> edge list" where
  "edges_insert es idx e = take idx es @ e # drop idx es"

definition edges_set :: "edge list \<Rightarrow> nat \<Rightarrow> node \<Rightarrow> edge list" where
  "edges_set es idx c = es[idx := (fst (es ! idx), c)]"

definition edges_delete :: "edge list \<Rightarrow> nat \<Rightarrow> edge list" where
  "edges_delete es idx = take idx es @ drop (idx + 1) es"

lemma split_at_pos:
  assumes "sorted_edges es"
  obtains xs ys where "es = xs @ ys" "length xs = edge_pos es label"
    "\<forall>e \<in> set xs. fst e < label" "\<forall>e \<in> set ys. label \<le> fst e"
proof
  let ?p = "edge_pos es label"
  show "es = take ?p es @ drop ?p es" by simp
  show "length (take ?p es) = ?p" by (simp add: edge_pos_le min_absorb2)
  show "\<forall>e \<in> set (take ?p es). fst e < label"
    using edge_pos_before [of _ es label] by (fastforce simp: in_set_conv_nth)
  show "\<forall>e \<in> set (drop ?p es). label \<le> fst e"
  proof
    fix e assume "e \<in> set (drop ?p es)"
    then obtain i where "i < length es - ?p" "e = es ! (?p + i)"
      by (auto simp: in_set_conv_nth)
    then show "label \<le> fst e" using edge_pos_after [OF assms, of label "?p + i"] by simp
  qed
qed

text \<open>The three edge updates at the position \<open>findEdge\<close> returns keep the edges sorted and act
  on the map of the edges as insertion, replacement and removal of the label.\<close>

lemma edges_insert_laws:
  assumes "sorted_edges es" and "label \<notin> fst ` set es"
  shows "sorted_edges (edges_insert es (edge_pos es label) (label, c))"
    and "map_of (edges_insert es (edge_pos es label) (label, c)) = (map_of es)(label \<mapsto> c)"
    and "set (edges_insert es (edge_pos es label) (label, c)) = insert (label, c) (set es)"
proof -
  obtain xs ys where es: "es = xs @ ys" and len: "length xs = edge_pos es label"
    and xs: "\<forall>e \<in> set xs. fst e < label" and ys: "\<forall>e \<in> set ys. label \<le> fst e"
    using split_at_pos [OF assms(1)] by blast
  have ins: "edges_insert es (edge_pos es label) (label, c) = xs @ (label, c) # ys"
    unfolding len [symmetric] by (simp add: edges_insert_def es)
  have ys': "\<forall>e \<in> set ys. label < fst e"
    using ys assms(2) es by (metis (no_types, lifting) Un_iff image_eqI order_le_less set_append)
  show "sorted_edges (edges_insert es (edge_pos es label) (label, c))"
    using assms(1) xs ys' unfolding ins by (auto simp: es sorted_wrt_append)
  have "map_of xs label = None"
    using xs by (force simp: map_of_eq_None_iff)
  then show "map_of (edges_insert es (edge_pos es label) (label, c)) = (map_of es)(label \<mapsto> c)"
    unfolding ins by (auto simp: es fun_eq_iff map_add_def split: option.splits)
  show "set (edges_insert es (edge_pos es label) (label, c)) = insert (label, c) (set es)"
    unfolding ins by (auto simp: es)
qed

lemma edges_at_label:
  assumes "sorted_edges es" and "label \<in> fst ` set es"
  obtains xs c ys where "es = xs @ (label, c) # ys" "length xs = edge_pos es label"
    "\<forall>e \<in> set xs. fst e < label" "\<forall>e \<in> set ys. label < fst e" "map_of es label = Some c"
proof -
  obtain xs ys where es: "es = xs @ ys" and len: "length xs = edge_pos es label"
    and xs: "\<forall>e \<in> set xs. fst e < label" and ys: "\<forall>e \<in> set ys. label \<le> fst e"
    using split_at_pos [OF assms(1)] by blast
  from edge_pos_mem [OF assms(1)] assms(2) have "length xs < length es" "fst (es ! length xs) = label"
    by (auto simp: len)
  then obtain c zs where zs: "ys = (label, c) # zs"
    by (cases ys) (auto simp: es)
  have "\<forall>e \<in> set zs. label < fst e"
    using assms(1) unfolding es zs by (auto simp: sorted_wrt_append)
  moreover have "map_of xs label = None"
    using xs by (force simp: map_of_eq_None_iff)
  ultimately show ?thesis
    using that [of xs c zs] es zs len xs by (simp add: map_add_def)
qed

lemma edges_set_laws:
  assumes "sorted_edges es" and "label \<in> fst ` set es"
  shows "sorted_edges (edges_set es (edge_pos es label) c)"
    and "map_of (edges_set es (edge_pos es label) c) = (map_of es)(label \<mapsto> c)"
    and "set (edges_set es (edge_pos es label) c) \<subseteq> insert (label, c) (set es)"
    and "snd (es ! edge_pos es label) = the (map_of es label)"
proof -
  obtain xs c0 ys where es: "es = xs @ (label, c0) # ys" and len: "length xs = edge_pos es label"
    and xs: "\<forall>e \<in> set xs. fst e < label" and mo: "map_of es label = Some c0"
    using edges_at_label [OF assms] by metis
  have st: "edges_set es (edge_pos es label) c = xs @ (label, c) # ys"
    unfolding len [symmetric] by (simp add: edges_set_def es)
  show "sorted_edges (edges_set es (edge_pos es label) c)"
    using assms(1) unfolding st by (simp add: es sorted_wrt_append)
  have "map_of xs label = None"
    using xs by (force simp: map_of_eq_None_iff)
  then show "map_of (edges_set es (edge_pos es label) c) = (map_of es)(label \<mapsto> c)"
    unfolding st by (auto simp: es fun_eq_iff map_add_def split: option.splits)
  show "set (edges_set es (edge_pos es label) c) \<subseteq> insert (label, c) (set es)"
    unfolding st by (auto simp: es)
  show "snd (es ! edge_pos es label) = the (map_of es label)"
    unfolding mo len [symmetric] by (simp add: es)
qed

lemma edges_delete_laws:
  assumes "sorted_edges es" and "label \<in> fst ` set es"
  shows "sorted_edges (edges_delete es (edge_pos es label))"
    and "map_of (edges_delete es (edge_pos es label)) = (map_of es)(label := None)"
    and "set (edges_delete es (edge_pos es label)) \<subseteq> set es"
proof -
  obtain xs c0 ys where es: "es = xs @ (label, c0) # ys" and len: "length xs = edge_pos es label"
    and xs: "\<forall>e \<in> set xs. fst e < label" and ys: "\<forall>e \<in> set ys. label < fst e"
    using edges_at_label [OF assms] by metis
  have dl: "edges_delete es (edge_pos es label) = xs @ ys"
    unfolding len [symmetric] by (simp add: edges_delete_def es)
  show "sorted_edges (edges_delete es (edge_pos es label))"
    using assms(1) unfolding dl by (simp add: es sorted_wrt_append)
  have "map_of xs label = None" and "map_of ys label = None"
    using xs ys by (force simp: map_of_eq_None_iff)+
  then show "map_of (edges_delete es (edge_pos es label)) = (map_of es)(label := None)"
    unfolding dl by (auto simp: es fun_eq_iff map_add_def split: option.splits)
  show "set (edges_delete es (edge_pos es label)) \<subseteq> set es"
    unfolding dl by (auto simp: es)
qed

lemma sorted_edges_map_of:
  "sorted_edges es \<Longrightarrow> (l, c) \<in> set es \<longleftrightarrow> map_of es l = Some c"
  by (metis map_of_SomeD map_of_is_SomeI strict_sorted_iff)

end
