(* ===== verification/RadixTree.thy ===== *)
theory RadixTree
  imports RadixNode RecordStore
begin

text \<open>
  \<open>internal/radix/tree.go\<close>, \<open>mutate.go\<close> and the point lookups of \<open>node.go\<close> and \<open>query.go\<close>:
  the tree as a store of record sets.  Each operation is the loop of the source over the
  domain iterator; lemmas relate it to recursion over the labels of the domain, and the laws
  of the store follow: a tree is a finite map from label paths to record sets (\<open>abs_map\<close>),
  \<open>Upsert\<close> and \<open>DeleteDomain\<close> update that map at one path, the size counter is the number of
  stored domains, and the shape invariant (sorted edges, no empty leaf) is kept.
\<close>

section \<open>The tree\<close>

text \<open>\<open>type state struct { root; size }\<close>; \<open>type Tree struct\<close> holds an atomic pointer to the
  current one, set by \<open>New\<close> and replaced by every write, so a tree is its current state.\<close>

record Tree =
  root :: node
  tsize :: int

definition radix_New :: Tree where
  "radix_New = \<lparr>root = empty_node, tsize = 0\<rparr>"

definition radix_Len :: "Tree \<Rightarrow> int" where
  "radix_Len t = tsize t"

section \<open>Lookups\<close>

function findNode_loop :: "node \<Rightarrow> DomainIterator \<Rightarrow> node option" where
  "findNode_loop currentNode it =
     (case NextLower it of
        (None, _) \<Rightarrow> Some currentNode
      | (Some label, it') \<Rightarrow>
          if label = ''*'' then
            (case Wildcard currentNode of
               None \<Rightarrow> None
             | Some w \<Rightarrow> findNode_loop w it')
          else
            (case findEdge (Children currentNode) label of
               (idx, found) \<Rightarrow>
                 if \<not> found then None
                 else findNode_loop (snd (Children currentNode ! idx)) it'))"
  by pat_completeness auto
termination
  by (relation "measure (\<lambda>(n, it). it_cursor it)") (auto simp: termination_simp)

declare findNode_loop.simps [simp del]

definition findNode :: "node \<Rightarrow> string \<Rightarrow> node option" where
  "findNode r domain = findNode_loop r (NewDomainIterator domain)"

text \<open>\<open>Tree.Get\<close> runs the same loop and then asks for records at the node.\<close>

definition radix_Get :: "Tree \<Rightarrow> string \<Rightarrow> RRSets option" where
  "radix_Get t domain =
     (case findNode_loop (root t) (NewDomainIterator domain) of
        None \<Rightarrow> None
      | Some n \<Rightarrow> if NodeRRSets n = [] then None else Some (NodeRRSets n))"

section \<open>Upsert\<close>

text \<open>The loop of \<open>Upsert\<close>: \<open>currentNode\<close> is a private clone; the result is the node with the
  path below it rebuilt, and \<open>wasEmpty\<close> of the node reached.\<close>

function upsert_loop :: "node \<Rightarrow> DomainIterator \<Rightarrow> RRSets \<Rightarrow> node \<times> bool" where
  "upsert_loop currentNode it records =
     (case NextLower it of
        (None, _) \<Rightarrow>
          (Node (Wildcard currentNode) (Clone records) (Children currentNode),
           NodeRRSets currentNode = [])
      | (Some label, it') \<Rightarrow>
          if label = ''*'' then
            (let w0 = (case Wildcard currentNode of None \<Rightarrow> empty_node | Some w \<Rightarrow> clone w);
                 (w, wasEmpty) = upsert_loop w0 it' records
             in (Node (Some w) (NodeRRSets currentNode) (Children currentNode), wasEmpty))
          else
            (case findEdge (Children currentNode) label of
               (idx, found) \<Rightarrow>
                 if \<not> found then
                   (let (c, wasEmpty) = upsert_loop empty_node it' records
                    in (Node (Wildcard currentNode) (NodeRRSets currentNode)
                          (edges_insert (Children currentNode) idx (label, c)), wasEmpty))
                 else
                   (let (c, wasEmpty) =
                          upsert_loop (clone (snd (Children currentNode ! idx))) it' records
                    in (Node (Wildcard currentNode) (NodeRRSets currentNode)
                          (edges_set (Children currentNode) idx c), wasEmpty))))"
  by pat_completeness auto
termination
  by (relation "measure (\<lambda>(n, it, r). it_cursor it)") (auto simp: termination_simp)

declare upsert_loop.simps [simp del]

section \<open>DeleteDomain\<close>

text \<open>\<open>deletePath\<close> returns the replacement of the node (\<open>None\<close> for nil: the node is pruned) and
  whether anything was deleted.\<close>

definition is_ghost :: "node \<Rightarrow> bool" where
  "is_ghost n \<longleftrightarrow> NodeRRSets n = [] \<and> Children n = [] \<and> Wildcard n = None"

function deletePath :: "node \<Rightarrow> DomainIterator \<Rightarrow> node option \<times> bool" where
  "deletePath n it =
     (case NextLower it of
        (None, _) \<Rightarrow>
          if NodeRRSets n = [] then (Some n, False)
          else
            (let newNode = Node (Wildcard (clone n)) [] (Children (clone n)) in
             if Children newNode = [] \<and> Wildcard newNode = None then (None, True)
             else (Some newNode, True))
      | (Some label, it') \<Rightarrow>
          if label = ''*'' then
            (case Wildcard n of
               None \<Rightarrow> (Some n, False)
             | Some w \<Rightarrow>
                 (case deletePath w it' of
                    (newWildcard, deleted) \<Rightarrow>
                      if \<not> deleted then (Some n, False)
                      else
                        (let newNode = Node newWildcard (NodeRRSets (clone n)) (Children (clone n)) in
                         if is_ghost newNode then (None, True) else (Some newNode, True))))
          else
            (case findEdge (Children n) label of
               (idx, found) \<Rightarrow>
                 if \<not> found then (Some n, False)
                 else
                   (case deletePath (snd (Children n ! idx)) it' of
                      (newChild, deleted) \<Rightarrow>
                        if \<not> deleted then (Some n, False)
                        else
                          (case newChild of
                             None \<Rightarrow>
                               (let newNode = Node (Wildcard (clone n)) (NodeRRSets (clone n))
                                      (edges_delete (Children (clone n)) idx) in
                                if is_ghost newNode then (None, True) else (Some newNode, True))
                           | Some c \<Rightarrow>
                               (Some (Node (Wildcard (clone n)) (NodeRRSets (clone n))
                                  (edges_set (Children (clone n)) idx c)), True)))))"
  by pat_completeness auto
termination
  by (relation "measure (\<lambda>(n, it). it_cursor it)") (auto simp: termination_simp)

declare deletePath.simps [simp del]

definition radix_DeleteDomain :: "Tree \<Rightarrow> string \<Rightarrow> Tree" where
  "radix_DeleteDomain t domain =
     (case findNode (root t) domain of
        None \<Rightarrow> t
      | Some targetNode \<Rightarrow>
          if NodeRRSets targetNode = [] then t
          else
            (case deletePath (root t) (NewDomainIterator domain) of
               (newRoot, deleted) \<Rightarrow>
                 if \<not> deleted then t
                 else \<lparr>root = (case newRoot of None \<Rightarrow> empty_node | Some r \<Rightarrow> r),
                       tsize = tsize t - 1\<rparr>))"

definition radix_Upsert :: "Tree \<Rightarrow> string \<Rightarrow> RRSets \<Rightarrow> Tree" where
  "radix_Upsert t domain records =
     (if records = [] then radix_DeleteDomain t domain
      else
        (let (newRoot, wasEmpty) = upsert_loop (clone (root t)) (NewDomainIterator domain) records;
             newSize =
               (if wasEmpty \<and> Clone records \<noteq> [] then tsize t + 1
                else if \<not> wasEmpty \<and> Clone records = [] then tsize t - 1
                else tsize t)
         in \<lparr>root = newRoot, tsize = newSize\<rparr>))"

section \<open>Offline loading\<close>

text \<open>\<open>insert\<close> mutates the offline root in place: the same path walk as \<open>upsert_loop\<close>, without
  the clones.  \<open>ReloadZone\<close> receives the records its loader yields, or its error, in which
  case the tree is unchanged.\<close>

function insert_loop :: "node \<Rightarrow> DomainIterator \<Rightarrow> RRSets \<Rightarrow> node \<times> bool" where
  "insert_loop currentNode it records =
     (case NextLower it of
        (None, _) \<Rightarrow>
          (Node (Wildcard currentNode) (Clone records) (Children currentNode),
           NodeRRSets currentNode = [] \<and> Clone records \<noteq> [])
      | (Some label, it') \<Rightarrow>
          if label = ''*'' then
            (let w0 = (case Wildcard currentNode of None \<Rightarrow> empty_node | Some w \<Rightarrow> w);
                 (w, added) = insert_loop w0 it' records
             in (Node (Some w) (NodeRRSets currentNode) (Children currentNode), added))
          else
            (case findEdge (Children currentNode) label of
               (idx, found) \<Rightarrow>
                 if \<not> found then
                   (let (c, added) = insert_loop empty_node it' records
                    in (Node (Wildcard currentNode) (NodeRRSets currentNode)
                          (edges_insert (Children currentNode) idx (label, c)), added))
                 else
                   (let (c, added) = insert_loop (snd (Children currentNode ! idx)) it' records
                    in (Node (Wildcard currentNode) (NodeRRSets currentNode)
                          (edges_set (Children currentNode) idx c), added))))"
  by pat_completeness auto
termination
  by (relation "measure (\<lambda>(n, it, r). it_cursor it)") (auto simp: termination_simp)

declare insert_loop.simps [simp del]

fun reload_records :: "node \<times> int \<Rightarrow> (string \<times> RRSets) list \<Rightarrow> node \<times> int" where
  "reload_records (newRoot, count) [] = (newRoot, count)"
| "reload_records (newRoot, count) ((domain, records) # rest) =
     (let (r, added) = insert_loop newRoot (NewDomainIterator domain) records
      in reload_records (r, if added then count + 1 else count) rest)"

definition ReloadZone :: "Tree \<Rightarrow> 'e + (string \<times> RRSets) list \<Rightarrow> ('e option) \<times> Tree" where
  "ReloadZone t loader =
     (case loader of
        Inl err \<Rightarrow> (Some err, t)
      | Inr yielded \<Rightarrow>
          (let (newRoot, count) = reload_records (empty_node, 0) yielded
           in (None, \<lparr>root = newRoot, tsize = count\<rparr>)))"

section \<open>Shape invariants\<close>

text \<open>Edges sorted by label, no edge labelled \<open>*\<close> (wildcards hang off \<open>Wildcard\<close>), every label
  one that the iterator can yield.\<close>

fun wf_node :: "node \<Rightarrow> bool" where
  "wf_node (Node w rs es) \<longleftrightarrow>
     (case w of None \<Rightarrow> True | Some x \<Rightarrow> wf_node x) \<and>
     sorted_edges es \<and>
     list_all (\<lambda>e. valid_label (fst e) \<and> fst e \<noteq> ''*'' \<and> wf_node (snd e)) es"

text \<open>No proper descendant is a leaf without records.\<close>

fun pruned :: "node \<Rightarrow> bool" where
  "pruned (Node w rs es) \<longleftrightarrow>
     (case w of None \<Rightarrow> True | Some x \<Rightarrow> \<not> is_ghost x \<and> pruned x) \<and>
     list_all (\<lambda>e. \<not> is_ghost (snd e) \<and> pruned (snd e)) es"

declare wf_node.simps [simp del] pruned.simps [simp del]

lemma edge_size: "(l, c) \<in> set es \<Longrightarrow> size c < size (Node w rs es)"
  by (induction es) auto

lemma child_size: "child n l = Some c \<Longrightarrow> size c < size n"
  by (cases n) (auto simp: child_def split: if_splits dest!: map_of_SomeD
      dest: edge_size [where rs = "[]", simplified])

lemma all_edges_map_of:
  "sorted_edges es \<Longrightarrow> (\<forall>e \<in> set es. P e) \<longleftrightarrow> (\<forall>l c. map_of es l = Some c \<longrightarrow> P (l, c))"
  by (simp add: sorted_edges_map_of [symmetric] Ball_def split_paired_All)

lemma all_labels_map_of:
  "sorted_edges es \<Longrightarrow> (\<forall>l \<in> fst ` set es. P l) \<longleftrightarrow> (\<forall>l c. map_of es l = Some c \<longrightarrow> P l)"
  using all_edges_map_of [of es "\<lambda>e. P (fst e)"] by simp

lemma all_children_iff:
  assumes "sorted_edges es" and "\<forall>l \<in> fst ` set es. l \<noteq> ''*''"
  shows "(\<forall>l c. child (Node w rs es) l = Some c \<longrightarrow> P c) \<longleftrightarrow>
    (case w of None \<Rightarrow> True | Some x \<Rightarrow> P x) \<and> (\<forall>e \<in> set es. P (snd e))" (is "?L \<longleftrightarrow> ?R")
proof
  assume L: ?L
  have "P x" if "w = Some x" for x using L [rule_format, of "''*''" x] that by (simp add: child_def)
  moreover have "P c" if "(l, c) \<in> set es" for l c
  proof -
    have "l \<noteq> ''*''" using assms(2) that by force
    then show ?thesis
      using L [rule_format, of l c] that assms(1) by (simp add: child_def sorted_edges_map_of)
  qed
  ultimately show ?R by (auto split: option.split)
next
  assume ?R
  then show ?L by (auto simp: child_def split: if_splits dest!: map_of_SomeD)
qed

lemma wf_node_iff:
  "wf_node n \<longleftrightarrow> sorted_edges (Children n) \<and>
     (\<forall>l \<in> fst ` set (Children n). valid_label l \<and> l \<noteq> ''*'') \<and>
     (\<forall>l c. child n l = Some c \<longrightarrow> wf_node c)"
proof -
  obtain w rs es where n: "n = Node w rs es" by (cases n)
  show ?thesis
  proof (cases "sorted_edges es \<and> (\<forall>l \<in> fst ` set es. l \<noteq> ''*'')")
    case True
    then show ?thesis
      unfolding n by (subst all_children_iff) (auto simp: wf_node.simps list_all_iff)
  next
    case False
    then show ?thesis by (auto simp: n wf_node.simps list_all_iff)
  qed
qed

lemma pruned_iff:
  assumes "wf_node n"
  shows "pruned n \<longleftrightarrow> (\<forall>l c. child n l = Some c \<longrightarrow> \<not> is_ghost c \<and> pruned c)"
proof -
  obtain w rs es where n: "n = Node w rs es" by (cases n)
  have "sorted_edges es" and "\<forall>l \<in> fst ` set es. l \<noteq> ''*''"
    using assms by (auto simp: n wf_node.simps list_all_iff)
  then show ?thesis
    unfolding n by (subst all_children_iff) (auto simp: pruned.simps list_all_iff)
qed

section \<open>Paths of labels\<close>

text \<open>The node a path of labels reaches, and the map a node stands for.\<close>

fun node_at :: "node \<Rightarrow> string list \<Rightarrow> node option" where
  "node_at n [] = Some n"
| "node_at n (l # ls) = (case child n l of None \<Rightarrow> None | Some c \<Rightarrow> node_at c ls)"

definition abs_map :: "node \<Rightarrow> string list \<Rightarrow> RRSets option" where
  "abs_map n ls =
     (case node_at n ls of
        None \<Rightarrow> None
      | Some m \<Rightarrow> if NodeRRSets m = [] then None else Some (NodeRRSets m))"

lemma abs_map_Nil: "abs_map n [] = (if NodeRRSets n = [] then None else Some (NodeRRSets n))"
  by (simp add: abs_map_def)

lemma abs_map_Cons: "abs_map n (l # ls) = (case child n l of None \<Rightarrow> None | Some c \<Rightarrow> abs_map c ls)"
  by (simp add: abs_map_def split: option.split)

lemma child_empty [simp]: "child empty_node l = None"
  by (simp add: child_def empty_node_def)

lemma abs_map_empty [simp]: "abs_map empty_node = Map.empty"
proof
  show "abs_map empty_node ls = None" for ls
    by (cases ls) (simp_all add: abs_map_Nil abs_map_Cons, simp add: empty_node_def)
qed

lemma wf_empty [simp]: "wf_node empty_node" and pruned_empty [simp]: "pruned empty_node"
  by (simp_all add: empty_node_def wf_node.simps pruned.simps)

lemma wf_child: "wf_node n \<Longrightarrow> child n l = Some c \<Longrightarrow> wf_node c"
  by (simp add: wf_node_iff [of n])

lemma pruned_child: "wf_node n \<Longrightarrow> pruned n \<Longrightarrow> child n l = Some c \<Longrightarrow> pruned c"
  by (simp add: pruned_iff [of n])

lemma wf_node_at: "wf_node n \<Longrightarrow> node_at n ls = Some m \<Longrightarrow> wf_node m"
  by (induction ls arbitrary: n) (auto split: option.splits intro: wf_child)

lemma findEdge_child:
  assumes "wf_node n" and "label \<noteq> ''*''"
  shows "findEdge (Children n) label = (edge_pos (Children n) label, child n label \<noteq> None)"
    and "child n label = Some c \<Longrightarrow> snd (Children n ! edge_pos (Children n) label) = c"
    and "child n label \<noteq> None \<longleftrightarrow> label \<in> fst ` set (Children n)"
proof -
  have s: "sorted_edges (Children n)" using assms(1) by (simp add: wf_node_iff [of n])
  have m: "child n label = map_of (Children n) label" using assms(2) by (simp add: child_def)
  show dom: "child n label \<noteq> None \<longleftrightarrow> label \<in> fst ` set (Children n)"
    unfolding m by (simp add: map_of_eq_None_iff)
  show "findEdge (Children n) label = (edge_pos (Children n) label, child n label \<noteq> None)"
    unfolding dom by (rule findEdge_spec [OF s])
  assume c: "child n label = Some c"
  then have "label \<in> fst ` set (Children n)" using dom by simp
  from edges_set_laws(4) [OF s this] show "snd (Children n ! edge_pos (Children n) label) = c"
    using c m by simp
qed

lemma findNode_loop_labels:
  "wf_node n \<Longrightarrow> findNode_loop n it = node_at n (iter_labels it)"
proof (induction n it rule: findNode_loop.induct)
  case (1 n it)
  obtain o1 it' where nl: "NextLower it = (o1, it')" by (cases "NextLower it")
  show ?case
  proof (cases o1)
    case None
    then show ?thesis by (simp add: findNode_loop.simps [of n] iter_labels.simps [of it] nl)
  next
    case (Some l)
    show ?thesis
    proof (cases "l = ''*''")
      case True
      then show ?thesis
        using 1 wf_child [of n l]
        by (auto simp: findNode_loop.simps [of n] iter_labels.simps [of it] nl Some child_def
            split: option.split)
    next
      case False
      note fe = findEdge_child [OF 1(3) False]
      show ?thesis
        using 1(2) [OF nl [symmetric] Some False fe(1) [symmetric]] wf_child [OF 1(3), of l] False fe
        by (auto simp: findNode_loop.simps [of n] iter_labels.simps [of it] nl Some
            split: option.split)
    qed
  qed
qed

lemma findNode_labels: "wf_node n \<Longrightarrow> findNode n d = node_at n (labels d)"
  by (simp add: findNode_def findNode_loop_labels labels_def)

lemma radix_Get_labels: "wf_node (root t) \<Longrightarrow> radix_Get t d = abs_map (root t) (labels d)"
  by (simp add: radix_Get_def findNode_loop_labels labels_def abs_map_def)

section \<open>Replacing one child\<close>

definition put_child :: "node \<Rightarrow> string \<Rightarrow> node \<Rightarrow> node" where
  "put_child n l c =
     (if l = ''*'' then Node (Some c) (NodeRRSets n) (Children n)
      else Node (Wildcard n) (NodeRRSets n)
        ((if l \<in> fst ` set (Children n) then edges_set (Children n) (edge_pos (Children n) l) c
          else edges_insert (Children n) (edge_pos (Children n) l) (l, c))))"

definition cut_child :: "node \<Rightarrow> string \<Rightarrow> node" where
  "cut_child n l =
     (if l = ''*'' then Node None (NodeRRSets n) (Children n)
      else Node (Wildcard n) (NodeRRSets n)
        (edges_delete (Children n) (edge_pos (Children n) l)))"

lemma put_child_rrsets [simp]: "NodeRRSets (put_child n l c) = NodeRRSets n"
  and cut_child_rrsets [simp]: "NodeRRSets (cut_child n l) = NodeRRSets n"
  by (simp_all add: put_child_def cut_child_def)

lemma child_put_child:
  "wf_node n \<Longrightarrow> child (put_child n l c) = (child n)(l \<mapsto> c)"
  by (auto simp: put_child_def child_def fun_eq_iff wf_node_iff [of n]
      edges_set_laws(2) edges_insert_laws(2))

lemma wf_node_changeI:
  assumes "wf_node n" and "sorted_edges (Children m)"
    and "fst ` set (Children m) \<subseteq> L \<union> fst ` set (Children n)"
    and "\<And>l c. child m l = Some c \<Longrightarrow> wf_node c"
    and "\<And>l. l \<in> L \<Longrightarrow> valid_label l \<and> l \<noteq> ''*''"
  shows "wf_node m"
proof -
  have "\<forall>l \<in> fst ` set (Children n). valid_label l \<and> l \<noteq> ''*''"
    using assms(1) [unfolded wf_node_iff [of n]] by (elim conjE)
  then have "valid_label l \<and> l \<noteq> ''*''" if "l \<in> fst ` set (Children m)" for l
    using subsetD [OF assms(3) that] assms(5) [of l] by (elim UnE) (simp, rule bspec)
  with assms(2,4) show ?thesis by (subst wf_node_iff) (intro conjI ballI allI impI, simp_all)
qed

lemma wf_put_child:
  assumes "wf_node n" and "valid_label l" and "wf_node c"
  shows "wf_node (put_child n l c)"
proof -
  have s: "sorted_edges (Children n)" using assms(1) by (simp add: wf_node_iff [of n])
  have "sorted_edges (Children (put_child n l c))"
    using s by (simp add: put_child_def edges_set_laws(1) edges_insert_laws(1))
  moreover have "set (Children (put_child n l c)) \<subseteq>
      (if l = ''*'' then {} else {(l, c)}) \<union> set (Children n)"
    using edges_set_laws(3) [OF s, of l c] edges_insert_laws(3) [OF s, of l c]
    by (cases "l \<in> fst ` set (Children n)") (simp_all add: put_child_def subset_insertI)
  from image_mono [OF this, of fst] have "fst ` set (Children (put_child n l c)) \<subseteq>
      (if l = ''*'' then {} else {l}) \<union> fst ` set (Children n)"
    by (simp add: image_Un split: if_splits)
  moreover have "wf_node c'" if "child (put_child n l c) l' = Some c'" for l' c'
    using that assms wf_child [of n l' c'] by (auto simp: child_put_child split: if_splits)
  ultimately show ?thesis
    by (rule wf_node_changeI [OF assms(1)]) (use assms(2) in \<open>auto split: if_splits\<close>)
qed

lemma child_cut_child:
  assumes "wf_node n" and "child n l \<noteq> None"
  shows "child (cut_child n l) = (child n)(l := None)"
proof (cases "l = ''*''")
  case False
  have "map_of (edges_delete (Children n) (edge_pos (Children n) l)) = (map_of (Children n))(l := None)"
    using assms findEdge_child(3) [OF assms(1) False] wf_node_iff [of n] by (intro edges_delete_laws(2)) blast+
  with False show ?thesis by (simp add: cut_child_def child_def fun_eq_iff)
qed (auto simp: cut_child_def child_def fun_eq_iff)

lemma wf_cut_child:
  assumes "wf_node n" and "child n l \<noteq> None"
  shows "wf_node (cut_child n l)"
proof -
  have s: "sorted_edges (Children n)" using assms(1) by (simp add: wf_node_iff [of n])
  have d: "l \<noteq> ''*'' \<Longrightarrow> l \<in> fst ` set (Children n)"
    using findEdge_child(3) [OF assms(1), of l] assms(2) by blast
  show ?thesis
  proof (rule wf_node_changeI [OF assms(1), where L = "{}"])
    show "sorted_edges (Children (cut_child n l))"
      using s d by (simp add: cut_child_def edges_delete_laws(1))
    show "fst ` set (Children (cut_child n l)) \<subseteq> {} \<union> fst ` set (Children n)"
      using edges_delete_laws(3) [OF s d] by (auto simp: cut_child_def)
    show "wf_node c'" if "child (cut_child n l) l' = Some c'" for l' c'
      using that wf_child [OF assms(1), of l' c']
      by (simp add: child_cut_child [OF assms] split: if_splits)
  qed simp
qed

section \<open>The loops as recursion over labels\<close>

fun upsert_at :: "node \<Rightarrow> string list \<Rightarrow> RRSets \<Rightarrow> node" where
  "upsert_at n [] rs = Node (Wildcard n) rs (Children n)"
| "upsert_at n (l # ls) rs =
     put_child n l (upsert_at (case child n l of None \<Rightarrow> empty_node | Some c \<Rightarrow> c) ls rs)"

lemma put_child_code:
  assumes "wf_node n" and "label \<noteq> ''*''"
  shows "child n label = None \<Longrightarrow> put_child n label c =
      Node (Wildcard n) (NodeRRSets n) (edges_insert (Children n) (edge_pos (Children n) label) (label, c))"
    and "child n label \<noteq> None \<Longrightarrow> put_child n label c =
      Node (Wildcard n) (NodeRRSets n) (edges_set (Children n) (edge_pos (Children n) label) c)"
  using assms(2) findEdge_child(3) [OF assms] unfolding put_child_def by presburger+

lemma child_star: "child n ''*'' = Wildcard n"
  by (simp add: child_def)

lemma abs_map_orphan:
  "abs_map (case child n l of None \<Rightarrow> empty_node | Some c \<Rightarrow> c) ls = abs_map n (l # ls)"
  by (simp add: abs_map_Cons split: option.split)

lemma wf_orphan: "wf_node n \<Longrightarrow> wf_node (case child n l of None \<Rightarrow> empty_node | Some c \<Rightarrow> c)"
  by (simp add: wf_child split: option.split)

lemma upsert_loop_labels:
  "wf_node n \<Longrightarrow> upsert_loop n it rs =
     (upsert_at n (iter_labels it) rs, abs_map n (iter_labels it) = None)"
proof (induction n it rs rule: upsert_loop.induct)
  case (1 n it rs)
  obtain o1 it' where nl: "NextLower it = (o1, it')" by (cases "NextLower it")
  note unf = upsert_loop.simps [of n] iter_labels.simps [of it] nl
  show ?case
  proof (cases o1)
    case None
    then show ?thesis by (simp add: unf abs_map_Nil)
  next
    case (Some l)
    note wfc = wf_orphan [OF 1(4), of l]
    show ?thesis
    proof (cases "l = ''*''")
      case True
      then show ?thesis
        using 1(1) [OF nl [symmetric] Some] wfc abs_map_orphan [of n l "iter_labels it'"]
        by (simp add: unf Some put_child_def child_star cong: option.case_cong)
    next
      case False
      note fe = findEdge_child [OF 1(4) False]
      note ih = 1(2,3) [OF nl [symmetric] Some False fe(1) [symmetric]]
      show ?thesis
      proof (cases "child n l")
        case None
        then show ?thesis using ih(1) put_child_code(1) [OF 1(4) False] False
          by (simp add: unf Some fe(1) abs_map_Cons)
      next
        case (Some c)
        then show ?thesis using ih(2) put_child_code(2) [OF 1(4) False] False wfc
          by (simp add: unf \<open>o1 = Some l\<close> fe(1) fe(2) abs_map_Cons)
      qed
    qed
  qed
qed

lemma insert_loop_labels:
  "wf_node n \<Longrightarrow> insert_loop n it rs =
     (upsert_at n (iter_labels it) rs, abs_map n (iter_labels it) = None \<and> rs \<noteq> [])"
proof (induction n it rs rule: insert_loop.induct)
  case (1 n it rs)
  obtain o1 it' where nl: "NextLower it = (o1, it')" by (cases "NextLower it")
  note unf = insert_loop.simps [of n] iter_labels.simps [of it] nl
  show ?case
  proof (cases o1)
    case None
    then show ?thesis by (simp add: unf abs_map_Nil)
  next
    case (Some l)
    note wfc = wf_orphan [OF 1(4), of l]
    show ?thesis
    proof (cases "l = ''*''")
      case True
      then show ?thesis
        using 1(1) [OF nl [symmetric] Some] wfc abs_map_orphan [of n l "iter_labels it'"]
        by (simp add: unf Some put_child_def child_star)
    next
      case False
      note fe = findEdge_child [OF 1(4) False]
      note ih = 1(2,3) [OF nl [symmetric] Some False fe(1) [symmetric]]
      show ?thesis
      proof (cases "child n l")
        case None
        then show ?thesis using ih(1) put_child_code(1) [OF 1(4) False] False
          by (simp add: unf Some fe(1) abs_map_Cons)
      next
        case (Some c)
        then show ?thesis using ih(2) put_child_code(2) [OF 1(4) False] False wfc
          by (simp add: unf \<open>o1 = Some l\<close> fe(1) fe(2) abs_map_Cons)
      qed
    qed
  qed
qed

lemma wf_upsert_at:
  "wf_node n \<Longrightarrow> list_all valid_label ls \<Longrightarrow> wf_node (upsert_at n ls rs)"
proof (induction ls arbitrary: n)
  case Nil
  then show ?case by (cases n) (simp add: wf_node.simps)
next
  case (Cons l ls)
  then show ?case by (simp add: wf_put_child wf_orphan)
qed

lemma abs_map_upsert_at:
  "wf_node n \<Longrightarrow> rs \<noteq> [] \<Longrightarrow> abs_map (upsert_at n ls rs) = (abs_map n)(ls \<mapsto> rs)"
proof (induction ls arbitrary: n)
  case Nil
  show ?case
  proof
    show "abs_map (upsert_at n [] rs) ls' = ((abs_map n)([] \<mapsto> rs)) ls'" for ls'
      using Nil(2) by (cases ls') (simp_all add: abs_map_Nil abs_map_Cons child_def)
  qed
next
  case (Cons l ls)
  show ?case
  proof
    show "abs_map (upsert_at n (l # ls) rs) ls' = ((abs_map n)(l # ls \<mapsto> rs)) ls'" for ls'
      using Cons.IH [OF wf_orphan [OF Cons.prems(1), of l] Cons.prems(2)] Cons.prems(1)
        abs_map_orphan [of n l]
      by (cases ls') (auto simp: abs_map_Nil abs_map_Cons child_put_child)
  qed
qed

fun delete_at :: "node \<Rightarrow> string list \<Rightarrow> node option" where
  "delete_at n [] =
     (let n' = Node (Wildcard n) [] (Children n) in if is_ghost n' then None else Some n')"
| "delete_at n (l # ls) =
     (case child n l of
        None \<Rightarrow> Some n
      | Some c \<Rightarrow>
          (case delete_at c ls of
             None \<Rightarrow> (let n' = cut_child n l in if is_ghost n' then None else Some n')
           | Some c' \<Rightarrow> Some (put_child n l c')))"

lemma is_ghost_put_star: "is_ghost (Node (Some c) rs es) \<longleftrightarrow> False"
  by (simp add: is_ghost_def)

lemma deletePath_labels:
  "wf_node n \<Longrightarrow> deletePath n it =
     (if abs_map n (iter_labels it) = None then (Some n, False)
      else (delete_at n (iter_labels it), True))"
proof (induction n it rule: deletePath.induct)
  case (1 n it)
  obtain o1 it' where nl: "NextLower it = (o1, it')" by (cases "NextLower it")
  note unf = deletePath.simps [of n] iter_labels.simps [of it] nl
  show ?case
  proof (cases o1)
    case None
    then show ?thesis by (simp add: unf abs_map_Nil is_ghost_def Let_def)
  next
    case (Some l)
    show ?thesis
    proof (cases "l = ''*''")
      case True
      show ?thesis
      proof (cases "Wildcard n")
        case None
        then show ?thesis by (simp add: unf Some True abs_map_Cons child_star)
      next
        case (Some w)
        then have "wf_node w" using wf_child [OF 1(3), of "''*''"] by (simp add: child_star)
        then show ?thesis
          using 1(1) [OF nl [symmetric] \<open>o1 = Some l\<close> True Some] Some
          by (simp add: unf \<open>o1 = Some l\<close> True abs_map_Cons child_star put_child_def cut_child_def
              is_ghost_put_star Let_def split: option.split)
      qed
    next
      case False
      note fe = findEdge_child [OF 1(3) False]
      show ?thesis
      proof (cases "child n l")
        case None
        then show ?thesis using False by (simp add: unf Some fe(1) abs_map_Cons)
      next
        case (Some c)
        have "wf_node c" using wf_child [OF 1(3) Some] .
        then show ?thesis
          using 1(2) [OF nl [symmetric] \<open>o1 = Some l\<close> False fe(1) [symmetric]] Some False
            put_child_code(2) [OF 1(3) False]
          by (simp add: unf \<open>o1 = Some l\<close> fe(1) fe(2) abs_map_Cons cut_child_def Let_def
              split: option.split)
      qed
    qed
  qed
qed

lemma wf_delete_at: "wf_node n \<Longrightarrow> delete_at n ls = Some n' \<Longrightarrow> wf_node n'"
proof (induction ls arbitrary: n n')
  case Nil
  then show ?case by (cases n) (auto simp: wf_node.simps Let_def split: if_splits)
next
  case (Cons l ls)
  show ?case
  proof (cases "child n l")
    case None
    with Cons.prems show ?thesis by simp
  next
    case (Some c)
    have "valid_label l" if "l \<noteq> ''*''"
      using Some Cons.prems(1) findEdge_child(3) [OF Cons.prems(1) that] wf_node_iff [of n] by auto
    moreover have "valid_label ''*''" by (simp add: valid_label_def lower_ascii_def lower_char_def is_upper_def)
    ultimately have "valid_label l" by metis
    with Some Cons.prems Cons.IH [of c] wf_child [OF Cons.prems(1) Some] show ?thesis
      by (auto simp: wf_cut_child wf_put_child Let_def split: option.splits if_splits)
  qed
qed

definition abs_opt :: "node option \<Rightarrow> string list \<Rightarrow> RRSets option" where
  "abs_opt on = (case on of None \<Rightarrow> Map.empty | Some n \<Rightarrow> abs_map n)"

lemma abs_map_ghost: "is_ghost n \<Longrightarrow> abs_map n = Map.empty"
proof -
  assume "is_ghost n"
  then have "n = empty_node" by (cases n) (simp add: is_ghost_def empty_node_def)
  then show ?thesis by simp
qed

lemma abs_opt_prune: "abs_opt (if is_ghost n then None else Some n) = abs_map n"
  by (simp add: abs_opt_def abs_map_ghost)

lemma abs_delete_at: "wf_node n \<Longrightarrow> abs_opt (delete_at n ls) = (abs_map n)(ls := None)"
proof (induction ls arbitrary: n)
  case Nil
  have "abs_map (Node (Wildcard n) [] (Children n)) ls' = ((abs_map n)([] := None)) ls'" for ls'
    by (cases ls') (simp_all add: abs_map_Nil abs_map_Cons child_def)
  then show ?case by (simp add: abs_opt_prune Let_def fun_eq_iff)
next
  case (Cons l ls)
  show ?case
  proof (cases "child n l")
    case None
    then show ?thesis by (auto simp: abs_opt_def abs_map_Cons fun_eq_iff)
  next
    case (Some c)
    note ih = Cons.IH [OF wf_child [OF Cons.prems Some]]
    have cut: "abs_map (cut_child n l) ls' = ((abs_map n)(l # ls := None)) ls'"
      if "delete_at c ls = None" for ls'
      using ih that Some child_cut_child [OF Cons.prems, of l]
      by (cases ls') (auto simp: abs_opt_def abs_map_Nil abs_map_Cons fun_eq_iff split: if_splits)
    have put: "abs_map (put_child n l c') ls' = ((abs_map n)(l # ls := None)) ls'"
      if "delete_at c ls = Some c'" for c' ls'
      using ih that Some child_put_child [OF Cons.prems, of l]
      by (cases ls') (auto simp: abs_opt_def abs_map_Nil abs_map_Cons)
    show ?thesis
      using cut put Some
      by (cases "delete_at c ls") (simp_all add: abs_opt_prune Let_def fun_eq_iff, simp add: abs_opt_def)
  qed
qed

section \<open>Pruning, finiteness and canonical form\<close>

lemma not_ghost_child: "child n l = Some c \<Longrightarrow> \<not> is_ghost n"
  by (auto simp: is_ghost_def child_def split: if_splits)

lemma pruned_put_child:
  "wf_node n \<Longrightarrow> pruned n \<Longrightarrow> valid_label l \<Longrightarrow> wf_node c \<Longrightarrow> pruned c \<Longrightarrow> \<not> is_ghost c \<Longrightarrow>
   pruned (put_child n l c)"
  by (subst pruned_iff) (auto simp: wf_put_child child_put_child pruned_iff [of n] split: if_splits)

lemma pruned_cut_child:
  "wf_node n \<Longrightarrow> pruned n \<Longrightarrow> child n l = Some c \<Longrightarrow> pruned (cut_child n l)"
  by (subst pruned_iff) (auto simp: wf_cut_child child_cut_child pruned_iff [of n] split: if_splits)

lemma put_child_not_ghost: "wf_node n \<Longrightarrow> \<not> is_ghost (put_child n l c)"
  by (rule not_ghost_child [of _ l c]) (simp add: child_put_child)

lemma pruned_orphan:
  "wf_node n \<Longrightarrow> pruned n \<Longrightarrow> pruned (case child n l of None \<Rightarrow> empty_node | Some c \<Rightarrow> c)"
  by (simp add: pruned_child split: option.split)

lemma pruned_upsert_at:
  "wf_node n \<Longrightarrow> pruned n \<Longrightarrow> list_all valid_label ls \<Longrightarrow> rs \<noteq> [] \<Longrightarrow>
   pruned (upsert_at n ls rs) \<and> \<not> is_ghost (upsert_at n ls rs)"
proof (induction ls arbitrary: n)
  case Nil
  then show ?case by (cases n) (simp add: pruned.simps is_ghost_def)
next
  case (Cons l ls)
  then show ?case
    using Cons.IH [OF wf_orphan [of n l] pruned_orphan [of n l]]
    by (simp add: pruned_put_child wf_upsert_at wf_orphan put_child_not_ghost)
qed

lemma pruned_delete_at:
  "wf_node n \<Longrightarrow> pruned n \<Longrightarrow> abs_map n ls \<noteq> None \<Longrightarrow> list_all valid_label ls \<Longrightarrow>
   delete_at n ls = Some n' \<Longrightarrow> pruned n' \<and> \<not> is_ghost n'"
proof (induction ls arbitrary: n n')
  case Nil
  then show ?case by (cases n) (auto simp: pruned.simps Let_def split: if_splits)
next
  case (Cons l ls)
  then obtain c where c: "child n l = Some c" and "abs_map c ls \<noteq> None"
    by (auto simp: abs_map_Cons split: option.splits)
  note cw = wf_child [OF Cons.prems(1) c] pruned_child [OF Cons.prems(1,2) c]
  show ?case
  proof (cases "delete_at c ls")
    case None
    with Cons.prems c show ?thesis
      by (auto simp: Let_def pruned_cut_child split: if_splits)
  next
    case (Some c')
    with Cons.prems c cw Cons.IH [OF cw \<open>abs_map c ls \<noteq> None\<close>] wf_delete_at [OF cw(1) Some]
    show ?thesis by (auto simp: pruned_put_child put_child_not_ghost)
  qed
qed

lemma finite_children: "finite {l. child n l \<noteq> None}"
proof (rule finite_subset)
  show "{l. child n l \<noteq> None} \<subseteq> insert ''*'' (dom (map_of (Children n)))"
    by (auto simp: child_def)
qed (simp add: finite_dom_map_of)

lemma finite_abs_map: "finite (dom (abs_map n))"
proof (induction n rule: measure_induct_rule [of size])
  case (less n)
  have "dom (abs_map n) \<subseteq>
      insert [] (\<Union>l \<in> {l. child n l \<noteq> None}. Cons l ` dom (abs_map (the (child n l))))"
  proof
    fix ls assume "ls \<in> dom (abs_map n)"
    then show "ls \<in> insert [] (\<Union>l \<in> {l. child n l \<noteq> None}. Cons l ` dom (abs_map (the (child n l))))"
      by (cases ls) (force simp: abs_map_Cons dom_def image_iff split: option.splits)+
  qed
  moreover have "finite (dom (abs_map (the (child n l))))" if "child n l \<noteq> None" for l
    using that less [OF child_size] by auto
  then have "finite (insert [] (\<Union>l \<in> {l. child n l \<noteq> None}.
      Cons l ` dom (abs_map (the (child n l)))))"
    using finite_children [of n] by (intro finite.insertI finite_UN_I finite_imageI) simp_all
  ultimately show ?case by (rule finite_subset)
qed

lemma pruned_nonempty:
  "wf_node n \<Longrightarrow> pruned n \<Longrightarrow> \<not> is_ghost n \<Longrightarrow> \<exists>ls. abs_map n ls \<noteq> None"
proof (induction n rule: measure_induct_rule [of size])
  case (less n)
  show ?case
  proof (cases "NodeRRSets n = []")
    case False
    then have "abs_map n [] \<noteq> None" by (simp add: abs_map_Nil)
    then show ?thesis by blast
  next
    case True
    obtain l c where c: "child n l = Some c"
    proof (cases "Wildcard n")
      case None
      with True less.prems(3) obtain l c es where "Children n = (l, c) # es"
        by (cases "Children n") (auto simp: is_ghost_def)
      with less.prems(1) have "child n l = Some c" by (auto simp: child_def wf_node_iff [of n])
      then show ?thesis by (rule that)
    next
      case (Some w)
      then show ?thesis using that [of "''*''" w] by (simp add: child_star)
    qed
    have "\<not> is_ghost c" using less.prems c by (simp add: pruned_iff)
    from less.IH [OF child_size [OF c] wf_child [OF less.prems(1) c] pruned_child [OF less.prems(1,2) c] this]
    obtain ls where "abs_map c ls \<noteq> None" by blast
    with c have "abs_map n (l # ls) \<noteq> None" by (simp add: abs_map_Cons)
    then show ?thesis by blast
  qed
qed

lemma sorted_edges_unique:
  assumes "sorted_edges es" "sorted_edges es'" "map_of es = map_of es'"
  shows "es = es'"
proof -
  have s: "set es = set es'"
    using sorted_edges_map_of [OF assms(1)] sorted_edges_map_of [OF assms(2)] assms(3) by auto
  have "inj_on fst (set es \<union> set es')"
    using assms(1) unfolding s [symmetric] by (auto simp: strict_sorted_iff distinct_map)
  then show ?thesis
    using assms(1,2) s by (auto intro: map_sorted_distinct_set_unique simp: strict_sorted_iff)
qed

lemma node_eqI:
  assumes "wf_node a" "wf_node b" "NodeRRSets a = NodeRRSets b" "child a = child b"
  shows "a = b"
proof -
  have star: "map_of (Children n) ''*'' = None" if "wf_node n" for n
    using that by (auto simp: wf_node_iff [of n] map_of_eq_None_iff)
  have "map_of (Children a) l = map_of (Children b) l" for l
    using fun_cong [OF assms(4), of l] star [OF assms(1)] star [OF assms(2)]
    by (cases "l = ''*''") (simp_all add: child_def)
  then have "Children a = Children b"
    using assms(1,2) by (intro sorted_edges_unique) (auto simp: wf_node_iff [of a] wf_node_iff [of b])
  moreover have "Wildcard a = Wildcard b" using fun_cong [OF assms(4), of "''*''"] by (simp add: child_star)
  ultimately show ?thesis using assms(3) by (cases a; cases b) simp
qed

text \<open>A pruned tree is determined by its contents.\<close>

lemma canonical:
  "wf_node a \<Longrightarrow> pruned a \<Longrightarrow> wf_node b \<Longrightarrow> pruned b \<Longrightarrow> abs_map a = abs_map b \<Longrightarrow> a = b"
proof (induction a arbitrary: b rule: measure_induct_rule [of size])
  case (less a)
  note wf = less.prems(1,3) and pr = less.prems(2,4)
  have nonempty: "\<exists>ls. abs_map n (l # ls) \<noteq> None"
    if "wf_node n" "pruned n" "child n l = Some c" for n l c
    using that pruned_nonempty [of c] wf_child [OF that(1,3)] pruned_iff [OF that(1)]
    by (simp add: abs_map_Cons)
  have child: "child a l = child b l" for l
  proof (cases "child a l")
    case None
    then have "abs_map b (l # ls) = None" for ls
      using fun_cong [OF less.prems(5), of "l # ls"] by (simp add: abs_map_Cons)
    with nonempty [OF wf(2) pr(2), of l] None show ?thesis by (cases "child b l") auto
  next
    case (Some c)
    obtain ls where "abs_map b (l # ls) \<noteq> None"
      using nonempty [OF wf(1) pr(1) Some] less.prems(5) by metis
    then obtain c' where c': "child b l = Some c'" by (auto simp: abs_map_Cons split: option.splits)
    have "abs_map c = abs_map c'"
      using fun_cong [OF less.prems(5), of "l # _"] Some c' by (auto simp: abs_map_Cons fun_eq_iff)
    with less.IH [OF child_size [OF Some], of c'] wf_child [OF wf(1) Some] wf_child [OF wf(2) c']
      pruned_child [OF wf(1) pr(1) Some] pruned_child [OF wf(2) pr(2) c'] Some c'
    show ?thesis by simp
  qed
  have "NodeRRSets a = NodeRRSets b"
    using fun_cong [OF less.prems(5), of "[]"] by (simp add: abs_map_Nil split: if_splits)
  with child wf show ?case by (intro node_eqI) auto
qed

section \<open>The tree as a record store\<close>

text \<open>The invariant of a tree reached by any sequence of \<open>Upsert\<close> and \<open>DeleteDomain\<close>.\<close>

definition size_ok :: "Tree \<Rightarrow> bool" where
  "size_ok t \<longleftrightarrow> tsize t = int (card (dom (abs_map (root t))))"

definition tree_inv :: "Tree \<Rightarrow> bool" where
  "tree_inv t \<longleftrightarrow> wf_node (root t) \<and> pruned (root t) \<and> size_ok t"

lemma list_all_valid_labels: "list_all valid_label (labels d)"
  by (simp add: list_all_iff labels_valid)

lemma radix_DeleteDomain_labels:
  assumes "wf_node (root t)"
  shows "radix_DeleteDomain t d =
    (if abs_map (root t) (labels d) = None then t
     else \<lparr>root = (case delete_at (root t) (labels d) of None \<Rightarrow> empty_node | Some r \<Rightarrow> r),
           tsize = tsize t - 1\<rparr>)"
  using deletePath_labels [OF assms, of "NewDomainIterator d"]
  by (auto simp: radix_DeleteDomain_def findNode_labels [OF assms] abs_map_def labels_def
      split: option.splits if_splits)

lemma abs_opt_root: "abs_map (case on of None \<Rightarrow> empty_node | Some r \<Rightarrow> r) = abs_opt on"
  by (simp add: abs_opt_def split: option.split)

lemma card_dom_remove:
  "finite (dom m) \<Longrightarrow> m k \<noteq> None \<Longrightarrow> int (card (dom (m(k := None)))) = int (card (dom m)) - 1"
  using card.remove [of "dom m" k] by (simp add: domIff)

lemma DeleteDomain_laws:
  assumes "wf_node (root t)"
  shows "wf_node (root (radix_DeleteDomain t d))"
    and "abs_map (root (radix_DeleteDomain t d)) = (abs_map (root t))(labels d := None)"
    and "pruned (root t) \<Longrightarrow> pruned (root (radix_DeleteDomain t d))"
    and "size_ok t \<Longrightarrow> size_ok (radix_DeleteDomain t d)"
proof -
  note D = radix_DeleteDomain_labels [OF assms, of d]
  show abs: "abs_map (root (radix_DeleteDomain t d)) = (abs_map (root t))(labels d := None)"
    by (auto simp: D abs_opt_root abs_delete_at [OF assms])
  show "wf_node (root (radix_DeleteDomain t d))"
    using assms wf_delete_at [OF assms] by (simp add: D split: option.split)
  show "pruned (root t) \<Longrightarrow> pruned (root (radix_DeleteDomain t d))"
    using pruned_delete_at [OF assms _ _ list_all_valid_labels] by (simp add: D split: option.split)
  show "size_ok t \<Longrightarrow> size_ok (radix_DeleteDomain t d)"
  proof (cases "abs_map (root t) (labels d) = None")
    case False
    assume "size_ok t"
    then have "tsize (radix_DeleteDomain t d) =
        int (card (dom ((abs_map (root t))(labels d := None))))"
      using card_dom_remove [OF finite_abs_map [of "root t"] False] False by (simp add: D size_ok_def)
    then show ?thesis by (simp only: size_ok_def abs)
  qed (simp add: D)
qed

lemma Upsert_laws:
  assumes "wf_node (root t)"
  shows "wf_node (root (radix_Upsert t d rs))"
    and "abs_map (root (radix_Upsert t d rs)) =
      (abs_map (root t))(labels d := if rs = [] then None else Some rs)"
    and "pruned (root t) \<Longrightarrow> pruned (root (radix_Upsert t d rs))"
    and "size_ok t \<Longrightarrow> size_ok (radix_Upsert t d rs)"
proof -
  have U: "radix_Upsert t d rs = \<lparr>root = upsert_at (root t) (labels d) rs,
      tsize = (if abs_map (root t) (labels d) = None then tsize t + 1 else tsize t)\<rparr>" if "rs \<noteq> []"
    using that upsert_loop_labels [OF assms, of "NewDomainIterator d" rs]
    by (simp add: radix_Upsert_def labels_def)
  have E: "radix_Upsert t d [] = radix_DeleteDomain t d" by (simp add: radix_Upsert_def)
  show abs: "abs_map (root (radix_Upsert t d rs)) =
      (abs_map (root t))(labels d := if rs = [] then None else Some rs)"
    using abs_map_upsert_at [OF assms] by (cases "rs = []") (auto simp: E U DeleteDomain_laws(2) assms)
  show "wf_node (root (radix_Upsert t d rs))"
    using wf_upsert_at [OF assms list_all_valid_labels]
    by (cases "rs = []") (auto simp: E U DeleteDomain_laws(1) assms)
  show "pruned (root t) \<Longrightarrow> pruned (root (radix_Upsert t d rs))"
    using pruned_upsert_at [OF assms _ list_all_valid_labels]
    by (cases "rs = []") (auto simp: E U DeleteDomain_laws(3) assms)
  show "size_ok t \<Longrightarrow> size_ok (radix_Upsert t d rs)"
    using abs finite_abs_map [of "root t"]
    by (cases "rs = []", simp add: E DeleteDomain_laws(4) assms)
      (auto simp: U size_ok_def card_insert_if insert_absorb)
qed

lemma tree_inv_New: "tree_inv radix_New"
  by (simp add: tree_inv_def radix_New_def size_ok_def)

interpretation rt: record_store labels radix_New radix_Upsert radix_DeleteDomain radix_Get radix_Len
  tree_inv "\<lambda>t. abs_map (root t)"
  by unfold_locales
    (auto simp: tree_inv_New tree_inv_def Upsert_laws DeleteDomain_laws radix_Get_labels
      finite_abs_map radix_Len_def size_ok_def [symmetric], simp_all add: radix_New_def size_ok_def)

section \<open>Properties\<close>

lemma valid_label_star [simp]: "valid_label ''*''"
  by (simp add: valid_label_def lower_ascii_def lower_char_def is_upper_def)

lemma node_at_valid: "wf_node n \<Longrightarrow> node_at n ls = Some m \<Longrightarrow> list_all valid_label ls"
proof (induction ls arbitrary: n)
  case (Cons l ls)
  then obtain c where c: "child n l = Some c" and "node_at c ls = Some m" by (auto split: option.splits)
  have "valid_label l"
  proof (cases "l = ''*''")
    case False
    then show ?thesis
      using c Cons.prems(1) findEdge_child(3) [OF Cons.prems(1) False] wf_node_iff [of n] by auto
  qed simp
  with Cons.IH [OF wf_child [OF Cons.prems(1) c]] \<open>node_at c ls = Some m\<close> show ?case by simp
qed simp

lemma abs_map_valid: "wf_node n \<Longrightarrow> abs_map n ls \<noteq> None \<Longrightarrow> list_all valid_label ls"
  using node_at_valid [of n ls] by (auto simp: abs_map_def split: option.splits)

lemma get_determines:
  assumes "tree_inv t" and "tree_inv t'" and "\<And>d. radix_Get t d = radix_Get t' d"
  shows "t = t'"
proof -
  have wf: "wf_node (root t)" "wf_node (root t')" using assms by (auto simp: tree_inv_def)
  have "abs_map (root t) ls = abs_map (root t') ls" for ls
  proof (cases "list_all valid_label ls")
    case True
    then show ?thesis
      using assms(3) [of "dotted ls"] by (simp add: radix_Get_labels wf labels_dotted)
  next
    case False
    then show ?thesis using abs_map_valid [OF wf(1)] abs_map_valid [OF wf(2)] by metis
  qed
  then have abs: "abs_map (root t) = abs_map (root t')" by (rule ext)
  have "root t = root t'"
    using assms(1,2) by (intro canonical) (auto simp: tree_inv_def abs)
  moreover have "tsize t = tsize t'"
    using assms(1,2) abs by (simp add: tree_inv_def size_ok_def)
  ultimately show ?thesis by simp
qed

text \<open>C2: \<open>Upsert\<close> followed by \<open>Get\<close>.  After \<open>Upsert(d, rs)\<close> a lookup of any name with the same
  labels as \<open>d\<close> (names are compared label by label without case) returns exactly \<open>rs\<close>, or
  nothing when \<open>rs\<close> is empty; every other name is looked up as before; the tree invariant
  (sorted edges, no empty leaves, \<open>Len\<close> the number of stored domains) is kept.\<close>

theorem radix_get_after_upsert:
  assumes "tree_inv t"
  shows "radix_Get (radix_Upsert t d rs) d' =
      (if labels d' = labels d then (if rs = [] then None else Some rs) else radix_Get t d') \<and>
    tree_inv (radix_Upsert t d rs)"
  using assms by (simp add: rt.get_cont rt.invar_upsert rt.cont_upsert)

definition a_set :: RRSet where
  "a_set = \<lparr>RData = [[192, 0, 2, 1]], TTL = 300, rr_Type = TypeA, rr_Class = ClassIN\<rparr>"

theorem radix_get_after_upsert_witness:
  "radix_Get (radix_Upsert radix_New ''www.Example.com'' [a_set]) ''WWW.example.com.'' = Some [a_set] \<and>
   radix_Get (radix_Upsert radix_New ''www.Example.com'' [a_set]) ''example.com'' = None"
proof -
  have "labels ''WWW.example.com.'' = labels ''www.Example.com''"
    "labels ''example.com'' \<noteq> labels ''www.Example.com''"
    by code_simp+
  then show ?thesis
    using radix_get_after_upsert [OF tree_inv_New, of "''www.Example.com''" "[a_set]"]
    by (simp add: rt.get_cont [OF tree_inv_New] rt.cont_empty)
qed

text \<open>C13: a tree after any history of writes.  However a sequence of \<open>Upsert\<close> and
  \<open>DeleteDomain\<close> calls came about, the tree satisfies its invariant and \<open>Get\<close> answers for
  every name with the last write to that name: the records of a last \<open>Upsert\<close>, nothing after a
  last delete (or an \<open>Upsert\<close> without records), and nothing for a name never written.\<close>

theorem radix_history:
  "tree_inv (run_mutations radix_Upsert radix_DeleteDomain radix_New ms) \<and>
   radix_Get (run_mutations radix_Upsert radix_DeleteDomain radix_New ms) d =
     (case last_mutation labels (labels d) ms of
        None \<Rightarrow> None
      | Some m \<Rightarrow> mutation_value m)"
  using rt.get_run [OF tree_inv_New, of ms d]
  by (simp add: rt.invar_run tree_inv_New rt.get_cont [OF tree_inv_New] rt.cont_empty split: option.split)

text \<open>C14: pruning is complete.  Two trees with the same visible contents are equal node for
  node, whatever writes built them: no write leaves structure behind, deleting what was
  inserted gives back the very tree, and the size counter agrees.\<close>

theorem radix_no_residue:
  assumes "\<And>d. radix_Get (run_mutations radix_Upsert radix_DeleteDomain radix_New ms) d =
      radix_Get (run_mutations radix_Upsert radix_DeleteDomain radix_New ms') d"
  shows "run_mutations radix_Upsert radix_DeleteDomain radix_New ms =
    run_mutations radix_Upsert radix_DeleteDomain radix_New ms'"
  by (rule get_determines) (simp_all add: assms rt.invar_run tree_inv_New)

theorem radix_no_residue_witness:
  "radix_DeleteDomain (radix_Upsert radix_New ''a.b.example.com'' [a_set]) ''A.b.example.com'' =
   radix_New"
proof -
  have "labels ''A.b.example.com'' = labels ''a.b.example.com''"
    by code_simp
  then have "radix_Get (radix_DeleteDomain (radix_Upsert radix_New ''a.b.example.com'' [a_set])
      ''A.b.example.com'') d = radix_Get radix_New d" for d
    by (simp add: rt.get_cont rt.invar_delete rt.invar_upsert tree_inv_New rt.cont_delete
        rt.cont_upsert rt.cont_empty)
  then show ?thesis
    using radix_no_residue [of "[Upsert ''a.b.example.com'' [a_set], DeleteDomain ''A.b.example.com'']" "[]"]
    by simp
qed

lemma reload_records_run:
  "wf_node (root t) \<Longrightarrow> list_all (\<lambda>y. snd y \<noteq> []) ys \<Longrightarrow>
   reload_records (root t, tsize t) ys =
     (let t' = run_mutations radix_Upsert radix_DeleteDomain t (map (\<lambda>(d, rs). Upsert d rs) ys)
      in (root t', tsize t'))"
proof (induction ys arbitrary: t)
  case (Cons y ys)
  obtain d rs where y: "y = (d, rs)" by (cases y)
  have rs: "rs \<noteq> []" using Cons.prems y by simp
  have "insert_loop (root t) (NewDomainIterator d) rs =
      (root (radix_Upsert t d rs), abs_map (root t) (labels d) = None)"
    using rs insert_loop_labels [OF Cons.prems(1), of "NewDomainIterator d" rs]
      upsert_loop_labels [OF Cons.prems(1), of "NewDomainIterator d" rs]
    by (simp add: radix_Upsert_def labels_def)
  moreover have "tsize (radix_Upsert t d rs) =
      (if abs_map (root t) (labels d) = None then tsize t + 1 else tsize t)"
    using rs upsert_loop_labels [OF Cons.prems(1), of "NewDomainIterator d" rs]
    by (simp add: radix_Upsert_def labels_def)
  ultimately show ?case
    using Cons.IH [OF Upsert_laws(1) [OF Cons.prems(1), of d rs]] Cons.prems
    by (simp add: y)
qed (simp add: Let_def)

text \<open>\<open>ReloadZone\<close>.  Loading a zone offline, by in-place insertion without copies, gives
  exactly the tree that \<open>Upsert\<close> of the same records one by one into an empty tree would give,
  size included; when the loader fails the old tree stays in service.\<close>

theorem ReloadZone_as_upserts:
  assumes "list_all (\<lambda>y. snd y \<noteq> []) ys"
  shows "ReloadZone t (Inr ys :: 'e + (string \<times> RRSets) list) = (None, run_mutations radix_Upsert radix_DeleteDomain radix_New
      (map (\<lambda>(d, rs). Upsert d rs) ys)) \<and>
    ReloadZone t (Inl (err :: 'e)) = (Some err, t)"
  using reload_records_run [of radix_New ys] assms
  by (simp add: ReloadZone_def radix_New_def Let_def)

theorem ReloadZone_as_upserts_witness:
  "snd (ReloadZone radix_New (Inr [(''example.com'', [a_set]), (''EXAMPLE.com'', [a_set])] ::
      nat + (string \<times> RRSets) list)) =
   radix_Upsert (radix_Upsert radix_New ''example.com'' [a_set]) ''EXAMPLE.com'' [a_set]"
  using ReloadZone_as_upserts [of "[(''example.com'', [a_set]), (''EXAMPLE.com'', [a_set])]"
      radix_New "0 :: nat"] by simp

end
