(* ===== verification/RadixQuery.thy ===== *)
theory RadixQuery
  imports RadixTree
begin

text \<open>
  The enumerations of \<open>internal/radix/query.go\<close>: \<open>walkTree\<close> with its shared 256-byte path buffer
  filled from the right, and \<open>Walk\<close>, \<open>Seek\<close> and \<open>Search\<close> on top of it.  The buffer version is
  proved to visit exactly the preorder of the tree with each node's full name, and \<open>Walk\<close> to
  yield each stored domain once, with its records.
\<close>

section \<open>The walk over the path buffer\<close>

text \<open>\<open>visit\<close> closes over mutable state \<open>'s\<close> and says whether to go on.  The walk threads that
  state and the buffer; a false result unwinds the recursion.\<close>

type_synonym 's visitor = "'s \<Rightarrow> node \<Rightarrow> string \<Rightarrow> bool \<times> 's"

function (sequential) walk_node :: "'s visitor \<Rightarrow> node \<Rightarrow> int \<Rightarrow> string \<times> 's \<Rightarrow> bool \<times> (string \<times> 's)"
  and walk_edges :: "'s visitor \<Rightarrow> edge list \<Rightarrow> int \<Rightarrow> string \<times> 's \<Rightarrow> bool \<times> (string \<times> 's)" where
  "walk_node visit (Node w rs es) offset (pathBuf, st) =
     (case visit st (Node w rs es) (sub_slice pathBuf (nat offset) 256) of
        (False, st') \<Rightarrow> (False, (pathBuf, st'))
      | (True, st') \<Rightarrow>
          (case w of
             None \<Rightarrow> walk_edges visit es offset (pathBuf, st')
           | Some wc \<Rightarrow>
               (let newOffset = (if offset = 256 then 255 else offset - 2);
                    pathBuf =
                      (if offset = 256 then pathBuf[255 := CHR ''*'']
                       else if newOffset \<ge> 0 then
                         pathBuf[nat newOffset := CHR ''*'', nat (newOffset + 1) := CHR ''.'']
                       else pathBuf)
                in if newOffset \<ge> 0 then
                     (case walk_node visit wc newOffset (pathBuf, st') of
                        (False, bs) \<Rightarrow> (False, bs)
                      | (True, bs) \<Rightarrow> walk_edges visit es offset bs)
                   else walk_edges visit es offset (pathBuf, st'))))"
| "walk_edges visit [] offset bs = (True, bs)"
| "walk_edges visit ((label, n) # es) offset (pathBuf, st) =
     (let lblLen = int (length label);
          newOffset = (if offset < 256 then offset - lblLen - 1 else offset - lblLen)
      in if newOffset < 0 then walk_edges visit es offset (pathBuf, st)
         else
           (let pathBuf =
                  (if offset < 256 then pathBuf[nat (newOffset + lblLen) := CHR ''.''] else pathBuf);
                pathBuf = copy_at pathBuf (nat newOffset) (take (length label) label)
            in case walk_node visit n newOffset (pathBuf, st) of
                 (False, bs) \<Rightarrow> (False, bs)
               | (True, bs) \<Rightarrow> walk_edges visit es offset bs))"
  by pat_completeness auto
termination
  by (relation "measure (\<lambda>x. case x of
        Inl (visit, n, off, bs) \<Rightarrow> size n
      | Inr (visit, es, off, bs) \<Rightarrow> size_list (size_prod (\<lambda>x. 0) size) es)") auto

declare walk_node.simps [simp del]

definition walkTree :: "node \<Rightarrow> 's visitor \<Rightarrow> 's \<Rightarrow> 's" where
  "walkTree r visit st = snd (snd (walk_node visit r 256 (replicate 256 (CHR 0x00), st)))"

section \<open>Walk, Seek and Search\<close>

text \<open>The consumer of an iterator is its \<open>yield\<close> function, again over mutable state.\<close>

type_synonym 's yielder = "'s \<Rightarrow> string \<Rightarrow> RRSets \<Rightarrow> bool \<times> 's"

definition seek_visit :: "string \<Rightarrow> 's yielder \<Rightarrow> (bool \<times> 's) visitor" where
  "seek_visit afterDomain yield st n domainBytes =
     (case st of (skipping, s) \<Rightarrow>
        if skipping then (True, (domainBytes \<noteq> afterDomain, s))
        else if NodeRRSets n \<noteq> [] then
          (case yield s domainBytes (NodeRRSets n) of (c, s') \<Rightarrow> (c, (False, s')))
        else (True, (False, s)))"

definition Seek :: "Tree \<Rightarrow> string \<Rightarrow> 's yielder \<Rightarrow> 's \<Rightarrow> 's" where
  "Seek t afterDomain yield s =
     (if afterDomain \<noteq> [] \<and> findNode (root t) afterDomain = None then s
      else snd (walkTree (root t) (seek_visit afterDomain yield) (afterDomain \<noteq> [], s)))"

definition Walk :: "Tree \<Rightarrow> 's yielder \<Rightarrow> 's \<Rightarrow> 's" where
  "Walk t yield s = Seek t [] yield s"

text \<open>\<open>bytes.Contains\<close>.\<close>

definition Contains :: "string \<Rightarrow> string \<Rightarrow> bool" where
  "Contains s sub \<longleftrightarrow> list_ex (\<lambda>t. take (length sub) t = sub) (map (\<lambda>i. drop i s) [0..<Suc (length s)])"

definition search_visit :: "string \<Rightarrow> 's yielder \<Rightarrow> 's visitor" where
  "search_visit query yield s n domainBytes =
     (if NodeRRSets n \<noteq> [] \<and> Contains domainBytes query then yield s domainBytes (NodeRRSets n)
      else (True, s))"

definition Search :: "Tree \<Rightarrow> string \<Rightarrow> 's yielder \<Rightarrow> 's \<Rightarrow> 's" where
  "Search t query yield s = walkTree (root t) (search_visit query yield) s"

section \<open>The preorder\<close>

definition sub_name :: "string \<Rightarrow> string \<Rightarrow> string" where
  "sub_name l nm = (if nm = [] then l else l @ CHR ''.'' # nm)"

fun visits :: "string \<Rightarrow> node \<Rightarrow> (node \<times> string) list" where
  "visits nm (Node w rs es) =
     (Node w rs es, nm) #
     (case w of
        None \<Rightarrow> []
      | Some x \<Rightarrow> if length (sub_name ''*'' nm) \<le> 256 then visits (sub_name ''*'' nm) x else []) @
     concat (map (\<lambda>e. if length (sub_name (fst e) nm) \<le> 256 then visits (sub_name (fst e) nm) (snd e)
                      else []) es)"

declare visits.simps [simp del]

fun run_visits :: "'s visitor \<Rightarrow> 's \<Rightarrow> (node \<times> string) list \<Rightarrow> bool \<times> 's" where
  "run_visits visit st [] = (True, st)"
| "run_visits visit st ((n, nm) # vs) =
     (case visit st n nm of (c, st') \<Rightarrow> if c then run_visits visit st' vs else (False, st'))"

lemma run_visits_append:
  "run_visits visit st (vs @ vs') =
     (case run_visits visit st vs of (c, st') \<Rightarrow> if c then run_visits visit st' vs' else (False, st'))"
  by (induction visit st vs rule: run_visits.induct) (auto split: prod.split)

text \<open>The buffer holds the current name at its right end.\<close>

definition holds :: "string \<Rightarrow> int \<Rightarrow> string \<Rightarrow> bool" where
  "holds buf off nm \<longleftrightarrow>
     length buf = 256 \<and> 0 \<le> off \<and> off = 256 - int (length nm) \<and> drop (nat off) buf = nm"

lemma holds_sub:
  assumes "holds buf off nm" and "newOff = (if off < 256 then off - int (length l) - 1 else off - int (length l))"
    and "newOff \<ge> 0"
  shows "holds (copy_at (if off < 256 then buf[nat (newOff + int (length l)) := CHR ''.''] else buf)
      (nat newOff) l) newOff (sub_name l nm)"
proof -
  let ?b = "if off < 256 then buf[nat (newOff + int (length l)) := CHR ''.''] else buf"
  have len: "length ?b = 256" "nat newOff + length l \<le> 256"
    using assms by (auto simp: holds_def)
  have "drop (nat newOff + length l) ?b = (if nm = [] then [] else CHR ''.'' # nm)"
  proof (cases "off < 256")
    case True
    then have i: "nat (newOff + int (length l)) = nat newOff + length l"
      "Suc (nat newOff + length l) = nat off" "nm \<noteq> []"
      using assms by (auto simp: holds_def)
    then have lt: "nat newOff + length l < length buf"
      using assms(1) True unfolding holds_def by linarith
    have "drop (nat newOff + length l) (buf[nat newOff + length l := CHR ''.'']) = CHR ''.'' # drop (nat off) buf"
      using lt i(2) by (subst Cons_nth_drop_Suc [symmetric]) simp_all
    moreover have "drop (nat off) buf = nm" using assms(1) unfolding holds_def by blast
    ultimately show ?thesis using True i by simp
  qed (use assms in \<open>auto simp: holds_def\<close>)
  then show ?thesis
    using len assms by (auto simp: holds_def copy_at_fit sub_name_def split: if_splits)
qed

lemma holds_outer:
  assumes "holds buf newOff (sub_name l nm)" and "holds buf0 off nm"
  shows "holds buf off nm"
proof -
  have "nat off = length (sub_name l nm) - length nm + nat newOff"
    using assms by (auto simp: holds_def sub_name_def split: if_splits)
  then have "drop (nat off) buf = drop (length (sub_name l nm) - length nm) (sub_name l nm)"
    using assms(1) by (metis drop_drop holds_def)
  also have "\<dots> = nm" by (simp add: sub_name_def)
  finally show ?thesis using assms by (auto simp: holds_def)
qed

lemma sub_slice_256: "length buf = 256 \<Longrightarrow> sub_slice buf a 256 = drop a buf"
  by (simp add: sub_slice_def)

text \<open>One step below the current node, as the wildcard branch writes it.\<close>

lemma holds_wildcard:
  assumes "holds buf off nm"
  shows "off = 256 \<Longrightarrow> holds (buf[255 := CHR ''*'']) 255 (sub_name ''*'' nm)"
    and "off \<noteq> 256 \<Longrightarrow> off - 2 \<ge> 0 \<Longrightarrow>
      holds (buf[nat (off - 2) := CHR ''*'', nat (off - 1) := CHR ''.'']) (off - 2) (sub_name ''*'' nm)"
proof -
  assume "off = 256"
  then have "nm = []" "length buf = 256" using assms by (auto simp: holds_def)
  moreover have "drop 255 (buf[255 := CHR ''*'']) = [CHR ''*'']"
    using \<open>length buf = 256\<close> by (subst Cons_nth_drop_Suc [symmetric]) simp_all
  ultimately show "holds (buf[255 := CHR ''*'']) 255 (sub_name ''*'' nm)"
    by (simp add: holds_def sub_name_def)
next
  assume o: "off \<noteq> 256" "off - 2 \<ge> 0"
  then have l: "length buf = 256" "nm \<noteq> []" "nat (off - 1) = Suc (nat (off - 2))"
    "nat off = Suc (Suc (nat (off - 2)))" "nat (off - 2) < 255" and d: "drop (nat off) buf = nm"
    using assms by (auto simp: holds_def)
  have "drop (nat (off - 2)) (buf[nat (off - 2) := CHR ''*'', nat (off - 1) := CHR ''.'']) =
      CHR ''*'' # CHR ''.'' # drop (nat off) buf"
    using l by (subst Cons_nth_drop_Suc [symmetric], simp, subst Cons_nth_drop_Suc [symmetric]) simp_all
  then show "holds (buf[nat (off - 2) := CHR ''*'', nat (off - 1) := CHR ''.'']) (off - 2) (sub_name ''*'' nm)"
    using l d o(2) assms by (simp add: holds_def sub_name_def)
qed

definition refines_run :: "bool \<times> (string \<times> 's) \<Rightarrow> bool \<times> 's \<Rightarrow> int \<Rightarrow> string \<Rightarrow> bool" where
  "refines_run r v off nm \<longleftrightarrow> fst r = fst v \<and> snd (snd r) = snd v \<and> holds (fst (snd r)) off nm"

lemma refines_run_seq:
  assumes "refines_run r v off' (sub_name l nm)" and "holds buf0 off nm"
    and "\<And>buf st. holds buf off nm \<Longrightarrow> refines_run (k (buf, st)) (k' st) off nm"
  shows "refines_run (case r of (c, bs) \<Rightarrow> if c then k bs else (False, bs))
    (case v of (c, st) \<Rightarrow> if c then k' st else (False, st)) off nm"
  using assms(1) holds_outer [OF _ assms(2), of "fst (snd r)" off' l] assms(3)
  by (auto simp: refines_run_def split: prod.splits)

lemma holds_length_le: "holds buf off nm \<Longrightarrow> (off - int k \<ge> 0 \<longleftrightarrow> length nm + k \<le> 256)"
  by (auto simp: holds_def)

abbreviation edge_visits :: "string \<Rightarrow> edge list \<Rightarrow> (node \<times> string) list" where
  "edge_visits nm es \<equiv>
     concat (map (\<lambda>e. if length (sub_name (fst e) nm) \<le> 256 then visits (sub_name (fst e) nm) (snd e)
                      else []) es)"

lemma walk_edges_refines:
  assumes "\<And>c buf off nm st. c \<in> snd ` set es \<Longrightarrow> holds buf off nm \<Longrightarrow>
      refines_run (walk_node visit c off (buf, st)) (run_visits visit st (visits nm c)) off nm"
  shows "holds buf off nm \<Longrightarrow>
    refines_run (walk_edges visit es off (buf, st)) (run_visits visit st (edge_visits nm es)) off nm"
  using assms
proof (induction es arbitrary: buf st)
  case Nil
  then show ?case by (simp add: walk_node.simps refines_run_def)
next
  case (Cons e es)
  obtain l c where e: "e = (l, c)" by (cases e)
  let ?new = "if off < 256 then off - int (length l) - 1 else off - int (length l)"
  let ?buf = "copy_at (if off < 256 then buf[nat (?new + int (length l)) := CHR ''.''] else buf) (nat ?new) l"
  have fits: "?new < 0 \<longleftrightarrow> \<not> length (sub_name l nm) \<le> 256"
    using Cons.prems(1) by (auto simp: holds_def sub_name_def)
  have ih: "refines_run (walk_edges visit es off (buf, st)) (run_visits visit st (edge_visits nm es)) off nm"
    if "holds buf off nm" for buf st
    using Cons.IH [OF that Cons.prems(2)] by simp
  show ?case
  proof (cases "?new < 0")
    case True
    then show ?thesis using ih [OF Cons.prems(1)] fits
      by (simp add: e walk_node.simps Let_def)
  next
    case False
    have "refines_run (walk_node visit c ?new (?buf, st)) (run_visits visit st (visits (sub_name l nm) c))
        ?new (sub_name l nm)"
      using Cons.prems(2) [of c] holds_sub [OF Cons.prems(1) refl] False by (simp add: e)
    from refines_run_seq [where k = "walk_edges visit es off" and
        k' = "\<lambda>st. run_visits visit st (edge_visits nm es)", OF this Cons.prems(1) ih]
    have "refines_run (case walk_node visit c ?new (?buf, st) of (c, bs) \<Rightarrow>
          if c then walk_edges visit es off bs else (False, bs))
        (run_visits visit st (edge_visits nm (e # es))) off nm"
      using False fits by (simp add: e run_visits_append)
    moreover have "walk_edges visit (e # es) off (buf, st) =
        (case walk_node visit c ?new (?buf, st) of (c, bs) \<Rightarrow>
          if c then walk_edges visit es off bs else (False, bs))"
      using False by (simp add: e walk_node.simps Let_def split: bool.split prod.split)
    ultimately show ?thesis by simp
  qed
qed

lemma walk_node_refines:
  "holds buf off nm \<Longrightarrow>
   refines_run (walk_node visit n off (buf, st)) (run_visits visit st (visits nm n)) off nm"
proof (induction n arbitrary: buf off nm st rule: measure_induct_rule [of size])
  case (less n)
  obtain w rs es where n: "n = Node w rs es" by (cases n)
  obtain c st' where v: "visit st n nm = (c, st')" by (cases "visit st n nm")
  have nm: "sub_slice buf (nat off) 256 = nm"
    using less.prems unfolding holds_def by (metis sub_slice_256)
  have edges: "refines_run (walk_edges visit es off (buf, st)) (run_visits visit st (edge_visits nm es)) off nm"
    if "holds buf off nm" for buf st
    using that less.IH edge_size [of _ _ es w rs] by (intro walk_edges_refines) (auto simp: n)
  show ?case
  proof (cases c)
    case False
    then show ?thesis
      using v less.prems nm by (simp add: n walk_node.simps visits.simps refines_run_def)
  next
    case True
    show ?thesis
    proof (cases w)
      case None
      then show ?thesis
        using v nm True edges [OF less.prems] by (simp add: n walk_node.simps visits.simps)
    next
      case (Some x)
      let ?new = "if off = 256 then 255 else off - 2"
      let ?buf = "if off = 256 then buf[255 := CHR ''*'']
        else buf[nat (off - 2) := CHR ''*'', nat (off - 1) := CHR ''.'']"
      have fits: "?new \<ge> 0 \<longleftrightarrow> length (sub_name ''*'' nm) \<le> 256"
        using less.prems by (auto simp: holds_def sub_name_def)
      show ?thesis
      proof (cases "?new \<ge> 0")
        case False
        then show ?thesis
          using v nm True edges [OF less.prems] fits Some
          by (simp add: n walk_node.simps visits.simps Let_def split: if_splits)
      next
        case fit: True
        have "holds ?buf ?new (sub_name ''*'' nm)"
          using holds_wildcard [OF less.prems] fit by (cases "off = 256") simp_all
        then have "refines_run (walk_node visit x ?new (?buf, st')) (run_visits visit st' (visits (sub_name ''*'' nm) x))
            ?new (sub_name ''*'' nm)"
          by (intro less.IH) (simp_all add: n Some)
        from refines_run_seq [where k = "walk_edges visit es off" and
        k' = "\<lambda>st. run_visits visit st (edge_visits nm es)", OF this less.prems edges]
        have "refines_run (case walk_node visit x ?new (?buf, st') of (c, bs) \<Rightarrow>
              if c then walk_edges visit es off bs else (False, bs))
            (run_visits visit st (visits nm n)) off nm"
          using fits fit v True Some by (simp add: n visits.simps run_visits_append)
        moreover have "walk_node visit n off (buf, st) =
            (case walk_node visit x ?new (?buf, st') of (c, bs) \<Rightarrow>
              if c then walk_edges visit es off bs else (False, bs))"
          using fit v nm True Some
          by (auto simp: n walk_node.simps Let_def split: bool.split prod.split)
        ultimately show ?thesis by simp
      qed
    qed
  qed
qed

lemma walkTree_visits: "walkTree r visit st = snd (run_visits visit st (visits [] r))"
  using walk_node_refines [of "replicate 256 (CHR 0x00)" 256 "[]" visit r st]
  by (simp add: walkTree_def holds_def refines_run_def)

section \<open>The preorder by paths\<close>

fun path_visits :: "string list \<Rightarrow> node \<Rightarrow> (node \<times> string list) list" where
  "path_visits p (Node w rs es) =
     (Node w rs es, p) #
     (case w of
        None \<Rightarrow> []
      | Some x \<Rightarrow> if length (dotted (p @ [''*''])) \<le> 256 then path_visits (p @ [''*'']) x else []) @
     concat (map (\<lambda>e. if length (dotted (p @ [fst e])) \<le> 256 then path_visits (p @ [fst e]) (snd e)
                      else []) es)"

declare path_visits.simps [simp del]

lemma dotted_snoc:
  assumes "list_all valid_label p"
  shows "dotted (p @ [l]) = sub_name l (dotted p)"
proof (cases p)
  case (Cons x xs)
  have "rev p \<noteq> []" "dotted p \<noteq> []"
    using assms labels_dotted [OF assms] Cons by auto
  then show ?thesis by (simp add: dotted_def sub_name_def join_with_Cons)
qed (simp add: dotted_def sub_name_def)

lemma visits_path_visits:
  "wf_node n \<Longrightarrow> list_all valid_label p \<Longrightarrow>
   visits (dotted p) n = map (\<lambda>(m, q). (m, dotted q)) (path_visits p n)"
proof (induction n arbitrary: p rule: measure_induct_rule [of size])
  case (less n)
  obtain w rs es where n: "n = Node w rs es" by (cases n)
  have sub: "visits (sub_name l (dotted p)) c = map (\<lambda>(m, q). (m, dotted q)) (path_visits (p @ [l]) c)"
    if "size c < size n" "wf_node c" "valid_label l" for l c
    using less.IH [OF that(1,2), of "p @ [l]"] less.prems(2) that(3) by (simp add: dotted_snoc)
  have es: "size (snd e) < size n \<and> wf_node (snd e) \<and> valid_label (fst e)" if "e \<in> set es" for e
    using that less.prems(1) edge_size [of "fst e" "snd e" es w rs] by (auto simp: n wf_node.simps list_all_iff)
  have w: "size x < size n \<and> wf_node x" if "w = Some x" for x
    using that less.prems(1) by (simp add: n wf_node.simps)
  have "edge_visits (dotted p) es = map (\<lambda>(m, q). (m, dotted q))
      (concat (map (\<lambda>e. if length (dotted (p @ [fst e])) \<le> 256 then path_visits (p @ [fst e]) (snd e) else []) es))"
    unfolding map_concat map_map
    by (rule arg_cong [of _ _ concat], rule map_cong)
      (use sub es less.prems(2) in \<open>simp_all add: dotted_snoc\<close>)
  moreover have "(case w of None \<Rightarrow> []
      | Some x \<Rightarrow> if length (sub_name ''*'' (dotted p)) \<le> 256 then visits (sub_name ''*'' (dotted p)) x else []) =
    map (\<lambda>(m, q). (m, dotted q)) (case w of None \<Rightarrow> []
      | Some x \<Rightarrow> if length (dotted (p @ [''*''])) \<le> 256 then path_visits (p @ [''*'']) x else [])"
    using sub [of _ "''*''"] w less.prems(2) by (simp add: dotted_snoc split: option.split)
  ultimately show ?case by (simp add: n visits.simps path_visits.simps)
qed

lemma length_dotted_mono: "length (dotted p) \<le> length (dotted (p @ q))"
proof (induction q rule: rev_induct)
  case (snoc l q)
  have "length (dotted r) \<le> length (dotted (r @ [l]))" for r
    by (cases r) (simp_all add: dotted_def join_with_Cons)
  from le_trans [OF snoc this [of "p @ q"]] show ?case by simp
qed simp

lemma path_visits_child:
  assumes "wf_node n"
  shows "x \<in> set (path_visits p n) \<longleftrightarrow> x = (n, p) \<or>
    (\<exists>l c. child n l = Some c \<and> length (dotted (p @ [l])) \<le> 256 \<and> x \<in> set (path_visits (p @ [l]) c))"
proof -
  obtain w rs es where n: "n = Node w rs es" by (cases n)
  have s: "sorted_edges es" "\<forall>e \<in> set es. fst e \<noteq> ''*''"
    using assms by (auto simp: n wf_node.simps list_all_iff)
  define Q where "Q l c \<longleftrightarrow> length (dotted (p @ [l])) \<le> 256 \<and> x \<in> set (path_visits (p @ [l]) c)" for l c
  have mem: "x \<in> set (path_visits p n) \<longleftrightarrow> x = (n, p) \<or>
     (\<exists>c. w = Some c \<and> Q ''*'' c) \<or> (\<exists>l c. (l, c) \<in> set es \<and> Q l c)"
  proof -
    have "(\<exists>e \<in> set es. Q (fst e) (snd e)) \<longleftrightarrow> (\<exists>l c. (l, c) \<in> set es \<and> Q l c)"
      by (simp add: Bex_def split_paired_Ex)
    then show ?thesis by (cases w) (auto simp: n path_visits.simps Q_def split: if_splits)
  qed
  have child: "child n l = Some c \<longleftrightarrow> (l = ''*'' \<and> w = Some c) \<or> (l, c) \<in> set es" for l c
    using s by (auto simp: n child_def sorted_edges_map_of dest!: map_of_SomeD)
  show ?thesis unfolding Q_def [symmetric] mem child by blast
qed

lemma path_visits_mem:
  "wf_node n \<Longrightarrow> length (dotted p) \<le> 256 \<Longrightarrow>
   (m, q) \<in> set (path_visits p n) \<longleftrightarrow>
   (\<exists>ls. q = p @ ls \<and> node_at n ls = Some m \<and> length (dotted q) \<le> 256)"
proof (induction n arbitrary: p rule: measure_induct_rule [of size])
  case (less n)
  have ih: "(m, q) \<in> set (path_visits (p @ [l]) c) \<longleftrightarrow>
      (\<exists>ls. q = p @ l # ls \<and> node_at c ls = Some m \<and> length (dotted q) \<le> 256)"
    if "child n l = Some c" "length (dotted (p @ [l])) \<le> 256" for l c
    using less.IH [OF child_size [OF that(1)] wf_child [OF less.prems(1) that(1)] that(2)] by simp
  have len: "length (dotted (p @ [l])) \<le> 256" if "length (dotted (p @ l # ls)) \<le> 256" for l ls
    using length_dotted_mono [of "p @ [l]" ls] that by simp
  show ?case
  proof
    assume "(m, q) \<in> set (path_visits p n)"
    then show "\<exists>ls. q = p @ ls \<and> node_at n ls = Some m \<and> length (dotted q) \<le> 256"
      unfolding path_visits_child [OF less.prems(1)]
    proof (elim disjE exE conjE)
      fix l c assume c: "child n l = Some c" "length (dotted (p @ [l])) \<le> 256"
        "(m, q) \<in> set (path_visits (p @ [l]) c)"
      then obtain ls where "q = p @ l # ls" "node_at c ls = Some m" "length (dotted q) \<le> 256"
        using ih [OF c(1,2)] by blast
      with c(1) show ?thesis by (intro exI [of _ "l # ls"]) simp
    qed (use less.prems(2) in \<open>auto intro: exI [of _ "[]"]\<close>)
  next
    assume "\<exists>ls. q = p @ ls \<and> node_at n ls = Some m \<and> length (dotted q) \<le> 256"
    then obtain ls where ls: "q = p @ ls" "node_at n ls = Some m" "length (dotted q) \<le> 256" by blast
    show "(m, q) \<in> set (path_visits p n)"
    proof (cases ls)
      case Nil
      with ls show ?thesis unfolding path_visits_child [OF less.prems(1)] by simp
    next
      case (Cons l ls')
      with ls obtain c where c: "child n l = Some c" "node_at c ls' = Some m" by (auto split: option.splits)
      with ih [OF c(1)] len [of l ls'] ls Cons show ?thesis
        unfolding path_visits_child [OF less.prems(1)] by blast
    qed
  qed
qed

lemma path_visits_prefix:
  "wf_node n \<Longrightarrow> (m, q) \<in> set (path_visits p n) \<Longrightarrow> \<exists>ls. q = p @ ls"
proof (induction n arbitrary: p rule: measure_induct_rule [of size])
  case (less n)
  from less.prems(2) show ?case
    unfolding path_visits_child [OF less.prems(1)]
  proof (elim disjE exE conjE)
    fix l c assume c: "child n l = Some c" "(m, q) \<in> set (path_visits (p @ [l]) c)"
    from less.IH [OF child_size [OF c(1)] wf_child [OF less.prems(1) c(1)] c(2)]
    show ?thesis by auto
  qed simp
qed

lemma distinct_concat_tagged:
  assumes "distinct (map fst es)"
    and "\<And>e. e \<in> set es \<Longrightarrow> distinct (f e) \<and> (\<forall>x \<in> set (f e). tag x = fst e)"
  shows "distinct (concat (map f es))"
  using assms
proof (induction es)
  case (Cons e es)
  have "x \<notin> set (concat (map f es))" if "x \<in> set (f e)" for x
  proof
    assume "x \<in> set (concat (map f es))"
    then obtain e' where "e' \<in> set es" "x \<in> set (f e')" by auto
    then have "fst e' = fst e" using Cons.prems(2) that by (metis list.set_intros)
    with \<open>e' \<in> set es\<close> Cons.prems(1) show False by (metis distinct.simps(2) image_eqI list.simps(9) set_map)
  qed
  with Cons show ?case by auto
qed simp

lemma path_visits_distinct: "wf_node n \<Longrightarrow> distinct (map snd (path_visits p n))"
proof (induction n arbitrary: p rule: measure_induct_rule [of size])
  case (less n)
  obtain w rs es where n: "n = Node w rs es" by (cases n)
  let ?sub = "\<lambda>e. map snd (if length (dotted (p @ [fst e])) \<le> 256 then path_visits (p @ [fst e]) (snd e) else [])"
  let ?es = "(case w of None \<Rightarrow> [] | Some x \<Rightarrow> [(''*'', x)]) @ es"
  have all: "map snd (path_visits p n) = p # concat (map ?sub ?es)"
    by (simp add: n path_visits.simps map_concat comp_def split: option.split)
  have "distinct (map fst es)" "''*'' \<notin> fst ` set es"
    using less.prems by (auto simp: n wf_node.simps list_all_iff strict_sorted_iff)
  then have d: "distinct (map fst ?es)" by (simp split: option.split)
  have e: "size (snd e) < size n \<and> wf_node (snd e)" if "e \<in> set ?es" for e
    using that less.prems edge_size [of "fst e" "snd e" es w rs]
    by (auto simp: n wf_node.simps list_all_iff split: option.splits)
  have tag: "\<exists>ls. q = p @ fst e # ls" if q: "q \<in> set (?sub e)" and e': "e \<in> set ?es" for q e
  proof -
    obtain m where "(m, q) \<in> set (path_visits (p @ [fst e]) (snd e))"
      using q by (auto split: if_splits)
    with path_visits_prefix [of "snd e" m q "p @ [fst e]"] e [OF e'] show ?thesis by auto
  qed
  have "distinct (concat (map ?sub ?es))"
  proof (rule distinct_concat_tagged [OF d, where tag = "\<lambda>q. q ! length p"])
    fix e' assume "e' \<in> set ?es"
    then show "distinct (?sub e') \<and> (\<forall>q \<in> set (?sub e'). q ! length p = fst e')"
      using less.IH [of "snd e'"] e [of e'] tag [of _ e'] by fastforce
  qed
  moreover have "p \<notin> set (concat (map ?sub ?es))"
    using tag by fastforce
  ultimately show ?case by (simp add: all)
qed

section \<open>What the enumerations yield\<close>

text \<open>The stored entries in the order of the walk, and feeding them to a consumer.\<close>

definition walk_entries :: "node \<Rightarrow> (string \<times> RRSets) list" where
  "walk_entries r = [(nm, NodeRRSets n). (n, nm) \<leftarrow> visits [] r, NodeRRSets n \<noteq> []]"

fun run_yield :: "'s yielder \<Rightarrow> 's \<Rightarrow> (string \<times> RRSets) list \<Rightarrow> 's" where
  "run_yield yield s [] = s"
| "run_yield yield s ((d, rs) # xs) =
     (case yield s d rs of (c, s') \<Rightarrow> if c then run_yield yield s' xs else s')"

abbreviation yields_of :: "(node \<times> string) list \<Rightarrow> (string \<times> RRSets) list" where
  "yields_of vs \<equiv> concat (map (\<lambda>(n, nm). if NodeRRSets n \<noteq> [] then [(nm, NodeRRSets n)] else []) vs)"

lemma run_visits_yielding:
  "snd (snd (run_visits (seek_visit a yield) (False, s) vs)) = run_yield yield s (yields_of vs)"
  by (induction vs arbitrary: s) (auto simp: seek_visit_def split: prod.split)

lemma run_visits_skipping:
  "a \<notin> snd ` set vs \<Longrightarrow> run_visits (seek_visit a yield) (True, s) vs = (True, (True, s))"
  by (induction vs) (auto simp: seek_visit_def)

lemma Walk_entries: "Walk t yield s = run_yield yield s (walk_entries (root t))"
  by (simp add: Walk_def Seek_def walkTree_visits run_visits_yielding walk_entries_def)

lemma visits_root: "wf_node r \<Longrightarrow> visits [] r = map (\<lambda>(m, q). (m, dotted q)) (path_visits [] r)"
  using visits_path_visits [of r "[]"] by (simp add: dotted_def)

lemma visits_distinct:
  assumes "wf_node r"
  shows "distinct (map snd (visits [] r))"
proof -
  have "inj_on dotted (set (map snd (path_visits [] r)))"
  proof (rule inj_onI)
    fix a b assume "a \<in> set (map snd (path_visits [] r))" "b \<in> set (map snd (path_visits [] r))" "dotted a = dotted b"
    then show "a = b"
      using path_visits_mem [OF assms, of "[]"] node_at_valid [OF assms] labels_dotted
      by (auto simp: dotted_def [of "[]"]) metis
  qed
  with path_visits_distinct [OF assms, of "[]"] show ?thesis
    unfolding visits_root [OF assms] map_map comp_def split_beta snd_conv
    by (simp add: distinct_map comp_def inj_on_def)
qed

lemma map_fst_yields: "map fst (yields_of vs) = map snd (filter (\<lambda>(n, nm). NodeRRSets n \<noteq> []) vs)"
  by (induction vs) auto

lemma entries_distinct: "wf_node r \<Longrightarrow> distinct (map fst (walk_entries r))"
  using visits_distinct [of r] unfolding walk_entries_def map_fst_yields by (simp add: distinct_map_filter)

lemma entries_mem:
  assumes "wf_node r"
  shows "(d, rs) \<in> set (walk_entries r) \<longleftrightarrow>
    (\<exists>ls. d = dotted ls \<and> abs_map r ls = Some rs \<and> length d \<le> 256)"
proof -
  have "(d, rs) \<in> set (walk_entries r) \<longleftrightarrow>
      (\<exists>m q. (m, q) \<in> set (path_visits [] r) \<and> d = dotted q \<and> rs = NodeRRSets m \<and> rs \<noteq> [])"
    unfolding walk_entries_def visits_root [OF assms] by (force split: if_splits)
  also have "\<dots> \<longleftrightarrow> (\<exists>ls m. node_at r ls = Some m \<and> length (dotted ls) \<le> 256 \<and> d = dotted ls \<and>
      rs = NodeRRSets m \<and> rs \<noteq> [])"
    using path_visits_mem [OF assms, of "[]"] by (auto simp: dotted_def [of "[]"])
  also have "\<dots> \<longleftrightarrow> (\<exists>ls. d = dotted ls \<and> abs_map r ls = Some rs \<and> length d \<le> 256)"
    by (auto simp: abs_map_def split: option.splits if_splits)
  finally show ?thesis .
qed

section \<open>Properties\<close>

lemma entries_Get:
  assumes "tree_inv t"
  shows "(d, rs) \<in> set (walk_entries (root t)) \<longleftrightarrow>
    (\<exists>ls. list_all valid_label ls \<and> d = dotted ls) \<and> radix_Get t d = Some rs \<and> length d \<le> 256"
proof -
  have wf: "wf_node (root t)" using assms by (simp add: tree_inv_def)
  have "list_all valid_label ls" if "abs_map (root t) ls = Some rs" for ls
    using abs_map_valid [OF wf] that by blast
  then show ?thesis
    unfolding entries_mem [OF wf] radix_Get_labels [OF wf] using labels_dotted by auto
qed

lemma entries_length:
  assumes "tree_inv t" and "\<forall>ls. abs_map (root t) ls \<noteq> None \<longrightarrow> length (dotted ls) \<le> 256"
  shows "int (length (walk_entries (root t))) = radix_Len t"
proof -
  have wf: "wf_node (root t)" using assms by (simp add: tree_inv_def)
  have "fst ` set (walk_entries (root t)) = dotted ` dom (abs_map (root t))"
    using entries_mem [OF wf] assms(2) by (force simp: image_iff)
  moreover have "inj_on dotted (dom (abs_map (root t)))"
    using abs_map_valid [OF wf] labels_dotted by (intro inj_onI) (metis domIff)
  ultimately have "card (fst ` set (walk_entries (root t))) = card (dom (abs_map (root t)))"
    by (simp add: card_image)
  with distinct_card [OF entries_distinct [OF wf]] assms(1) show ?thesis
    by (simp add: radix_Len_def tree_inv_def size_ok_def)
qed


definition collect_all :: "(string \<times> RRSets) list yielder" where
  "collect_all s d rs = (True, s @ [(d, rs)])"

lemma run_yield_collect: "run_yield collect_all s es = s @ es"
  by (induction es arbitrary: s) (auto simp: collect_all_def)


lemma yields_split:
  "yields_of vs = xs @ (d, rs) # ys \<Longrightarrow>
   \<exists>us n ws. vs = us @ (n, d) # ws \<and> yields_of us = xs \<and> yields_of ws = ys"
proof (induction vs arbitrary: xs)
  case (Cons v vs)
  obtain n nm where v: "v = (n, nm)" by (cases v)
  show ?case
  proof (cases "NodeRRSets n = []")
    case True
    with Cons.prems v have "yields_of vs = xs @ (d, rs) # ys" by simp
    from Cons.IH [OF this] obtain us m ws where "vs = us @ (m, d) # ws" "yields_of us = xs" "yields_of ws = ys"
      by blast
    with True v show ?thesis by (intro exI [of _ "v # us"]) auto
  next
    case False
    show ?thesis
    proof (cases xs)
      case Nil
      with False v Cons.prems show ?thesis by (intro exI [of _ "[]"]) auto
    next
      case (Cons x xs')
      with False v Cons.prems have x: "x = (nm, NodeRRSets n)" "yields_of vs = xs' @ (d, rs) # ys" by auto
      from Cons.IH [OF x(2)] obtain us m ws where "vs = us @ (m, d) # ws" "yields_of us = xs'" "yields_of ws = ys"
        by blast
      with False v x Cons show ?thesis by (intro exI [of _ "v # us"]) auto
    qed
  qed
qed simp

text \<open>Pagination.  \<open>Seek(d)\<close> for a stored domain \<open>d\<close> continues exactly where a walk that
  was cut off after \<open>d\<close> left off: what it yields is what \<open>Walk\<close> yields after \<open>d\<close>.  (The root
  name, spelled as the empty string, restarts the walk instead.)\<close>

theorem Seek_continues:
  assumes "tree_inv t" and "walk_entries (root t) = before @ (d, rs) # rest" and "d \<noteq> []"
  shows "Seek t d yield s = run_yield yield s rest"
proof -
  have wf: "wf_node (root t)" using assms(1) by (simp add: tree_inv_def)
  obtain us n ws where vs: "visits [] (root t) = us @ (n, d) # ws" "yields_of ws = rest"
    using yields_split [OF assms(2) [unfolded walk_entries_def]] by blast
  have "d \<notin> snd ` set us" using visits_distinct [OF wf] unfolding vs by auto
  moreover have "(n, d) \<in> set (visits [] (root t))" by (simp add: vs)
  then obtain ls where "d = dotted ls" "node_at (root t) ls = Some n"
    unfolding visits_root [OF wf] using path_visits_mem [OF wf, of "[]"] by (auto simp: dotted_def [of "[]"])
  then have "findNode (root t) d \<noteq> None"
    using node_at_valid [OF wf] by (simp add: findNode_labels wf labels_dotted)
  ultimately show ?thesis
    using assms(3) run_visits_yielding [of d yield s ws]
    by (auto simp: Seek_def walkTree_visits vs run_visits_append run_visits_skipping)
      (simp add: seek_visit_def)
qed

theorem Seek_continues_witness:
  "Seek (radix_Upsert (radix_Upsert radix_New ''b.org'' [a_set]) ''*.b.org'' [a_set]) ''b.org'' collect_all [] =
   [(''*.b.org'', [a_set])]"
  (is "Seek ?t _ _ _ = _")
proof -
  have "tree_inv ?t" by (intro rt.invar_upsert tree_inv_New)
  moreover have "walk_entries (root ?t) = [] @ (''b.org'', [a_set]) # [(''*.b.org'', [a_set])]" by code_simp
  ultimately show ?thesis
    using Seek_continues [of ?t "[]" "''b.org''" "[a_set]" "[(''*.b.org'', [a_set])]" collect_all "[]"]
    by (simp add: collect_all_def)
qed

lemma run_visits_search:
  "snd (run_visits (search_visit q yield) s vs) =
     run_yield yield s (filter (\<lambda>(d, rs). Contains d q) (yields_of vs))"
  by (induction vs arbitrary: s) (auto simp: search_visit_def split: prod.split)

lemma Contains_sublist: "Contains s sub \<longleftrightarrow> sublist sub s"
proof
  assume "Contains s sub"
  then obtain i where "i \<le> length s" "take (length sub) (drop i s) = sub"
    by (auto simp: Contains_def list_ex_iff less_Suc_eq_le simp del: upt_Suc)
  then show "sublist sub s" by (metis sublist_drop sublist_order.order_trans sublist_take)
next
  assume "sublist sub s"
  then obtain ps ss where "s = ps @ sub @ ss" by (auto simp: sublist_def)
  then show "Contains s sub"
    unfolding Contains_def list_ex_iff
    by (intro bexI [of _ "sub @ ss"]) (auto simp: image_iff intro!: bexI [of _ "length ps"] simp del: upt_Suc)
qed

text \<open>\<open>Search(q)\<close> yields, in the order of the walk, exactly the stored entries whose name
  has \<open>q\<close> as a contiguous part.\<close>

theorem Search_filters_walk:
  "Search t q yield s = run_yield yield s (filter (\<lambda>(d, rs). sublist q d) (walk_entries (root t)))"
  by (simp add: Search_def walkTree_visits run_visits_search Contains_sublist walk_entries_def)

end
