(* ===== verification/Snapshot.thy ===== *)
theory Snapshot
  imports Wal RadixQuery
begin

text \<open>
  \<open>internal/snapshot/snapshot.go\<close>: the whole tree in one compressed, checksummed file.
  \<open>compress/flate\<close> is a parameter: \<open>deflate\<close> gives the compressed form of a byte string, and
  \<open>inflate\<close> what the reader delivers from a compressed body before it ends.  Saving and loading
  are shown to rebuild the same tree, and damaged files to be rejected.
\<close>

definition snapMagic :: string where "snapMagic = ''KDNS''"
definition snapVersion :: byte where "snapVersion = 1"

abbreviation snapHeaderSize :: nat where "snapHeaderSize \<equiv> 13"
abbreviation MaxUint32 :: nat where "MaxUint32 \<equiv> 4294967295"

section \<open>Saving\<close>

definition snap_writeHeader :: "u32 \<Rightarrow> u32 \<Rightarrow> bytes" where
  "snap_writeHeader totalDomains bodyLen =
     (let headerBuf = replicate snapHeaderSize 0;
          headerBuf = copy_at headerBuf 0 (bytes_of snapMagic);
          headerBuf = headerBuf[4 := snapVersion];
          headerBuf = put32_at headerBuf 5 totalDomains
      in put32_at headerBuf 9 bodyLen)"

text \<open>The body of the loop over the walk: an error ends it.\<close>

definition save_record :: "(Encoder \<times> persist_error option) yielder" where
  "save_record st domain records =
     (case WriteRecord (fst st) domain records of
        Inl err \<Rightarrow>
          (False, (fst st, Some (if err = codec_ErrCapacityExceeded then snap_ErrCapacityExceeded else err)))
      | Inr enc \<Rightarrow> (True, (enc, None)))"

definition Save :: "(bytes \<Rightarrow> bytes) \<Rightarrow> Tree \<Rightarrow> persist_error + bytes" where
  "Save deflate tree =
     (let domainCount = radix_Len tree in
      if domainCount > int MaxUint32 then Inl snap_ErrSizeLimit
      else
        (case Walk tree save_record (NewEncoder [] None, None) of
           (enc, Some err) \<Rightarrow> Inl err
         | (enc, None) \<Rightarrow>
             (let compressedData = deflate (e_w enc) in
              if length compressedData > MaxUint32 then Inl snap_ErrSizeLimit
              else
                (let header = snap_writeHeader (word_of_int domainCount) (word_of_nat (length compressedData));
                     crcHasher = crc_write 0 header;
                     checksum = crc_write crcHasher compressedData
                 in Inr (header @ compressedData @ put32 checksum)))))"

section \<open>Loading\<close>

definition snap_readHeader :: "bytes \<Rightarrow> persist_error + ((u32 \<times> u32 \<times> u32) \<times> bytes)" where
  "snap_readHeader r =
     res_bind (ReadFull r snapHeaderSize) (\<lambda>(headerBuf, r).
       if string_of (sub_slice headerBuf 0 4) \<noteq> snapMagic then Inl ErrInvalidMagic
       else if headerBuf ! 4 \<noteq> snapVersion then Inl ErrUnsupportedVer
       else Inr ((get32 (sub_slice headerBuf 5 9), get32 (sub_slice headerBuf 9 13), crc_write 0 headerBuf), r))"

fun load_records ::
  "nat \<Rightarrow> Decoder \<Rightarrow> (string \<Rightarrow> RRSets \<Rightarrow> 's \<Rightarrow> 's) \<Rightarrow> 's \<Rightarrow> persist_error option \<times> 's" where
  "load_records 0 dec onRecord st = (None, st)"
| "load_records (Suc n) dec onRecord st =
     (case ReadRecord dec of
        Inl err \<Rightarrow> (Some (if err = codec_ErrCorruptedData then snap_ErrCorruptedData else err), st)
      | Inr ((domain, records), dec) \<Rightarrow> load_records n dec onRecord (onRecord domain records st))"

text \<open>The reader under the decompressor is limited to the body and copied into the checksum; after
  the records the rest of it is drained, so the checksum covers the whole body.\<close>

definition Load ::
  "(bytes \<Rightarrow> bytes) \<Rightarrow> bytes \<Rightarrow> (string \<Rightarrow> RRSets \<Rightarrow> 's \<Rightarrow> 's) \<Rightarrow> 's \<Rightarrow> persist_error option \<times> 's" where
  "Load inflate r onRecord st =
     (case snap_readHeader r of
        Inl err \<Rightarrow> (Some err, st)
      | Inr ((totalDomains, bodyLen, crcHasher), r) \<Rightarrow>
          (let body = take (unat bodyLen) r in
           case load_records (unat totalDomains) \<lparr>d_r = inflate body, d_hash = None\<rparr> onRecord st of
             (Some err, st) \<Rightarrow> (Some err, st)
           | (None, st) \<Rightarrow>
               (case ReadFull (drop (unat bodyLen) r) checksumSize of
                  Inl err \<Rightarrow> (Some err, st)
                | Inr (checksumBuf, _) \<Rightarrow>
                    if crc_write crcHasher body \<noteq> get32 checksumBuf then (Some ErrChecksumFailed, st)
                    else (None, st))))"

definition ReadChecksum :: "bytes \<Rightarrow> persist_error + u32" where
  "ReadChecksum f =
     (if length f < checksumSize then Inl ErrUnexpectedEOF
      else Inr (get32 (drop (length f - checksumSize) f)))"

section \<open>Temporary files\<close>

definition IsPathSeparator :: "char \<Rightarrow> bool" where
  "IsPathSeparator c \<longleftrightarrow> c = CHR ''/''"

definition prefixAndSuffix :: "string \<Rightarrow> (string \<times> string) option" where
  "prefixAndSuffix pattern =
     (if list_ex IsPathSeparator pattern then None
      else case LastIndexByte pattern CHR ''*'' of
             None \<Rightarrow> Some (pattern, [])
           | Some pos \<Rightarrow> Some (take pos pattern, drop (pos + 1) pattern))"

text \<open>The directory is the list of its entries, with a flag for directories; \<open>rnd\<close> gives the
  successive random numbers.  \<open>O_EXCL\<close> refuses a name that exists.\<close>

type_synonym directory = "(string \<times> bool) list"

fun create_loop :: "directory \<Rightarrow> (nat \<Rightarrow> u64) \<Rightarrow> string \<Rightarrow> string \<Rightarrow> nat \<Rightarrow> nat \<Rightarrow> string option" where
  "create_loop dir rnd pre suf 0 k = None"
| "create_loop dir rnd pre suf (Suc tries) k =
     (let name = pre @ FormatUint (unat (rnd k)) @ suf in
      if name \<in> fst ` set dir then create_loop dir rnd pre suf tries (k + 1) else Some name)"

definition CreateTemp :: "directory \<Rightarrow> (nat \<Rightarrow> u64) \<Rightarrow> string \<Rightarrow> (string \<times> directory) option" where
  "CreateTemp dir rnd pattern =
     (case prefixAndSuffix pattern of
        None \<Rightarrow> None
      | Some (pre, suf) \<Rightarrow>
          (case create_loop dir rnd pre suf 10000 0 of
             None \<Rightarrow> None
           | Some name \<Rightarrow> Some (name, (name, False) # dir)))"

definition CleanStaleTemp :: "directory \<Rightarrow> directory" where
  "CleanStaleTemp dir =
     filter (\<lambda>(name, isDir). \<not> (\<not> isDir \<and> prefix ''state-snap-'' name \<and> suffix ''.tmp'' name)) dir"

section \<open>The file\<close>

lemma snap_header:
  "snap_writeHeader n l = bytes_of snapMagic @ [snapVersion] @ put32 n @ put32 l"
proof -
  let ?m = "bytes_of snapMagic"
  have m: "length ?m = 4" by (simp add: snapMagic_def)
  have 1: "(copy_at (replicate 13 0) 0 ?m)[4 := snapVersion] = ?m @ [snapVersion] @ replicate 8 0"
    using m by (simp add: copy_at_fit list_update_append eval_nat_numeral)
  have 2: "put32_at (p @ ys) (length p) v = p @ put32 v @ drop 4 ys" if "4 \<le> length ys" for p ys v
    using that by (simp add: put32_at_def copy_at_fit)
  show ?thesis
    using 2 [of "replicate 8 0" "?m @ [snapVersion]" n] 2 [of "replicate 4 0" "?m @ [snapVersion] @ put32 n" l] m
    by (simp add: snap_writeHeader_def Let_def 1)
qed

lemma length_snap_header: "length (snap_writeHeader n l) = 13"
  by (simp add: snap_header snapMagic_def)

lemma snap_readHeader_write:
  "snap_readHeader (snap_writeHeader n l @ r) = Inr ((n, l, crc_write 0 (snap_writeHeader n l)), r)"
proof -
  let ?h = "snap_writeHeader n l"
  have m: "length (bytes_of snapMagic) = 4" by (simp add: snapMagic_def)
  have "sub_slice ?h 0 4 = bytes_of snapMagic" "?h ! 4 = snapVersion" "sub_slice ?h 5 9 = put32 n" "sub_slice ?h 9 13 = put32 l"
    using m by (simp_all add: snap_header sub_slice_def nth_append)
  then show ?thesis
    by (simp add: snap_readHeader_def ReadFull_append [of 13 ?h] length_snap_header)
qed

lemma run_save:
  "run_yield save_record (enc, None) es = (enc', None) \<Longrightarrow>
   e_w enc' = e_w enc @ concat (map enc_record es) \<and>
   (\<forall>(d, rs) \<in> set es. length d \<le> MaxDomainLen \<and> length rs \<le> MaxRecordsPerDomain \<and> list_all rrset_fits rs)"
proof (induction es arbitrary: enc)
  case (Cons e es)
  obtain d rs where e: "e = (d, rs)" by (cases e)
  with Cons.prems obtain n enc1 where n: "calculateFrameSize d rs = Inr n" and 1: "WriteRecord enc d rs = Inr enc1"
    and r: "run_yield save_record (enc1, None) es = (enc', None)"
    by (cases "WriteRecord enc d rs"; cases "calculateFrameSize d rs")
      (auto simp: save_record_def [of "(enc, None)"], auto simp: WriteRecord_eq)
  from 1 n have "e_w enc1 = e_w enc @ enc_record (d, rs)" by (auto simp: WriteRecord_eq)
  with Cons.IH [OF r] calculateFrameSize_Inr [OF n] e show ?case by auto
qed simp

lemma load_records_enc:
  "\<forall>(d, rs) \<in> set es. length d \<le> MaxDomainLen \<and> length rs \<le> MaxRecordsPerDomain \<and> list_all rrset_fits rs \<Longrightarrow>
   load_records (length es) \<lparr>d_r = concat (map enc_record es) @ t, d_hash = None\<rparr> f st =
     (None, fold (\<lambda>(d, rs). f d (map in_class rs)) es st)"
proof (induction es arbitrary: st)
  case (Cons e es)
  obtain d rs where e: "e = (d, rs)" by (cases e)
  from Cons show ?case by (simp add: e ReadRecord_enc)
qed simp

lemma Save_file:
  assumes "Save deflate t = Inr s"
  defines "es \<equiv> walk_entries (root t)"
  defines "c \<equiv> deflate (concat (map enc_record es))"
  defines "h \<equiv> snap_writeHeader (word_of_int (radix_Len t)) (word_of_nat (length c))"
  shows "s = h @ c @ put32 (crc32 (h @ c)) \<and> length c \<le> MaxUint32 \<and> radix_Len t \<le> int MaxUint32 \<and>
    (\<forall>(d, rs) \<in> set es. length d \<le> MaxDomainLen \<and> length rs \<le> MaxRecordsPerDomain \<and> list_all rrset_fits rs)"
proof -
  obtain enc where w: "run_yield save_record (NewEncoder [] None, None) es = (enc, None)" and l: "radix_Len t \<le> int MaxUint32"
    using assms(1) by (auto simp: Save_def Let_def Walk_entries es_def split: if_splits option.splits prod.splits)
  note r = run_save [OF w]
  have "e_w enc = concat (map enc_record es)" using r by (simp add: NewEncoder_def)
  with assms(1) w r l show ?thesis
    by (auto simp: Save_def Let_def Walk_entries es_def [symmetric] c_def [symmetric] h_def [symmetric] crc32_def split: if_splits)
qed

lemma Load_file:
  fixes n :: u32
  assumes "length c \<le> MaxUint32"
  defines "h \<equiv> snap_writeHeader n (word_of_nat (length c))"
  shows "Load inflate (h @ c @ r) f st =
    (case load_records (unat n) \<lparr>d_r = inflate c, d_hash = None\<rparr> f st of
       (Some err, st) \<Rightarrow> (Some err, st)
     | (None, st) \<Rightarrow>
         (case ReadFull r checksumSize of
            Inl err \<Rightarrow> (Some err, st)
          | Inr (b, _) \<Rightarrow> if crc32 (h @ c) \<noteq> get32 b then (Some ErrChecksumFailed, st) else (None, st)))"
proof -
  have "unat (word_of_nat (length c) :: u32) = length c" using assms(1) by (simp add: unat_of_nat)
  then have t: "take (unat (word_of_nat (length c) :: u32)) (c @ r) = c" "drop (unat (word_of_nat (length c) :: u32)) (c @ r) = r"
    by simp_all
  have k: "crc_write (crc_write 0 h) c = crc32 (h @ c)" by (simp add: crc32_def)
  show ?thesis
    unfolding Load_def h_def snap_readHeader_write sum.case prod.case Let_def t k [unfolded h_def] by (rule refl)
qed

section \<open>Properties\<close>

text \<open>Trees whose names fit the path buffer of the walk, in class IN.\<close>

definition storable :: "Tree \<Rightarrow> bool" where
  "storable t \<longleftrightarrow> (\<forall>ls rs. abs_map (root t) ls = Some rs \<longrightarrow>
     length (dotted ls) \<le> 256 \<and> list_all (\<lambda>r. rr_Class r = ClassIN) rs)"

lemma rebuild_tree:
  assumes "tree_inv t" and "storable t"
  shows "fold (\<lambda>(d, rs) t. radix_Upsert t d rs) (walk_entries (root t)) radix_New = t"
proof -
  let ?es = "walk_entries (root t)" and ?ms = "map (\<lambda>(d, rs). Upsert d rs) (walk_entries (root t))"
  have wf: "wf_node (root t)" using assms(1) by (simp add: tree_inv_def)
  have key: "labels (dotted ls) = ls" if "abs_map (root t) ls = Some rs" for ls rs
    using abs_map_valid [OF wf, of ls] that by (simp add: labels_dotted)
  have "map_mutations labels Map.empty ?ms = abs_map (root t)"
  proof (rule map_mutations_rebuild)
    fix d rs assume "(d, rs) \<in> set ?es"
    then obtain ls where ls: "d = dotted ls" "abs_map (root t) ls = Some rs"
      unfolding entries_mem [OF wf] by blast
    then show "rs \<noteq> [] \<and> abs_map (root t) (labels d) = Some rs"
      using key by (auto simp: abs_map_def split: option.splits if_splits)
  next
    fix ls assume "abs_map (root t) ls \<noteq> None"
    then obtain rs where rs: "abs_map (root t) ls = Some rs" by blast
    then have "(dotted ls, rs) \<in> set ?es"
      using assms(2) unfolding entries_mem [OF wf] storable_def by blast
    with key [OF rs] show "\<exists>(d, rs) \<in> set ?es. labels d = ls" by blast
  qed
  moreover have "fold (\<lambda>(d, rs) t. radix_Upsert t d rs) es u = run_mutations radix_Upsert radix_DeleteDomain u (map (\<lambda>(d, rs). Upsert d rs) es)" for es u
    by (induction es arbitrary: u) auto
  ultimately have "abs_map (root (fold (\<lambda>(d, rs) t. radix_Upsert t d rs) ?es radix_New)) = abs_map (root t)"
    "tree_inv (fold (\<lambda>(d, rs) t. radix_Upsert t d rs) ?es radix_New)"
    using rt.cont_run [OF tree_inv_New, of ?ms] rt.invar_run [OF tree_inv_New, of ?ms] rt.cont_empty by simp_all
  then show ?thesis
    using assms(1) by (intro get_determines) (simp_all add: rt.get_cont)
qed

lemma entries_in_class:
  assumes "tree_inv t" and "storable t"
  shows "fold (\<lambda>(d, rs). f d (map in_class rs)) (walk_entries (root t)) st = fold (\<lambda>(d, rs). f d rs) (walk_entries (root t)) st"
proof (rule fold_cong [OF refl refl])
  have wf: "wf_node (root t)" using assms(1) by (simp add: tree_inv_def)
  fix e assume e: "e \<in> set (walk_entries (root t))"
  obtain d rs where e': "e = (d, rs)" by (cases e)
  with e obtain ls where "abs_map (root t) ls = Some rs" unfolding e' entries_mem [OF wf] by blast
  then have "map in_class rs = rs"
    using assms(2) by (auto simp: storable_def in_class_def list_all_iff intro!: map_idI)
  then show "(case e of (d, rs) \<Rightarrow> f d (map in_class rs)) = (case e of (d, rs) \<Rightarrow> f d rs)" by (simp add: e')
qed

lemma Save_Load:
  assumes "\<And>x. inflate (deflate x) = x" and "tree_inv t" and "storable t" and "Save deflate t = Inr s"
  shows "Load inflate s (\<lambda>d rs t. radix_Upsert t d rs) radix_New = (None, t)"
proof -
  let ?es = "walk_entries (root t)"
  let ?c = "deflate (concat (map enc_record ?es))" and ?n = "word_of_int (radix_Len t) :: u32"
  let ?h = "snap_writeHeader ?n (word_of_nat (length ?c))"
  have s: "s = ?h @ ?c @ put32 (crc32 (?h @ ?c))" and c: "length ?c \<le> MaxUint32" and l: "radix_Len t \<le> int MaxUint32"
    and fits: "\<forall>(d, rs) \<in> set ?es. length d \<le> MaxDomainLen \<and> length rs \<le> MaxRecordsPerDomain \<and> list_all rrset_fits rs"
    using Save_file [OF assms(4)] by blast+
  have es: "int (length ?es) = radix_Len t"
    using assms(2,3) by (intro entries_length) (auto simp: storable_def)
  then have "?n = word_of_nat (length ?es)" by (simp flip: es)
  moreover have "length ?es \<le> MaxUint32" using es l by linarith
  ultimately have n: "unat ?n = length ?es" by (simp only: unat_of_nat) simp
  have ld: "load_records (length ?es) \<lparr>d_r = inflate ?c, d_hash = None\<rparr> (\<lambda>d rs t. radix_Upsert t d rs) radix_New = (None, t)"
    using load_records_enc [OF fits, of "[]" "\<lambda>d rs t. radix_Upsert t d rs" radix_New]
    unfolding entries_in_class [OF assms(2,3), of "\<lambda>d rs t. radix_Upsert t d rs"] rebuild_tree [OF assms(2,3)] assms(1)
    by simp
  have "ReadFull (put32 (crc32 (?h @ ?c))) 4 = Inr (put32 (crc32 (?h @ ?c)), [])"
    using ReadFull_append [of 4 "put32 (crc32 (?h @ ?c))" "[]"] by simp
  then show ?thesis
    unfolding arg_cong [OF s, of "\<lambda>s. Load inflate s (\<lambda>d rs t. radix_Upsert t d rs) radix_New"] Load_file [OF c] n ld
    by simp
qed

text \<open>C12: a snapshot restores the state.  When \<open>Save\<close> succeeds on a tree, loading the file into an
  empty tree succeeds and gives the very same tree, nodes and counter included, provided that
  decompression inverts compression.\<close>

theorem snapshot_roundtrip:
  assumes "\<And>x. inflate (deflate x) = x" and "tree_inv t" and "storable t" and "Save deflate t = Inr s"
  shows "Load inflate s (\<lambda>d rs t. radix_Upsert t d rs) radix_New = (None, t)"
  by (rule Save_Load [OF assms])

text \<open>Damage to a snapshot is noticed.  \<open>Load\<close> reports an error on every proper prefix of a
  snapshot file and on every file that differs from it in one byte of the body, whatever the
  decompressor makes of it.\<close>

theorem snapshot_damage_detected:
  assumes "Save deflate t = Inr s"
  shows "(\<forall>q. strict_prefix q s \<longrightarrow> fst (Load inflate q f st) \<noteq> None) \<and>
    (\<forall>i y. snapHeaderSize \<le> i \<longrightarrow> i < length s - checksumSize \<longrightarrow> y \<noteq> s ! i \<longrightarrow> fst (Load inflate (s[i := y]) f st) \<noteq> None)"
proof -
  obtain c n where s: "s = snap_writeHeader n (word_of_nat (length c)) @ c @ put32 (crc32 (snap_writeHeader n (word_of_nat (length c)) @ c))"
    and len: "length c \<le> MaxUint32"
    using Save_file [OF assms] by blast
  let ?h = "snap_writeHeader n (word_of_nat (length c))"
  have u: "unat (word_of_nat (length c) :: u32) = length c" using len by (simp add: unat_of_nat)
  have "fst (Load inflate q f st) \<noteq> None" if q: "strict_prefix q s" for q
    using q unfolding s
  proof (cases rule: strict_prefix_append_cases)
    case 1
    then obtain e where "ReadFull q 13 = Inl e"
      using ReadFull_short [of q 13] prefix_length_less [OF 1] by (auto simp: length_snap_header)
    then show ?thesis by (simp add: Load_def snap_readHeader_def)
  next
    case (2 r)
    have "length (drop (length c) r) < 4" using prefix_length_less [OF 2(2)] by simp
    from ReadFull_short [OF this] obtain e where "ReadFull (drop (length c) r) 4 = Inl e" by blast
    then show ?thesis
      by (auto simp: 2(1) Load_def snap_readHeader_write u Let_def split: prod.split option.split)
  qed
  moreover have "fst (Load inflate (s[i := y]) f st) \<noteq> None"
    if i: "13 \<le> i" "i < length s - 4" "y \<noteq> s ! i" for i y
  proof -
    define j where "j = i - 13"
    have j: "j < length c" "i = length ?h + j" using i by (simp_all add: j_def s length_snap_header)
    have "c ! j \<noteq> y" using i(3) j by (auto simp: s nth_append)
    define c' where "c' = c[j := y]"
    have c: "c = take j c @ c ! j # drop (Suc j) c" "c' = take j c @ y # drop (Suc j) c"
      using j(1) by (simp_all add: c'_def id_take_nth_drop upd_conv_take_nth_drop)
    have "crc32 (?h @ take j c @ y # drop (Suc j) c) \<noteq> crc32 (?h @ take j c @ c ! j # drop (Suc j) c)"
      using \<open>c ! j \<noteq> y\<close> by (auto simp: crc32_def crc_write_def foldl_crc_inject crc_byte_inject)
    then have ne: "crc32 (?h @ c') \<noteq> crc32 (?h @ c)" using c by metis
    have "length c' = length c" by (simp add: c'_def)
    moreover have "s[i := y] = ?h @ c' @ put32 (crc32 (?h @ c))"
      using j by (simp add: s c'_def list_update_append)
    ultimately show ?thesis
      using Load_file [of c' inflate n "put32 (crc32 (?h @ c))" f st] ne len ReadFull_append [of 4 "put32 (crc32 (?h @ c))" "[]"]
      by (auto split: prod.split option.split)
  qed
  ultimately show ?thesis by blast
qed

definition sample_zone :: Tree where
  "sample_zone = radix_Upsert radix_New ''b.org'' [a_set]"

lemma sample_zone_inv: "tree_inv sample_zone"
  unfolding sample_zone_def by (intro rt.invar_upsert tree_inv_New)

lemma sample_zone_storable: "storable sample_zone"
proof -
  have "abs_map (root sample_zone) ls = Some rs \<Longrightarrow> ls = labels ''b.org'' \<and> rs = [a_set]" for ls rs
    unfolding sample_zone_def rt.cont_upsert [OF tree_inv_New] rt.cont_empty by (auto split: if_splits)
  moreover have "length (dotted (labels ''b.org'')) \<le> 256" by code_simp
  moreover have "list_all (\<lambda>r. rr_Class r = ClassIN) [a_set]" by (simp add: a_set_def)
  ultimately show ?thesis unfolding storable_def by blast
qed

lemma sample_zone_saved: "\<exists>s. Save id sample_zone = Inr s \<and> 13 < length s - 4"
proof -
  have e: "walk_entries (root sample_zone) = [(''b.org'', [a_set])]" and n: "radix_Len sample_zone = 1" by code_simp+
  have "calculateFrameSize ''b.org'' [a_set] = Inr 23"
    by (simp add: calculateFrameSize_def a_set_def)
  moreover have "RData a_set = [[192, 0, 2, 1]]" by (simp add: a_set_def)
  ultimately show ?thesis
    by (simp add: Save_def Walk_entries e n save_record_def WriteRecord_eq NewEncoder_def Let_def length_snap_header
        enc_record_def)
qed

theorem snapshot_roundtrip_witness:
  "\<exists>s. Save id sample_zone = Inr s \<and> Load id s (\<lambda>d rs t. radix_Upsert t d rs) radix_New = (None, sample_zone)"
  using sample_zone_saved snapshot_roundtrip [of id id, OF _ sample_zone_inv sample_zone_storable] by auto

theorem snapshot_damage_detected_witness:
  "\<exists>s. Save id sample_zone = Inr s \<and> fst (Load id (butlast s) (\<lambda>d rs. id) ()) \<noteq> None \<and>
     fst (Load id (s[13 := s ! 13 + 1]) (\<lambda>d rs. id) ()) \<noteq> None"
proof -
  obtain s where s: "Save id sample_zone = Inr s" "13 < length s - 4" using sample_zone_saved by blast
  then have "s \<noteq> []" by auto
  then have "butlast s \<noteq> s" by (metis append_butlast_last_id not_Cons_self2 self_append_conv)
  then have "strict_prefix (butlast s) s" by (simp add: strict_prefix_def prefixeq_butlast)
  with snapshot_damage_detected [OF s(1), of id "\<lambda>d rs. id" "()"] s show ?thesis by auto
qed

text \<open>Temporary snapshots are swept.  A file that \<open>CreateTemp\<close> creates for a snapshot is new in the
  directory, and \<open>CleanStaleTemp\<close> removes it again and leaves every other file that was not a
  temporary snapshot.\<close>

theorem CreateTemp_swept:
  assumes "CreateTemp dir rnd ''state-snap-*.tmp'' = Some (name, dir')"
  shows "name \<notin> fst ` set dir \<and> name \<in> fst ` set dir' \<and> (name, False) \<notin> set (CleanStaleTemp dir') \<and>
    CleanStaleTemp dir' = CleanStaleTemp dir \<and>
    (\<forall>e \<in> set dir. \<not> prefix ''state-snap-'' (fst e) \<longrightarrow> e \<in> set (CleanStaleTemp dir'))"
proof -
  have p: "prefixAndSuffix ''state-snap-*.tmp'' = Some (''state-snap-'', ''.tmp'')" by code_simp
  have "create_loop dir rnd pre suf n k = Some nm \<Longrightarrow> nm \<notin> fst ` set dir \<and> prefix pre nm \<and> suffix suf nm" for pre suf n k nm
    by (induction n arbitrary: k) (auto simp: Let_def suffix_def split: if_splits)
  with assms p have n: "name \<notin> fst ` set dir" "prefix ''state-snap-'' name" "suffix ''.tmp'' name" and d: "dir' = (name, False) # dir"
    by (auto simp: CreateTemp_def split: option.splits)
  then show ?thesis by (auto simp: CleanStaleTemp_def)
qed

theorem CreateTemp_swept_witness:
  "\<exists>dir'. CreateTemp [(''state.snap'', False)] (\<lambda>k. 7) ''state-snap-*.tmp'' = Some (''state-snap-7.tmp'', dir') \<and>
     (''state.snap'', False) \<in> set (CleanStaleTemp dir')"
proof -
  have "FormatUint 7 = ''7''" by code_simp
  moreover have "prefixAndSuffix ''state-snap-*.tmp'' = Some (''state-snap-'', ''.tmp'')" by code_simp
  moreover have "create_loop [(''state.snap'', False)] (\<lambda>k. 7) ''state-snap-'' ''.tmp'' (Suc 9999) 0 = Some (''state-snap-7.tmp'')"
    using \<open>FormatUint 7 = ''7''\<close> unfolding create_loop.simps by simp
  ultimately obtain dir' where "CreateTemp [(''state.snap'', False)] (\<lambda>k. 7) ''state-snap-*.tmp'' = Some (''state-snap-7.tmp'', dir')"
    by (simp add: CreateTemp_def del: create_loop.simps)
  with CreateTemp_swept [OF this] show ?thesis by auto
qed

end
