(* ===== verification/RadixResolve.thy ===== *)
theory RadixResolve
  imports RadixTree
begin

text \<open>
  \<open>internal/radix/resolve.go\<close>: the walk that answers a query.  The loop of \<open>Resolve\<close> is
  modelled as written; the specification \<open>resolve_spec\<close> says what the answer is in terms of
  the stored records only: the topmost delegation on the way to the name, else the records at
  the name, else the wildcard below the deepest ancestor that has one, else a name error, with
  the deepest enclosing SOA attached to negative answers.
\<close>

section \<open>Resolution\<close>

definition formatDomainName :: "string \<Rightarrow> nat \<Rightarrow> string" where
  "formatDomainName domain cursor =
     (if cursor = length domain then ''.''
      else if cursor > 0 then drop (cursor + 1) domain
      else domain)"

text \<open>The pair \<open>soaRR, soaName\<close> that \<open>evaluateNode\<close> updates through pointers is returned; the
  first component is the referral that ends the walk.\<close>

definition evaluateNode ::
  "node \<Rightarrow> u16 \<Rightarrow> string \<Rightarrow> nat \<Rightarrow> RRSet \<times> string \<Rightarrow> Result option \<times> (RRSet \<times> string)" where
  "evaluateNode n qt domain cursor soa =
     (if NodeRRSets n = [] then (None, soa)
      else
        (case searchRRSet (Some n) TypeSOA of
           Some soaRR \<Rightarrow> (None, (soaRR, formatDomainName domain cursor))
         | None \<Rightarrow>
             (case searchRRSet (Some n) TypeNS of
                Some ns \<Rightarrow>
                  (let isExactMatch = (cursor = 0) in
                   if qt \<noteq> TypeDS \<or> \<not> isExactMatch then
                     (Some (no_Result\<lparr>RCode := RCodeSuccess, Authority := ns,
                              AuthorityName := formatDomainName domain cursor\<rparr>), soa)
                   else (None, soa))
              | None \<Rightarrow> (None, soa))))"

definition resolveAtNode :: "node \<Rightarrow> u16 \<Rightarrow> RRSet \<times> string \<Rightarrow> Result" where
  "resolveAtNode n qt soa =
     (if qt = TypeANY \<and> NodeRRSets n \<noteq> [] then
        no_Result\<lparr>RCode := RCodeSuccess, Answer := NodeRRSets n ! 0\<rparr>
      else
        (case searchRRSet (Some n) qt of
           Some rr \<Rightarrow> no_Result\<lparr>RCode := RCodeSuccess, Answer := rr\<rparr>
         | None \<Rightarrow>
             (case (if qt \<noteq> TypeCNAME then searchRRSet (Some n) TypeCNAME else None) of
                Some cname \<Rightarrow> no_Result\<lparr>RCode := RCodeSuccess, Answer := cname\<rparr>
              | None \<Rightarrow>
                  no_Result\<lparr>RCode := RCodeSuccess, Authority := fst soa, AuthorityName := snd soa\<rparr>)))"

definition wildcardResolve :: "node option \<Rightarrow> u16 \<Rightarrow> RRSet \<times> string \<Rightarrow> Result" where
  "wildcardResolve fallback qt soa =
     (case fallback of
        None \<Rightarrow> no_Result\<lparr>RCode := RCodeNameError, Authority := fst soa, AuthorityName := snd soa\<rparr>
      | Some n \<Rightarrow>
          if NodeRRSets n = [] then
            no_Result\<lparr>RCode := RCodeNameError, Authority := fst soa, AuthorityName := snd soa\<rparr>
          else resolveAtNode n qt soa)"

definition nameExists :: "node \<Rightarrow> bool" where
  "nameExists n \<longleftrightarrow> NodeRRSets n \<noteq> [] \<or> Children n \<noteq> [] \<or> Wildcard n \<noteq> None"

function resolve_loop ::
  "string \<Rightarrow> u16 \<Rightarrow> node \<Rightarrow> DomainIterator \<Rightarrow> node option \<Rightarrow> RRSet \<times> string \<Rightarrow> Result" where
  "resolve_loop domain qt currentNode it fallback soa =
     (case NextLower it of
        (None, _) \<Rightarrow>
          if \<not> nameExists currentNode then
            (if fallback \<noteq> None then wildcardResolve fallback qt soa
             else no_Result\<lparr>RCode := RCodeNameError, Authority := fst soa, AuthorityName := snd soa\<rparr>)
          else resolveAtNode currentNode qt soa
      | (Some label, it') \<Rightarrow>
          (let fallback = (if Wildcard currentNode \<noteq> None then Wildcard currentNode else fallback) in
           if label = ''*'' then
             (case Wildcard currentNode of
                None \<Rightarrow> wildcardResolve fallback qt soa
              | Some w \<Rightarrow>
                  (case evaluateNode w qt domain (it_cursor it') soa of
                     (Some res, _) \<Rightarrow> res
                   | (None, soa') \<Rightarrow> resolve_loop domain qt w it' fallback soa'))
           else
             (case findEdge (Children currentNode) label of
                (idx, edgeFound) \<Rightarrow>
                  if \<not> edgeFound then wildcardResolve fallback qt soa
                  else
                    (let c = snd (Children currentNode ! idx) in
                     case evaluateNode c qt domain (it_cursor it') soa of
                       (Some res, _) \<Rightarrow> res
                     | (None, soa') \<Rightarrow> resolve_loop domain qt c it' fallback soa'))))"
  by pat_completeness auto
termination
  by (relation "measure (\<lambda>(d, q, n, it, f, s). it_cursor it)") (auto simp: termination_simp)

declare resolve_loop.simps [simp del]

definition radix_Resolve :: "Tree \<Rightarrow> string \<Rightarrow> u16 \<Rightarrow> Result" where
  "radix_Resolve t domain qt =
     (case evaluateNode (root t) qt domain (length domain) (no_RRSet, ''.'') of
        (Some res, _) \<Rightarrow> res
      | (None, soa) \<Rightarrow> resolve_loop domain qt (root t) (NewDomainIterator domain) None soa)"

section \<open>What the answer is, in terms of the stored records\<close>

text \<open>\<open>m\<close> is the stored content: record sets by path of labels.\<close>

definition stored :: "(string list \<Rightarrow> RRSets option) \<Rightarrow> string list \<Rightarrow> u16 \<Rightarrow> RRSet option" where
  "stored m p ty = (case m p of None \<Rightarrow> None | Some rs \<Rightarrow> RRSets_Get rs ty)"

text \<open>A name exists when it or a name below it owns records (empty non-terminals exist).\<close>

definition name_exists :: "(string list \<Rightarrow> RRSets option) \<Rightarrow> string list \<Rightarrow> bool" where
  "name_exists m p \<longleftrightarrow> (\<exists>q. m (p @ q) \<noteq> None)"

definition path_name :: "string list \<Rightarrow> string" where
  "path_name p = (if p = [] then ''.'' else dotted p)"

text \<open>A delegation point: name servers without an SOA, except for a DS query at the point.\<close>

definition is_cut :: "(string list \<Rightarrow> RRSets option) \<Rightarrow> u16 \<Rightarrow> string list \<Rightarrow> nat \<Rightarrow> bool" where
  "is_cut m qt ls k \<longleftrightarrow>
     stored m (take k ls) TypeSOA = None \<and> stored m (take k ls) TypeNS \<noteq> None \<and>
     \<not> (qt = TypeDS \<and> k = length ls)"

text \<open>The deepest SOA among the first \<open>j + 1\<close> ancestors, and the path of the wildcard below the
  deepest of the first \<open>j\<close> ancestors that has one.\<close>

definition soa_upto :: "(string list \<Rightarrow> RRSets option) \<Rightarrow> string list \<Rightarrow> nat \<Rightarrow> RRSet \<times> string" where
  "soa_upto m ls j =
     (case find (\<lambda>k. stored m (take k ls) TypeSOA \<noteq> None) (rev [0..<Suc j]) of
        None \<Rightarrow> (no_RRSet, ''.'')
      | Some k \<Rightarrow> (the (stored m (take k ls) TypeSOA), path_name (take k ls)))"

definition wildcard_upto :: "(string list \<Rightarrow> RRSets option) \<Rightarrow> string list \<Rightarrow> nat \<Rightarrow> string list option" where
  "wildcard_upto m ls j =
     map_option (\<lambda>k. take k ls @ [''*''])
       (find (\<lambda>k. name_exists m (take k ls @ [''*''])) (rev [0..<j]))"

definition answer_from :: "RRSets \<Rightarrow> u16 \<Rightarrow> RRSet \<times> string \<Rightarrow> Result" where
  "answer_from rs qt soa =
     (let positive = (\<lambda>rr. no_Result\<lparr>RCode := RCodeSuccess, Answer := rr\<rparr>) in
      if qt = TypeANY \<and> rs \<noteq> [] then positive (hd rs)
      else
        (case RRSets_Get rs qt of
           Some rr \<Rightarrow> positive rr
         | None \<Rightarrow>
             (case RRSets_Get rs TypeCNAME of
                Some rr \<Rightarrow> positive rr
              | None \<Rightarrow>
                  no_Result\<lparr>RCode := RCodeSuccess, Authority := fst soa, AuthorityName := snd soa\<rparr>)))"

definition name_error :: "RRSet \<times> string \<Rightarrow> Result" where
  "name_error soa = no_Result\<lparr>RCode := RCodeNameError, Authority := fst soa, AuthorityName := snd soa\<rparr>"

definition resolve_spec :: "(string list \<Rightarrow> RRSets option) \<Rightarrow> string list \<Rightarrow> u16 \<Rightarrow> Result" where
  "resolve_spec m ls qt =
     (let n = length ls; soa = soa_upto m ls n in
      case find (is_cut m qt ls) [0..<Suc n] of
        Some k \<Rightarrow>
          no_Result\<lparr>RCode := RCodeSuccess, Authority := the (stored m (take k ls) TypeNS),
                    AuthorityName := path_name (take k ls)\<rparr>
      | None \<Rightarrow>
          if name_exists m ls then
            answer_from (case m ls of None \<Rightarrow> [] | Some rs \<Rightarrow> rs) qt soa
          else
            (case wildcard_upto m ls n of
               None \<Rightarrow> name_error soa
             | Some p \<Rightarrow>
                 (case m p of None \<Rightarrow> name_error soa | Some rs \<Rightarrow> answer_from rs qt soa)))"

section \<open>The loop on canonical names\<close>

lemma searchRRSet_Get: "searchRRSet (Some n) qt = RRSets_Get (NodeRRSets n) qt"
proof -
  have "find (\<lambda>r. rr_Type r = qt) rs = RRSets_Get rs qt" for rs by (induction rs) auto
  then show ?thesis by (simp add: searchRRSet_def)
qed

lemma resolveAtNode_answer: "resolveAtNode n qt soa = answer_from (NodeRRSets n) qt soa"
  by (auto simp: resolveAtNode_def answer_from_def searchRRSet_Get hd_conv_nth Let_def split: option.split)

lemma wildcardResolve_answer:
  "wildcardResolve fb qt soa =
     (case fb of
        None \<Rightarrow> name_error soa
      | Some n \<Rightarrow> if NodeRRSets n = [] then name_error soa else answer_from (NodeRRSets n) qt soa)"
  by (simp add: wildcardResolve_def name_error_def resolveAtNode_answer split: option.split)

lemma dotted_simps:
  "dotted [] = []" "dotted [l] = l"
  "rest \<noteq> [] \<Longrightarrow> dotted (l # rest) = dotted rest @ CHR ''.'' # l"
  by (simp_all add: dotted_def join_with_append)

lemma dotted_append:
  "p \<noteq> [] \<Longrightarrow> q \<noteq> [] \<Longrightarrow> dotted (p @ q) = dotted q @ CHR ''.'' # dotted p"
  by (simp add: dotted_def join_with_append)

lemma dotted_eq_Nil: "list_all valid_label ls \<Longrightarrow> dotted ls = [] \<longleftrightarrow> ls = []"
  by (cases ls; cases "tl ls = []") (auto simp: dotted_simps valid_label_def neq_Nil_conv)

lemma take_dotted_prefix: "take (length (dotted q)) (dotted (p @ q)) = dotted q"
  by (cases "q = []"; cases "p = []") (simp_all add: dotted_append dotted_simps)

lemma NextLower_canonical:
  assumes "list_all valid_label (l # rest)" and "it_cursor it = length (dotted (l # rest))"
    and "take (it_cursor it) (it_domain it) = dotted (l # rest)"
  shows "NextLower it = (Some l, it\<lparr>it_cursor := length (dotted rest)\<rparr>)"
proof -
  have l: "l \<noteq> []" "CHR ''.'' \<notin> set l" "lower_ascii l = l"
    using assms(1) by (auto simp: valid_label_def)
  have pos: "it_cursor it > 0"
    using dotted_eq_Nil [OF assms(1)] assms(2) by simp
  show ?thesis
  proof (cases "rest = []")
    case True
    have "LastIndexByte l CHR ''.'' = None" using l by (simp add: LastIndexByte_None)
    with True assms(3) Next_no_dot [OF pos] l show ?thesis
      by (simp add: NextLower_eq dotted_simps)
  next
    case False
    have "LastIndexByte (take (it_cursor it) (it_domain it)) CHR ''.'' = Some (length (dotted rest))"
      using l(2) False unfolding assms(3) by (simp add: dotted_simps(3) LastIndexByte_append)
    from Next_dot [OF this] False assms(3) l show ?thesis
      by (simp add: NextLower_eq dotted_simps(3))
  qed
qed

lemma formatDomainName_canonical:
  assumes "list_all valid_label (p @ q)"
  shows "formatDomainName (dotted (p @ q)) (length (dotted q)) = path_name p"
proof -
  have "list_all valid_label p" "list_all valid_label q" using assms by auto
  then show ?thesis
    using dotted_eq_Nil [of p] dotted_eq_Nil [of q]
    by (cases "p = []"; cases "q = []")
      (auto simp: formatDomainName_def path_name_def dotted_append dotted_simps)
qed

text \<open>One visited node: a delegation ends the walk, an SOA is remembered.\<close>

lemma evaluateNode_stored:
  assumes "list_all valid_label (p @ q)" and "node_at r p = Some n"
  shows "evaluateNode n qt (dotted (p @ q)) (length (dotted q)) soa =
    (if is_cut (abs_map r) qt (p @ q) (length p) then
       (Some (no_Result\<lparr>RCode := RCodeSuccess, Authority := the (stored (abs_map r) p TypeNS),
          AuthorityName := path_name p\<rparr>), soa)
     else (None, if stored (abs_map r) p TypeSOA = None then soa
                 else (the (stored (abs_map r) p TypeSOA), path_name p)))"
proof -
  have "stored (abs_map r) p ty = RRSets_Get (NodeRRSets n) ty" for ty
    using assms(2) by (simp add: stored_def abs_map_def)
  moreover have "length (dotted q) = 0 \<longleftrightarrow> length p = length (p @ q)"
    using dotted_eq_Nil [of q] assms(1) by simp
  ultimately show ?thesis
    using formatDomainName_canonical [OF assms(1)]
    by (auto simp: evaluateNode_def is_cut_def searchRRSet_Get Let_def split: option.split)
qed

section \<open>Nodes and existing names\<close>

lemma node_at_append:
  "node_at n (p @ q) = (case node_at n p of None \<Rightarrow> None | Some c \<Rightarrow> node_at c q)"
  by (induction p arbitrary: n) (auto split: option.split)

lemma abs_map_append:
  "abs_map n (p @ q) = (case node_at n p of None \<Rightarrow> None | Some c \<Rightarrow> abs_map c q)"
  by (simp add: abs_map_def node_at_append split: option.split)

lemma node_at_pruned:
  "wf_node r \<Longrightarrow> pruned r \<Longrightarrow> node_at r p = Some n \<Longrightarrow>
   wf_node n \<and> pruned n \<and> (p \<noteq> [] \<longrightarrow> \<not> is_ghost n)"
proof (induction p arbitrary: r)
  case (Cons l p)
  then obtain c where c: "child r l = Some c" "node_at c p = Some n" by (auto split: option.splits)
  have "\<not> is_ghost c" using Cons.prems c by (simp add: pruned_iff)
  with Cons.IH [OF wf_child [OF Cons.prems(1) c(1)] pruned_child [OF Cons.prems(1,2) c(1)] c(2)] c(2)
  show ?case by (cases "p = []") auto
qed simp

lemma name_exists_node:
  assumes "wf_node r" "pruned r"
  shows "node_at r p = None \<Longrightarrow> \<not> name_exists (abs_map r) p"
    and "node_at r p = Some n \<Longrightarrow> name_exists (abs_map r) p \<longleftrightarrow> \<not> is_ghost n"
    and "p \<noteq> [] \<Longrightarrow> name_exists (abs_map r) p \<longleftrightarrow> node_at r p \<noteq> None"
proof -
  show none: "node_at r p = None \<Longrightarrow> \<not> name_exists (abs_map r) p"
    by (simp add: name_exists_def abs_map_append)
  show some: "name_exists (abs_map r) p \<longleftrightarrow> \<not> is_ghost n" if n: "node_at r p = Some n" for n
    using pruned_nonempty [of n] node_at_pruned [OF assms n] abs_map_ghost [of n] n
    by (auto simp: name_exists_def abs_map_append)
  show "p \<noteq> [] \<Longrightarrow> name_exists (abs_map r) p \<longleftrightarrow> node_at r p \<noteq> None"
    using none some node_at_pruned [OF assms] by (cases "node_at r p") auto
qed

lemma soa_upto_Suc:
  "soa_upto m ls (Suc j) =
     (if stored m (take (Suc j) ls) TypeSOA = None then soa_upto m ls j
      else (the (stored m (take (Suc j) ls) TypeSOA), path_name (take (Suc j) ls)))"
  by (simp add: soa_upto_def)

lemma wildcard_upto_Suc:
  "wildcard_upto m ls (Suc j) =
     (if name_exists m (take j ls @ [''*'']) then Some (take j ls @ [''*'']) else wildcard_upto m ls j)"
  by (simp add: wildcard_upto_def)

text \<open>Below the last existing node on the way to a name nothing is stored.\<close>

lemma beyond_match:
  assumes "node_at r (take j ls) = None" and "j \<le> k"
  shows "node_at r (take k ls @ q) = None" and "stored (abs_map r) (take k ls) ty = None"
proof -
  have "take k ls = take j ls @ take (k - j) (drop j ls)"
    using assms(2) by (metis le_add_diff_inverse take_add)
  then show "node_at r (take k ls @ q) = None" for q
    using assms(1) by (simp add: node_at_append)
  from this [of "[]"] show "stored (abs_map r) (take k ls) ty = None"
    by (simp add: stored_def abs_map_def)
qed

lemma upto_beyond_match:
  assumes "wf_node r" "pruned r" and "node_at r (take (Suc j) ls) = None"
  shows "soa_upto (abs_map r) ls (j + i) = soa_upto (abs_map r) ls j"
    and "wildcard_upto (abs_map r) ls (Suc j + i) = wildcard_upto (abs_map r) ls (Suc j)"
    and "\<not> is_cut (abs_map r) qt ls (Suc j + i)"
proof -
  show "soa_upto (abs_map r) ls (j + i) = soa_upto (abs_map r) ls j"
    by (induction i) (simp_all add: soa_upto_Suc beyond_match(2) [OF assms(3)])
  show "wildcard_upto (abs_map r) ls (Suc j + i) = wildcard_upto (abs_map r) ls (Suc j)"
  proof (induction i)
    case (Suc i)
    have "\<not> name_exists (abs_map r) (take (Suc j + i) ls @ [''*''])"
      using beyond_match(1) [OF assms(3), of "Suc j + i"] by (intro name_exists_node(1) assms) simp
    with Suc show ?case using wildcard_upto_Suc [of "abs_map r" ls "Suc j + i"] by simp
  qed simp
  show "\<not> is_cut (abs_map r) qt ls (Suc j + i)"
    by (simp add: is_cut_def beyond_match(2) [OF assms(3)])
qed

lemma find_first_index:
  assumes "\<forall>k < j. \<not> P k" and "P j" and "j \<le> n"
  shows "find P [0..<Suc n] = Some j"
  unfolding find_Some_iff by (rule exI [of _ j]) (use assms in \<open>simp del: upt_Suc\<close>)

lemma find_no_index: "\<forall>k \<le> n. \<not> P k \<Longrightarrow> find P [0..<Suc n] = None"
  by (simp add: find_None_iff less_Suc_eq_le del: upt_Suc)

section \<open>The loop computes the specification\<close>

lemma resolve_loop_step:
  assumes "wf_node n" and "NextLower it = (Some l, it')"
  shows "resolve_loop domain qt n it fb soa =
    (let fb' = (if Wildcard n \<noteq> None then Wildcard n else fb) in
     case child n l of
       None \<Rightarrow> wildcardResolve fb' qt soa
     | Some c \<Rightarrow>
         (case evaluateNode c qt domain (it_cursor it') soa of
            (Some res, _) \<Rightarrow> res
          | (None, soa') \<Rightarrow> resolve_loop domain qt c it' fb' soa'))"
proof (cases "l = ''*''")
  case True
  then show ?thesis
    by (simp add: resolve_loop.simps [of domain qt n] assms(2) child_star Let_def)
next
  case False
  note fe = findEdge_child [OF assms(1) False]
  show ?thesis
    using False fe(2)
    by (cases "child n l") (simp_all add: resolve_loop.simps [of domain qt n] assms(2) fe(1) Let_def)
qed

abbreviation fallback_node :: "node \<Rightarrow> string list \<Rightarrow> nat \<Rightarrow> node option" where
  "fallback_node r ls j \<equiv> Option.bind (wildcard_upto (abs_map r) ls j) (node_at r)"

lemma fallback_step:
  assumes "wf_node r" "pruned r" "node_at r p = Some n"
  shows "fallback_node r (p @ q) (Suc (length p)) =
    (if Wildcard n \<noteq> None then Wildcard n else fallback_node r (p @ q) (length p))"
proof -
  have star: "node_at r (p @ [''*'']) = Wildcard n"
    using assms(3) by (simp add: node_at_append child_star split: option.split)
  then have "name_exists (abs_map r) (p @ [''*'']) \<longleftrightarrow> Wildcard n \<noteq> None"
    using name_exists_node(3) [OF assms(1,2), of "p @ [''*'']"] by simp
  with star show ?thesis by (simp add: wildcard_upto_Suc)
qed

lemma wildcardResolve_fallback:
  "wildcardResolve (Option.bind w (node_at r)) qt soa =
     (case w of
        None \<Rightarrow> name_error soa
      | Some p \<Rightarrow> (case abs_map r p of None \<Rightarrow> name_error soa | Some rs \<Rightarrow> answer_from rs qt soa))"
  by (cases w) (auto simp: wildcardResolve_answer abs_map_def split: option.split)

lemma resolve_loop_spec:
  assumes "wf_node r" "pruned r"
  shows "list_all valid_label (p @ q) \<Longrightarrow> node_at r p = Some n \<Longrightarrow>
    it_domain it = dotted (p @ q) \<Longrightarrow> it_cursor it = length (dotted q) \<Longrightarrow>
    (\<forall>k \<le> length p. \<not> is_cut (abs_map r) qt (p @ q) k) \<Longrightarrow>
    resolve_loop (dotted (p @ q)) qt n it (fallback_node r (p @ q) (length p))
      (soa_upto (abs_map r) (p @ q) (length p)) =
    resolve_spec (abs_map r) (p @ q) qt"
proof (induction q arbitrary: p n it)
  case Nil
  have "NextLower it = (None, it)" using Nil.prems by (simp add: NextLower_eq Next_at_start dotted_simps)
  moreover have "find (is_cut (abs_map r) qt p) [0..<Suc (length p)] = None"
    using Nil.prems(5) by (intro find_no_index) simp
  moreover have "nameExists n \<longleftrightarrow> \<not> is_ghost n" by (auto simp: nameExists_def is_ghost_def)
  moreover have "p = [] \<and> wildcard_upto (abs_map r) p 0 = None" if "is_ghost n"
    using that node_at_pruned [OF assms Nil.prems(2)] by (auto simp: wildcard_upto_def)
  moreover have "(case abs_map r p of None \<Rightarrow> [] | Some rs \<Rightarrow> rs) = NodeRRSets n"
    using Nil.prems(2) by (simp add: abs_map_def)
  ultimately show ?case
    using name_exists_node(2) [OF assms Nil.prems(2)]
    by (auto simp: resolve_loop.simps [of _ qt n] resolve_spec_def resolveAtNode_answer name_error_def
        Let_def simp del: upt_Suc)
next
  case (Cons l q)
  let ?ls = "p @ l # q" and ?m = "abs_map r" and ?j = "length p"
  note nl = NextLower_canonical [OF _ Cons.prems(4), unfolded Cons.prems(3)]
  have nx: "NextLower it = (Some l, it\<lparr>it_cursor := length (dotted q)\<rparr>)"
    using Cons.prems(1) take_dotted_prefix [of "l # q" p] Cons.prems(4) by (intro nl) simp_all
  have step: "resolve_loop (dotted ?ls) qt n it (fallback_node r ?ls ?j) soa =
      (case child n l of
         None \<Rightarrow> wildcardResolve (fallback_node r ?ls (Suc ?j)) qt soa
       | Some c \<Rightarrow>
           (case evaluateNode c qt (dotted ?ls) (length (dotted q)) soa of
              (Some res, _) \<Rightarrow> res
            | (None, soa') \<Rightarrow> resolve_loop (dotted ?ls) qt c (it\<lparr>it_cursor := length (dotted q)\<rparr>)
                (fallback_node r ?ls (Suc ?j)) soa'))" for soa
    unfolding resolve_loop_step [OF node_at_pruned [OF assms Cons.prems(2), THEN conjunct1] nx]
      fallback_step [OF assms Cons.prems(2)] Let_def by (simp cong: option.case_cong)
  show ?case
  proof (cases "child n l")
    case None
    then have off: "node_at r (take (Suc ?j) ?ls) = None" "node_at r ?ls = None"
      using Cons.prems(2) by (simp_all add: node_at_append)
    have "\<not> is_cut ?m qt ?ls k" for k
      using Cons.prems(5) upto_beyond_match(3) [OF assms off(1), of qt "k - Suc ?j"]
      by (cases "k \<le> ?j") auto
    then have "find (is_cut ?m qt ?ls) [0..<Suc (length ?ls)] = None" by (intro find_no_index) simp
    moreover have "soa_upto ?m ?ls (length ?ls) = soa_upto ?m ?ls ?j"
      using upto_beyond_match(1) [OF assms off(1), of "Suc (length q)"] by simp
    moreover have "wildcard_upto ?m ?ls (length ?ls) = wildcard_upto ?m ?ls (Suc ?j)"
      using upto_beyond_match(2) [OF assms off(1), of "length q"] by simp
    ultimately show ?thesis
      using None name_exists_node(1) [OF assms off(2)]
      by (simp add: step resolve_spec_def wildcardResolve_fallback Let_def
          cong: option.case_cong del: upt_Suc)
  next
    case (Some c)
    have at: "node_at r (p @ [l]) = Some c"
      using Cons.prems(2) Some by (simp add: node_at_append)
    note ev = evaluateNode_stored [of "p @ [l]" q r c qt, OF _ at, simplified, OF Cons.prems(1) [simplified]]
    show ?thesis
    proof (cases "is_cut ?m qt ?ls (Suc ?j)")
      case True
      have "find (is_cut ?m qt ?ls) [0..<Suc (length ?ls)] = Some (Suc ?j)"
        using Cons.prems(5) True by (intro find_first_index) auto
      with True Some show ?thesis
        by (simp add: step ev resolve_spec_def Let_def del: upt_Suc)
    next
      case False
      have "\<forall>k \<le> length (p @ [l]). \<not> is_cut ?m qt ((p @ [l]) @ q) k"
        using Cons.prems(5) False by (auto simp: le_Suc_eq)
      from Cons.IH [OF _ at _ _ this, of "it\<lparr>it_cursor := length (dotted q)\<rparr>"] Cons.prems(1,3) False Some
      show ?thesis
        by (auto simp: step ev soa_upto_Suc split: if_splits simp del: upt_Suc)
    qed
  qed
qed

section \<open>Properties\<close>

text \<open>The content of a tree as seen through \<open>Get\<close>.\<close>

definition content :: "Tree \<Rightarrow> string list \<Rightarrow> RRSets option" where
  "content t ls = (if list_all valid_label ls then radix_Get t (dotted ls) else None)"

lemma content_abs_map: "wf_node (root t) \<Longrightarrow> content t = abs_map (root t)"
  using abs_map_valid [of "root t"]
  by (force simp: content_def fun_eq_iff radix_Get_labels labels_dotted)

text \<open>C1: \<open>Resolve\<close> on every tree and every canonical (lower-case, no trailing dot) name gives
  exactly what the stored records say: the referral of the topmost delegation on the way down
  (a DS query at the delegation point itself is answered there); otherwise, when the name or
  anything below it exists, the records of the type asked, an alias, or no data; otherwise the
  records of the wildcard of the deepest ancestor that has one; otherwise a name error.
  Negative answers carry the deepest enclosing SOA and the name it is at.\<close>

theorem Resolve_refines_spec:
  assumes "tree_inv t" and "list_all valid_label ls"
  shows "radix_Resolve t (dotted ls) qt = resolve_spec (content t) ls qt"
proof -
  have wf: "wf_node (root t)" "pruned (root t)" using assms(1) by (auto simp: tree_inv_def)
  let ?m = "abs_map (root t)"
  have soa0: "soa_upto ?m ls 0 = (if stored ?m [] TypeSOA = None then (no_RRSet, ''.'')
      else (the (stored ?m [] TypeSOA), path_name []))"
    by (simp add: soa_upto_def)
  have "find (is_cut ?m qt ls) [0..<Suc (length ls)] = Some 0" if "is_cut ?m qt ls 0"
    using that by (intro find_first_index) auto
  moreover have "resolve_loop (dotted ls) qt (root t) (NewDomainIterator (dotted ls)) None
      (soa_upto ?m ls 0) = resolve_spec ?m ls qt" if "\<not> is_cut ?m qt ls 0"
    using resolve_loop_spec [OF wf, of "[]" ls] assms(2) that
    by (simp add: NewDomainIterator_def wildcard_upto_def)
  ultimately have "radix_Resolve t (dotted ls) qt = resolve_spec ?m ls qt"
    using evaluateNode_stored [of "[]" ls "root t" "root t" qt "(no_RRSet, ''.'')"] assms(2)
    by (auto simp: radix_Resolve_def soa0 resolve_spec_def Let_def simp del: upt_Suc split: if_splits)
  then show ?thesis by (simp add: content_abs_map wf)
qed

definition soa_set :: RRSet where
  "soa_set = \<lparr>RData = [[0, 0, 0, 0, 0, 1]], TTL = 60, rr_Type = TypeSOA, rr_Class = ClassIN\<rparr>"

definition sample_tree :: Tree where
  "sample_tree = run_mutations radix_Upsert radix_DeleteDomain radix_New
     [Upsert ''example.com'' [soa_set], Upsert ''*.example.com'' [a_set],
      Upsert ''a.b.example.com'' [a_set]]"

theorem Resolve_refines_spec_witness:
  "radix_Resolve sample_tree (dotted [''com'', ''example'', ''b'']) TypeA =
     resolve_spec (content sample_tree) [''com'', ''example'', ''b''] TypeA \<and>
   radix_Resolve sample_tree ''b.example.com'' TypeA =
     no_Result\<lparr>Authority := soa_set, AuthorityName := ''example.com''\<rparr>"
proof -
  have "tree_inv sample_tree" unfolding sample_tree_def by (intro rt.invar_run tree_inv_New)
  moreover have "list_all valid_label [''com'', ''example'', ''b'']" by code_simp
  moreover have "radix_Resolve sample_tree ''b.example.com'' TypeA =
     no_Result\<lparr>Authority := soa_set, AuthorityName := ''example.com''\<rparr>" by code_simp
  ultimately show ?thesis using Resolve_refines_spec by blast
qed


end
