(* ===== verification/Cache.thy ===== *)
theory Cache
  imports DnsTypes "HOL-Library.AList"
begin

text \<open>
  \<open>internal/cache/cache.go\<close>: the sharded LRU cache of answers.  A shard is a hash map into an
  intrusive doubly linked list between two sentinels; the list is modelled as the source has
  it, over an explicit heap of entries with \<open>prev\<close> and \<open>next\<close> pointers, and a nil dereference is
  the value \<open>None\<close>.  Every operation is shown to refine the plain least-recently-used list.
\<close>

abbreviation shardCount :: nat where "shardCount \<equiv> 256"

section \<open>Entries and shards\<close>

record Key =
  key_Name :: string
  key_Type :: dns_type

type_synonym address = nat

text \<open>Timestamps are nanoseconds since 1970; the largest TTL is below \<open>2 ^ 32\<close> seconds, so a sum with
  the current time stays within 63 bits until the year 2126.\<close>

record entry =
  e_prev :: "address option"
  e_next :: "address option"
  e_key :: Key
  e_value :: RRSet
  e_expiresAt :: int

definition no_Key :: Key where "no_Key = \<lparr>key_Name = [], key_Type = 0\<rparr>"

definition no_entry :: entry where
  "no_entry = \<lparr>e_prev = None, e_next = None, e_key = no_Key, e_value = no_RRSet, e_expiresAt = 0\<rparr>"

text \<open>\<open>s_fresh\<close> is the next unused address.\<close>

record shard =
  s_items :: "(Key \<times> address) list"
  s_heap :: "address \<Rightarrow> entry"
  s_fresh :: address
  s_head :: address
  s_tail :: address
  s_capacity :: nat

definition new_shard :: "nat \<Rightarrow> shard" where
  "new_shard cap =
     \<lparr>s_items = [], s_heap = ((\<lambda>_. no_entry)(0 := no_entry\<lparr>e_next := Some 1\<rparr>))(1 := no_entry\<lparr>e_prev := Some 0\<rparr>),
      s_fresh = 2, s_head = 0, s_tail = 1, s_capacity = cap\<rparr>"

abbreviation set_next :: "shard \<Rightarrow> address \<Rightarrow> address option \<Rightarrow> shard" where
  "set_next s p q \<equiv> s\<lparr>s_heap := (s_heap s)(p := (s_heap s p)\<lparr>e_next := q\<rparr>)\<rparr>"

abbreviation set_prev :: "shard \<Rightarrow> address \<Rightarrow> address option \<Rightarrow> shard" where
  "set_prev s p q \<equiv> s\<lparr>s_heap := (s_heap s)(p := (s_heap s p)\<lparr>e_prev := q\<rparr>)\<rparr>"

definition shard_remove :: "shard \<Rightarrow> address \<Rightarrow> shard option" where
  "shard_remove s e =
     (case e_prev (s_heap s e) of
        None \<Rightarrow> None
      | Some p \<Rightarrow>
          (let s = set_next s p (e_next (s_heap s e)) in
           case e_next (s_heap s e) of
             None \<Rightarrow> None
           | Some n \<Rightarrow>
               (let s = set_prev s n (e_prev (s_heap s e));
                    s = set_prev s e None
                in Some (set_next s e None))))"

definition pushFront :: "shard \<Rightarrow> address \<Rightarrow> shard option" where
  "pushFront s e =
     (let s = set_next s e (e_next (s_heap s (s_head s)));
          s = set_prev s e (Some (s_head s))
      in case e_next (s_heap s (s_head s)) of
           None \<Rightarrow> None
         | Some n \<Rightarrow>
             (let s = set_prev s n (Some e)
              in Some (set_next s (s_head s) (Some e))))"

text \<open>The part of \<open>Set\<close> and \<open>Get\<close> that moves an entry to the front unless it is there.\<close>

definition promote :: "shard \<Rightarrow> address \<Rightarrow> shard option" where
  "promote s e =
     (if e_next (s_heap s (s_head s)) \<noteq> Some e
      then Option.bind (shard_remove s e) (\<lambda>s. pushFront s e) else Some s)"

definition shard_Set :: "shard \<Rightarrow> Key \<Rightarrow> RRSet \<Rightarrow> int \<Rightarrow> shard option" where
  "shard_Set s key value expiresAt =
     (case map_of (s_items s) key of
        Some e \<Rightarrow>
          promote (s\<lparr>s_heap := (s_heap s)(e := (s_heap s e)\<lparr>e_value := value, e_expiresAt := expiresAt\<rparr>)\<rparr>) e
      | None \<Rightarrow>
          if length (s_items s) \<ge> s_capacity s then
            (case e_prev (s_heap s (s_tail s)) of
               None \<Rightarrow> None
             | Some e \<Rightarrow>
                 Option.bind (shard_remove s e) (\<lambda>s.
                   (let s = s\<lparr>s_items := AList.delete (e_key (s_heap s e)) (s_items s)\<rparr>;
                        s = s\<lparr>s_heap := (s_heap s)(e := (s_heap s e)\<lparr>e_key := key, e_value := value, e_expiresAt := expiresAt\<rparr>)\<rparr>;
                        s = s\<lparr>s_items := AList.update key e (s_items s)\<rparr>
                    in pushFront s e)))
          else
            (let e = s_fresh s;
                 s = s\<lparr>s_fresh := e + 1,
                       s_heap := (s_heap s)(e := no_entry\<lparr>e_key := key, e_value := value, e_expiresAt := expiresAt\<rparr>)\<rparr>;
                 s = s\<lparr>s_items := AList.update key e (s_items s)\<rparr>
             in pushFront s e))"

definition shard_Get :: "shard \<Rightarrow> Key \<Rightarrow> int \<Rightarrow> (RRSet option \<times> shard) option" where
  "shard_Get s key now =
     (case map_of (s_items s) key of
        None \<Rightarrow> Some (None, s)
      | Some e \<Rightarrow>
          if now \<ge> e_expiresAt (s_heap s e) then
            Option.bind (shard_remove s e) (\<lambda>s.
              Some (None, s\<lparr>s_items := AList.delete (e_key (s_heap s e)) (s_items s)\<rparr>))
          else Option.bind (promote s e) (\<lambda>s. Some (Some (e_value (s_heap s e)), s)))"

definition shard_Delete :: "shard \<Rightarrow> Key \<Rightarrow> shard option" where
  "shard_Delete s key =
     (case map_of (s_items s) key of
        None \<Rightarrow> Some s
      | Some e \<Rightarrow>
          Option.bind (shard_remove s e) (\<lambda>s.
            Some (s\<lparr>s_items := AList.delete (e_key (s_heap s e)) (s_items s)\<rparr>)))"

definition shard_Clear :: "shard \<Rightarrow> shard" where
  "shard_Clear s =
     (let s = s\<lparr>s_items := []\<rparr>;
          s = set_next s (s_head s) (Some (s_tail s))
      in set_prev s (s_tail s) (Some (s_head s)))"

section \<open>The cache\<close>

text \<open>\<open>maphash.Comparable\<close> with the seed of the cache is the parameter \<open>hash\<close>.\<close>

record Cache =
  shards :: "shard list"
  hash :: "Key \<Rightarrow> u64"

definition cache_New :: "(Key \<Rightarrow> u64) \<Rightarrow> nat \<Rightarrow> Cache" where
  "cache_New h totalCapacity =
     (let shardCap = max (totalCapacity div shardCount) 1
      in \<lparr>shards = replicate shardCount (new_shard shardCap), hash = h\<rparr>)"

definition getShard :: "Cache \<Rightarrow> Key \<Rightarrow> nat" where
  "getShard c key = unat (hash c key AND 255)"

definition on_shard :: "Cache \<Rightarrow> Key \<Rightarrow> (shard \<Rightarrow> shard option) \<Rightarrow> Cache option" where
  "on_shard c key f =
     map_option (\<lambda>s. c\<lparr>shards := (shards c)[getShard c key := s]\<rparr>) (f (shards c ! getShard c key))"

definition cache_Delete :: "Cache \<Rightarrow> Key \<Rightarrow> Cache option" where
  "cache_Delete c key = on_shard c key (\<lambda>s. shard_Delete s key)"

definition cache_Set :: "Cache \<Rightarrow> Key \<Rightarrow> RRSet \<Rightarrow> int \<Rightarrow> int \<Rightarrow> Cache option" where
  "cache_Set c key value ttl now =
     (if ttl \<le> 0 then cache_Delete c key
      else on_shard c key (\<lambda>s. shard_Set s key value (now + ttl)))"

definition cache_Get :: "Cache \<Rightarrow> Key \<Rightarrow> int \<Rightarrow> (RRSet option \<times> Cache) option" where
  "cache_Get c key now =
     map_option (\<lambda>(r, s). (r, c\<lparr>shards := (shards c)[getShard c key := s]\<rparr>))
       (shard_Get (shards c ! getShard c key) key now)"

definition cache_Clear :: "Cache \<Rightarrow> Cache" where
  "cache_Clear c = c\<lparr>shards := map shard_Clear (shards c)\<rparr>"

definition cache_Len :: "Cache \<Rightarrow> nat" where
  "cache_Len c = sum_list (map (\<lambda>s. length (s_items s)) (shards c))"

section \<open>Linked lists\<close>

fun linked :: "(address \<Rightarrow> entry) \<Rightarrow> address list \<Rightarrow> bool" where
  "linked h (x # y # zs) \<longleftrightarrow> e_next (h x) = Some y \<and> e_prev (h y) = Some x \<and> linked h (y # zs)"
| "linked h _ \<longleftrightarrow> True"

lemma linked_append: "linked h (xs @ a # ys) \<longleftrightarrow> linked h (xs @ [a]) \<and> linked h (a # ys)"
proof (induction xs)
  case (Cons x xs)
  then show ?case by (cases xs) auto
qed simp

lemma linked_cong:
  "(\<And>x. x \<in> set (butlast xs) \<Longrightarrow> e_next (h' x) = e_next (h x)) \<Longrightarrow>
   (\<And>x. x \<in> set (tl xs) \<Longrightarrow> e_prev (h' x) = e_prev (h x)) \<Longrightarrow> linked h' xs = linked h xs"
proof (induction h xs rule: linked.induct)
  case (1 h x y zs)
  have "linked h' (y # zs) = linked h (y # zs)"
    using 1(2,3) by (intro 1(1)) (auto split: if_splits)
  then show ?case using 1(2) [of x] 1(3) [of y] by simp
qed simp_all

text \<open>The entries of a shard in order of use, most recent first, are the chain of addresses \<open>ps\<close>
  between the sentinels.\<close>

abbreviation whole :: "shard \<Rightarrow> address list \<Rightarrow> address list" where
  "whole s ps \<equiv> s_head s # ps @ [s_tail s]"

definition chain :: "shard \<Rightarrow> address list \<Rightarrow> bool" where
  "chain s ps \<longleftrightarrow> distinct (whole s ps) \<and> linked (s_heap s) (whole s ps) \<and> (\<forall>x \<in> set (whole s ps). x < s_fresh s)"

definition payload :: "shard \<Rightarrow> address \<Rightarrow> Key \<times> RRSet \<times> int" where
  "payload s p = (e_key (s_heap s p), e_value (s_heap s p), e_expiresAt (s_heap s p))"

text \<open>Two shards that differ in pointers only.\<close>

definition relinked :: "shard \<Rightarrow> shard \<Rightarrow> bool" where
  "relinked s s' \<longleftrightarrow> (\<forall>x. payload s' x = payload s x) \<and> s_items s' = s_items s \<and> s_fresh s' = s_fresh s \<and>
     s_head s' = s_head s \<and> s_tail s' = s_tail s \<and> s_capacity s' = s_capacity s"

lemma relinked_refl: "relinked s s"
  by (simp add: relinked_def)

lemma relinked_trans: "relinked s t \<Longrightarrow> relinked t u \<Longrightarrow> relinked s u"
  by (simp add: relinked_def)

lemma relinked_key: "relinked s s' \<Longrightarrow> e_key (s_heap s' x) = e_key (s_heap s x)"
  by (simp add: relinked_def payload_def)

lemma whole_split: "\<exists>xs a b ys. whole s (as @ p # bs) = xs @ a # p # b # ys \<and> whole s (as @ bs) = xs @ a # b # ys"
proof -
  obtain xs a where xs: "s_head s # as = xs @ [a]" by (metis list.distinct(1) rev_exhaust)
  obtain b ys where ys: "bs @ [s_tail s] = b # ys" by (cases bs) auto
  have "whole s (as @ p # bs) = (s_head s # as) @ p # bs @ [s_tail s]" "whole s (as @ bs) = (s_head s # as) @ bs @ [s_tail s]"
    by simp_all
  then show ?thesis unfolding xs ys by auto
qed

lemma unlink:
  assumes "linked h (xs @ a # p # b # ys)" and "distinct (xs @ a # p # b # ys)"
    and "\<And>x. x \<noteq> a \<Longrightarrow> x \<noteq> p \<Longrightarrow> e_next (h' x) = e_next (h x)" and "\<And>x. x \<noteq> b \<Longrightarrow> x \<noteq> p \<Longrightarrow> e_prev (h' x) = e_prev (h x)"
    and "e_next (h' a) = Some b" and "e_prev (h' b) = Some a"
  shows "linked h' (xs @ a # b # ys)"
proof -
  have l: "linked h (xs @ [a])" "linked h (b # ys)"
    using assms(1) linked_append [of h xs a "p # b # ys"] linked_append [of h "[p]" b ys] by simp_all
  have "linked h' (xs @ [a]) = linked h (xs @ [a])"
  proof (rule linked_cong)
    fix x assume "x \<in> set (butlast (xs @ [a]))"
    then have "x \<noteq> a" "x \<noteq> p" using assms(2) by auto
    then show "e_next (h' x) = e_next (h x)" by (rule assms(3))
  next
    fix x assume "x \<in> set (tl (xs @ [a]))"
    then have "x \<in> set (xs @ [a])" by (cases xs) auto
    then have "x \<noteq> b" "x \<noteq> p" using assms(2) by auto
    then show "e_prev (h' x) = e_prev (h x)" by (rule assms(4))
  qed
  moreover have "linked h' (b # ys) = linked h (b # ys)"
  proof (rule linked_cong)
    fix x assume "x \<in> set (butlast (b # ys))"
    then have "x \<in> set (b # ys)" by (rule in_set_butlastD)
    then have "x \<noteq> a" "x \<noteq> p" using assms(2) by auto
    then show "e_next (h' x) = e_next (h x)" by (rule assms(3))
  next
    fix x assume "x \<in> set (tl (b # ys))"
    then have "x \<noteq> b" "x \<noteq> p" using assms(2) by auto
    then show "e_prev (h' x) = e_prev (h x)" by (rule assms(4))
  qed
  ultimately show ?thesis
    using l assms(5,6) linked_append [of h' xs a "b # ys"] by simp
qed

lemma remove_chain:
  assumes "chain s (as @ p # bs)"
  shows "\<exists>s'. shard_remove s p = Some s' \<and> chain s' (as @ bs) \<and> relinked s s'"
proof -
  let ?h = "s_heap s"
  obtain xs a b ys where w: "whole s (as @ p # bs) = xs @ a # p # b # ys" "whole s (as @ bs) = xs @ a # b # ys"
    using whole_split by blast
  have l: "linked ?h (xs @ a # p # b # ys)" and d: "distinct (xs @ a # p # b # ys)"
    and f: "\<forall>x \<in> set (xs @ a # p # b # ys). x < s_fresh s"
    using assms unfolding chain_def w by blast+
  have pn: "e_prev (?h p) = Some a" "e_next (?h p) = Some b"
    using l linked_append [of ?h xs a "p # b # ys"] by simp_all
  have ne: "a \<noteq> p" "b \<noteq> p" "a \<noteq> b" using d by auto
  define h' where "h' = ?h(a := (?h a)\<lparr>e_next := Some b\<rparr>, b := (?h b)\<lparr>e_prev := Some a\<rparr>, p := (?h p)\<lparr>e_prev := None, e_next := None\<rparr>)"
  have r: "shard_remove s p = Some (s\<lparr>s_heap := h'\<rparr>)"
    using pn ne by (simp add: shard_remove_def Let_def h'_def)
  have "linked h' (xs @ a # b # ys)"
    by (rule unlink [OF l d]) (use ne in \<open>simp_all add: h'_def\<close>)
  moreover have "whole (s\<lparr>s_heap := h'\<rparr>) (as @ bs) = xs @ a # b # ys" using w(2) by simp
  ultimately have "chain (s\<lparr>s_heap := h'\<rparr>) (as @ bs)"
    using d f unfolding chain_def by auto
  moreover have "relinked s (s\<lparr>s_heap := h'\<rparr>)"
    by (simp add: relinked_def payload_def h'_def)
  ultimately show ?thesis using r by blast
qed

lemma pushFront_chain:
  assumes "chain s ps" and "p \<notin> set (whole s ps)" and "p < s_fresh s"
  shows "\<exists>s'. pushFront s p = Some s' \<and> chain s' (p # ps) \<and> relinked s s'"
proof -
  let ?h = "s_heap s" and ?a = "s_head s"
  obtain b ys where w: "ps @ [s_tail s] = b # ys" by (cases ps) auto
  have l: "linked ?h (?a # b # ys)" and d: "distinct (?a # b # ys)" and f: "\<forall>x \<in> set (?a # b # ys). x < s_fresh s"
    using assms(1) unfolding chain_def w by blast+
  have ne: "p \<noteq> ?a" "p \<noteq> b" "p \<notin> set ys" "?a \<noteq> b" using assms(2) d by (simp_all add: w)
  define h' where "h' = ?h(p := (?h p)\<lparr>e_next := Some b, e_prev := Some ?a\<rparr>, b := (?h b)\<lparr>e_prev := Some p\<rparr>, ?a := (?h ?a)\<lparr>e_next := Some p\<rparr>)"
  have r: "pushFront s p = Some (s\<lparr>s_heap := h'\<rparr>)"
    using l ne by (simp add: pushFront_def Let_def h'_def)
  have "linked h' (b # ys) = linked ?h (b # ys)"
    using d ne by (intro linked_cong) (auto simp: h'_def dest: in_set_butlastD split: if_splits)
  then have "linked h' (?a # p # b # ys)" using l ne by (simp add: h'_def)
  then have "chain (s\<lparr>s_heap := h'\<rparr>) (p # ps)"
    using d f ne assms(3) by (simp add: chain_def w)
  moreover have "relinked s (s\<lparr>s_heap := h'\<rparr>)"
    by (simp add: relinked_def payload_def h'_def)
  ultimately show ?thesis using r by blast
qed

lemma promote_chain:
  assumes "chain s (as @ p # bs)"
  shows "\<exists>s'. promote s p = Some s' \<and> chain s' (p # as @ bs) \<and> relinked s s'"
proof (cases as)
  case Nil
  then have "e_next (s_heap s (s_head s)) = Some p" using assms by (simp add: chain_def)
  with Nil assms show ?thesis by (auto simp: promote_def relinked_refl)
next
  case (Cons q as')
  then have n: "e_next (s_heap s (s_head s)) \<noteq> Some p" using assms by (auto simp: chain_def)
  from remove_chain [OF assms] obtain s1 where 1: "shard_remove s p = Some s1" "chain s1 (as @ bs)" "relinked s s1" by blast
  have "p \<notin> set (whole s1 (as @ bs))" "p < s_fresh s1"
    using assms 1(3) by (auto simp: chain_def relinked_def)
  from pushFront_chain [OF 1(2) this] obtain s2 where "pushFront s1 p = Some s2" "chain s2 (p # as @ bs)" "relinked s1 s2" by blast
  with n 1 relinked_trans show ?thesis by (auto simp: promote_def)
qed

section \<open>The least-recently-used list\<close>

text \<open>What a shard promises: a list of keys with value and expiry, most recently used first.\<close>

type_synonym lru = "(Key \<times> RRSet \<times> int) list"

definition lru_del :: "Key \<Rightarrow> lru \<Rightarrow> lru" where
  "lru_del k l = filter (\<lambda>x. fst x \<noteq> k) l"

definition lru_set :: "nat \<Rightarrow> Key \<Rightarrow> RRSet \<Rightarrow> int \<Rightarrow> lru \<Rightarrow> lru" where
  "lru_set cap k v e l =
     (if k \<in> fst ` set l then (k, v, e) # lru_del k l
      else if length l \<ge> cap then (k, v, e) # butlast l
      else (k, v, e) # l)"

definition lru_get :: "Key \<Rightarrow> int \<Rightarrow> lru \<Rightarrow> RRSet option \<times> lru" where
  "lru_get k now l =
     (case map_of l k of
        None \<Rightarrow> (None, l)
      | Some (v, e) \<Rightarrow> if now \<ge> e then (None, lru_del k l) else (Some v, (k, v, e) # lru_del k l))"

definition indexed :: "shard \<Rightarrow> address list \<Rightarrow> bool" where
  "indexed s ps \<longleftrightarrow> distinct (map fst (s_items s)) \<and> distinct (map (fst \<circ> payload s) ps) \<and>
     (\<forall>k p. (k, p) \<in> set (s_items s) \<longleftrightarrow> p \<in> set ps \<and> fst (payload s p) = k)"

definition rep :: "shard \<Rightarrow> lru \<Rightarrow> bool" where
  "rep s l \<longleftrightarrow> (\<exists>ps. chain s ps \<and> indexed s ps \<and> l = map (payload s) ps)"

lemma fst_payload [simp]: "fst (payload s p) = e_key (s_heap s p)"
  by (simp add: payload_def)

lemma map_payload_relinked: "relinked s s' \<Longrightarrow> map (payload s') ps = map (payload s) ps"
  by (simp add: relinked_def)

lemma indexed_lookup: "indexed s ps \<Longrightarrow> map_of (s_items s) k = Some p \<longleftrightarrow> p \<in> set ps \<and> e_key (s_heap s p) = k"
  by (simp add: indexed_def map_of_eq_Some_iff)

lemma indexed_None: "indexed s ps \<Longrightarrow> map_of (s_items s) k = None \<longleftrightarrow> k \<notin> fst ` set (map (payload s) ps)"
proof -
  assume i: "indexed s ps"
  have "map_of (s_items s) k = None \<longleftrightarrow> (\<forall>p. map_of (s_items s) k \<noteq> Some p)" by simp
  also have "\<dots> \<longleftrightarrow> k \<notin> (\<lambda>p. e_key (s_heap s p)) ` set ps" unfolding indexed_lookup [OF i] by blast
  finally show ?thesis by (simp add: image_image)
qed

lemma indexed_length: "indexed s ps \<Longrightarrow> length (s_items s) = length ps"
proof -
  assume i: "indexed s ps"
  have "set (s_items s) = (\<lambda>p. (e_key (s_heap s p), p)) ` set ps" using i by (auto simp: indexed_def)
  then have "fst ` set (s_items s) = (fst \<circ> payload s) ` set ps" by (simp add: image_image)
  moreover have "distinct (map fst (s_items s))" "distinct (map (fst \<circ> payload s) ps)" using i by (simp_all add: indexed_def)
  ultimately show ?thesis by (metis distinct_card length_map list.set_map)
qed

lemma indexed_others:
  assumes "indexed s (as @ p # bs)" and "q \<in> set as \<union> set bs"
  shows "e_key (s_heap s q) \<noteq> e_key (s_heap s p)"
  using assms(2) assms(1) [unfolded indexed_def, THEN conjunct2, THEN conjunct1]
  by (fastforce simp: image_iff)

lemma lru_del_payload:
  assumes "indexed s (as @ p # bs)"
  shows "lru_del (e_key (s_heap s p)) (map (payload s) (as @ p # bs)) = map (payload s) (as @ bs)"
    and "map_of (map (payload s) (as @ p # bs)) (e_key (s_heap s p)) = Some (e_value (s_heap s p), e_expiresAt (s_heap s p))"
proof -
  have d: "e_key (s_heap s q) \<noteq> e_key (s_heap s p)" if "q \<in> set as \<union> set bs" for q
    using indexed_others [OF assms that] .
  have f: "filter (\<lambda>x. fst x \<noteq> e_key (s_heap s p)) (map (payload s) qs) = map (payload s) qs"
    if "set qs \<subseteq> set as \<union> set bs" for qs
    using d that by (auto simp: filter_map comp_def intro!: arg_cong [where f = "map _"] filter_True)
  show "lru_del (e_key (s_heap s p)) (map (payload s) (as @ p # bs)) = map (payload s) (as @ bs)"
    using f [of as] f [of bs] by (simp add: lru_del_def)
  have "map_of (map (payload s) as) (e_key (s_heap s p)) = None"
  proof -
    have "e_key (s_heap s p) \<notin> (\<lambda>q. e_key (s_heap s q)) ` set as"
    proof
      assume "e_key (s_heap s p) \<in> (\<lambda>q. e_key (s_heap s q)) ` set as"
      then obtain q where "q \<in> set as" "e_key (s_heap s q) = e_key (s_heap s p)" by auto
      with d [of q] show False by simp
    qed
    then show ?thesis by (simp add: map_of_eq_None_iff image_image)
  qed
  then show "map_of (map (payload s) (as @ p # bs)) (e_key (s_heap s p)) = Some (e_value (s_heap s p), e_expiresAt (s_heap s p))"
    by (simp add: map_add_def payload_def)
qed

lemma indexed_relinked:
  assumes "indexed s ps" and "relinked s s'" and "set ps' = set ps" and "distinct ps'"
  shows "indexed s' ps'"
proof -
  have "inj_on (fst \<circ> payload s) (set ps)" using assms(1) by (simp add: indexed_def distinct_map)
  then have "distinct (map (fst \<circ> payload s') ps')"
    using assms(2-4) by (simp add: distinct_map relinked_def comp_def)
  with assms show ?thesis by (auto simp: indexed_def relinked_def)
qed

lemma indexed_delete:
  assumes "indexed s (as @ p # bs)" and "relinked s s'"
  shows "indexed (s'\<lparr>s_items := AList.delete (e_key (s_heap s' p)) (s_items s')\<rparr>) (as @ bs)"
proof -
  let ?s = "s'\<lparr>s_items := AList.delete (e_key (s_heap s' p)) (s_items s')\<rparr>"
  have c: "payload ?s x = payload s x" for x using assms(2) by (simp add: relinked_def payload_def)
  have i: "s_items s' = s_items s" "e_key (s_heap s' p) = e_key (s_heap s p)"
    using assms(2) relinked_key by (auto simp: relinked_def)
  have mem: "(k, q) \<in> set (AList.delete x xs) \<longleftrightarrow> (k, q) \<in> set xs \<and> k \<noteq> x" for k q x and xs :: "(Key \<times> address) list"
    by (auto simp: AList.delete_eq)
  have o: "e_key (s_heap s q) \<noteq> e_key (s_heap s p)" if "q \<in> set as \<union> set bs" for q
    by (rule indexed_others [OF assms(1) that])
  have old: "(k, q) \<in> set (s_items s) \<longleftrightarrow> q \<in> set (as @ p # bs) \<and> e_key (s_heap s q) = k" for k q
    using assms(1) by (simp add: indexed_def)
  have "distinct (map fst (s_items ?s))" using assms(1) by (simp add: i indexed_def distinct_delete)
  moreover have "distinct (map (fst \<circ> payload ?s) (as @ bs))"
    using assms(1) by (simp add: c comp_def indexed_def)
  moreover have "(k, q) \<in> set (s_items ?s) \<longleftrightarrow> q \<in> set (as @ bs) \<and> fst (payload ?s q) = k" for k q
  proof -
    have "(k, q) \<in> set (s_items ?s) \<longleftrightarrow> (k, q) \<in> set (s_items s) \<and> k \<noteq> e_key (s_heap s p)"
      by (simp add: mem i)
    also have "\<dots> \<longleftrightarrow> q \<in> set (as @ bs) \<and> e_key (s_heap s q) = k" using o unfolding old by auto
    finally show ?thesis by (simp only: c fst_payload)
  qed
  ultimately show ?thesis unfolding indexed_def by blast
qed

lemma rep_remove:
  assumes "chain s (as @ p # bs)" and "indexed s (as @ p # bs)"
  shows "\<exists>s'. Option.bind (shard_remove s p) (\<lambda>s. Some (s\<lparr>s_items := AList.delete (e_key (s_heap s p)) (s_items s)\<rparr>)) = Some s' \<and>
    chain s' (as @ bs) \<and> indexed s' (as @ bs) \<and> (\<forall>x. payload s' x = payload s x) \<and> s_capacity s' = s_capacity s \<and>
    p \<notin> set (whole s' (as @ bs)) \<and> p < s_fresh s'"
proof -
  from remove_chain [OF assms(1)] obtain s1 where 1: "shard_remove s p = Some s1" "chain s1 (as @ bs)" "relinked s s1" by blast
  let ?s = "s1\<lparr>s_items := AList.delete (e_key (s_heap s1 p)) (s_items s1)\<rparr>"
  have "chain ?s (as @ bs)" using 1(2) by (simp add: chain_def)
  moreover have "\<forall>x. payload ?s x = payload s x" "s_capacity ?s = s_capacity s"
    using 1(3) by (simp_all add: relinked_def payload_def)
  moreover have "p \<notin> set (whole ?s (as @ bs)) \<and> p < s_fresh ?s"
    using assms(1) 1(3) by (auto simp: chain_def relinked_def)
  ultimately show ?thesis using 1 indexed_delete [OF assms(2) 1(3)] by auto
qed

lemma update_new_mem:
  "map_of xs k = None \<Longrightarrow> y \<in> set (AList.update k v xs) \<longleftrightarrow> y = (k, v) \<or> y \<in> set xs"
  by (induction xs) (auto split: if_splits)

lemma chain_heap:
  assumes "chain s ps" and "\<And>x. x \<in> set (whole s ps) \<Longrightarrow> e_next (h x) = e_next (s_heap s x) \<and> e_prev (h x) = e_prev (s_heap s x)"
  shows "chain (s\<lparr>s_heap := h, s_items := it\<rparr>) ps"
proof -
  have "linked h (whole s ps) = linked (s_heap s) (whole s ps)"
    using assms(2) by (intro linked_cong) (auto dest: in_set_butlastD)
  then show ?thesis using assms(1) by (simp add: chain_def)
qed

lemma rep_insert:
  assumes c: "chain s ps" and i: "indexed s ps" and p: "p \<notin> set (whole s ps)" "p < s_fresh s"
    and k: "k \<notin> fst ` set (map (payload s) ps)" and x: "e_key x = k"
  shows "\<exists>s'. pushFront (s\<lparr>s_heap := (s_heap s)(p := x), s_items := AList.update k p (s_items s)\<rparr>) p = Some s' \<and>
    rep s' ((k, e_value x, e_expiresAt x) # map (payload s) ps) \<and> s_capacity s' = s_capacity s"
proof -
  let ?s = "s\<lparr>s_heap := (s_heap s)(p := x), s_items := AList.update k p (s_items s)\<rparr>"
  have c1: "chain ?s ps" using c p(1) by (intro chain_heap) auto
  have "p \<notin> set (whole ?s ps)" "p < s_fresh ?s" using p by simp_all
  from pushFront_chain [OF c1 this] obtain s' where s': "pushFront ?s p = Some s'" "chain s' (p # ps)" "relinked ?s s'" by blast
  have cp: "payload ?s p = (k, e_value x, e_expiresAt x)" using x by (simp add: payload_def)
  have cq: "payload ?s q = payload s q" if "q \<noteq> p" for q using that by (simp add: payload_def)
  have ps: "p \<notin> set ps" using p(1) by simp
  have kn: "map_of (s_items s) k = None" using indexed_None [OF i] k by simp
  have old: "(k', q) \<in> set (s_items s) \<longleftrightarrow> q \<in> set ps \<and> e_key (s_heap s q) = k'" for k' q
    using i by (simp add: indexed_def)
  have "distinct (map fst (s_items ?s))" using i by (simp add: indexed_def distinct_update)
  moreover have m: "map (payload ?s) ps = map (payload s) ps"
  proof (rule map_cong [OF refl])
    fix q assume "q \<in> set ps"
    then have "q \<noteq> p" using ps by auto
    then show "payload ?s q = payload s q" by (rule cq)
  qed
  then have "map (fst \<circ> payload ?s) (p # ps) = k # map (fst \<circ> payload s) ps"
    using cp by (simp only: list.map map_map [symmetric] comp_apply fst_conv)
  then have "distinct (map (fst \<circ> payload ?s) (p # ps))"
    using i k by (simp only: distinct.simps) (auto simp: indexed_def image_image)
  moreover have "(k', q) \<in> set (s_items ?s) \<longleftrightarrow> q \<in> set (p # ps) \<and> fst (payload ?s q) = k'" for k' q
  proof -
    have "(k', q) \<in> set (s_items ?s) \<longleftrightarrow> (k' = k \<and> q = p) \<or> (k', q) \<in> set (s_items s)"
      using kn by (simp add: update_new_mem)
    also have "\<dots> \<longleftrightarrow> q \<in> set (p # ps) \<and> fst (payload ?s q) = k'"
      using ps cp cq [of q] unfolding old by (cases "q = p") auto
    finally show ?thesis .
  qed
  ultimately have "indexed ?s (p # ps)" unfolding indexed_def by blast
  moreover have "distinct (p # ps)" using c ps by (simp add: chain_def)
  ultimately have "indexed s' (p # ps)" using indexed_relinked [OF _ s'(3)] by blast
  moreover have "map (payload s') (p # ps) = (k, e_value x, e_expiresAt x) # map (payload s) ps"
    using map_payload_relinked [OF s'(3), of "p # ps"] cp m by simp
  ultimately have "rep s' ((k, e_value x, e_expiresAt x) # map (payload s) ps)"
    using s'(2) unfolding rep_def by metis
  with s' show ?thesis by (auto simp: relinked_def)
qed

lemma rep_promote:
  assumes "chain s (as @ p # bs)" and "indexed s (as @ p # bs)"
  shows "\<exists>s'. promote s p = Some s' \<and> rep s' (payload s p # lru_del (e_key (s_heap s p)) (map (payload s) (as @ p # bs))) \<and>
    s_capacity s' = s_capacity s \<and> payload s' p = payload s p"
proof -
  from promote_chain [OF assms(1)] obtain s' where s': "promote s p = Some s'" "chain s' (p # as @ bs)" "relinked s s'" by blast
  have "distinct (p # as @ bs)" using s'(2) by (auto simp: chain_def)
  then have "indexed s' (p # as @ bs)" using indexed_relinked [OF assms(2) s'(3)] by auto
  moreover have "map (payload s') (p # as @ bs) = payload s p # map (payload s) (as @ bs)"
    using map_payload_relinked [OF s'(3), of "p # as @ bs"] by simp
  ultimately have "rep s' (payload s p # map (payload s) (as @ bs))"
    using s'(2) unfolding rep_def by metis
  with s' show ?thesis unfolding lru_del_payload(1) [OF assms(2)] by (auto simp: relinked_def)
qed

lemma rep_Delete:
  assumes "rep s l"
  shows "\<exists>s'. shard_Delete s k = Some s' \<and> rep s' (lru_del k l) \<and> s_capacity s' = s_capacity s"
proof -
  from assms obtain ps where c: "chain s ps" and i: "indexed s ps" and l: "l = map (payload s) ps" by (auto simp: rep_def)
  show ?thesis
  proof (cases "map_of (s_items s) k")
    case None
    then have "lru_del k l = l" using indexed_None [OF i] by (auto simp: lru_del_def l filter_id_conv image_image)
    with None assms show ?thesis by (simp add: shard_Delete_def)
  next
    case (Some p)
    then obtain as bs where ps: "ps = as @ p # bs" and k: "e_key (s_heap s p) = k"
      using indexed_lookup [OF i] by (metis split_list)
    from rep_remove [OF c [unfolded ps] i [unfolded ps]] obtain s' where
      "shard_Delete s k = Some s'" "chain s' (as @ bs)" "indexed s' (as @ bs)" "\<forall>x. payload s' x = payload s x" "s_capacity s' = s_capacity s"
      by (auto simp: shard_Delete_def Some)
    moreover from this have "map (payload s') (as @ bs) = lru_del k l"
      using lru_del_payload(1) [OF i [unfolded ps]] by (simp add: l ps k)
    ultimately show ?thesis unfolding rep_def by metis
  qed
qed

lemma rep_Get:
  assumes "rep s l"
  shows "\<exists>s'. shard_Get s k now = Some (fst (lru_get k now l), s') \<and> rep s' (snd (lru_get k now l)) \<and> s_capacity s' = s_capacity s"
proof -
  from assms obtain ps where c: "chain s ps" and i: "indexed s ps" and l: "l = map (payload s) ps" by (auto simp: rep_def)
  show ?thesis
  proof (cases "map_of (s_items s) k")
    case None
    then have "map_of l k = None" using indexed_None [OF i] by (simp add: l map_of_eq_None_iff)
    with None assms show ?thesis by (simp add: shard_Get_def lru_get_def)
  next
    case (Some p)
    then obtain as bs where ps: "ps = as @ p # bs" and k: "e_key (s_heap s p) = k"
      using indexed_lookup [OF i] by (metis split_list)
    note c = c [unfolded ps] and i = i [unfolded ps]
    have m: "map_of l k = Some (e_value (s_heap s p), e_expiresAt (s_heap s p))"
      using lru_del_payload(2) [OF i] unfolding l ps k .
    show ?thesis
    proof (cases "now \<ge> e_expiresAt (s_heap s p)")
      case True
      from rep_remove [OF c i] obtain s1 where 1: "shard_remove s p = Some s1" by (auto simp: Option.bind_eq_Some_conv)
      from rep_Delete [OF assms, of k] obtain s' where "shard_Delete s k = Some s'" "rep s' (lru_del k l)" "s_capacity s' = s_capacity s" by blast
      with True Some m 1 show ?thesis by (simp add: shard_Get_def shard_Delete_def lru_get_def)
    next
      case False
      from rep_promote [OF c i] obtain s' where
        "promote s p = Some s'" "rep s' (payload s p # lru_del k l)" "s_capacity s' = s_capacity s" "payload s' p = payload s p"
        unfolding k l ps by blast
      with False Some m k show ?thesis by (simp add: shard_Get_def lru_get_def payload_def)
    qed
  qed
qed

lemma rep_Clear:
  assumes "rep s l"
  shows "rep (shard_Clear s) [] \<and> s_capacity (shard_Clear s) = s_capacity s"
proof -
  from assms obtain ps where "chain s ps" by (auto simp: rep_def)
  then have "chain (shard_Clear s) []" "indexed (shard_Clear s) []"
    by (auto simp: chain_def shard_Clear_def Let_def indexed_def)
  then show ?thesis by (auto simp: rep_def shard_Clear_def Let_def)
qed

lemma rep_new: "rep (new_shard cap) []"
  by (auto simp: rep_def chain_def indexed_def new_shard_def intro!: exI [of _ "[]"])

lemma rep_Set_old:
  assumes c: "chain s (as @ p # bs)" and i: "indexed s (as @ p # bs)" and k: "e_key (s_heap s p) = k"
  shows "\<exists>s'. promote (s\<lparr>s_heap := (s_heap s)(p := (s_heap s p)\<lparr>e_value := v, e_expiresAt := e\<rparr>)\<rparr>) p = Some s' \<and>
    rep s' ((k, v, e) # lru_del k (map (payload s) (as @ p # bs))) \<and> s_capacity s' = s_capacity s"
proof -
  let ?s = "s\<lparr>s_heap := (s_heap s)(p := (s_heap s p)\<lparr>e_value := v, e_expiresAt := e\<rparr>)\<rparr>"
  have "chain (s\<lparr>s_heap := s_heap ?s, s_items := s_items s\<rparr>) (as @ p # bs)" by (rule chain_heap [OF c]) auto
  then have c1: "chain ?s (as @ p # bs)" by simp
  have key: "e_key (s_heap ?s q) = e_key (s_heap s q)" for q by simp
  then have "fst \<circ> payload ?s = fst \<circ> payload s" by (simp add: fun_eq_iff)
  then have i1: "indexed ?s (as @ p # bs)" using i by (simp add: indexed_def)
  have cp: "payload ?s p = (k, v, e)" using k by (simp add: payload_def)
  have "p \<notin> set as \<union> set bs" using c by (auto simp: chain_def)
  then have m: "map (payload ?s) (as @ bs) = map (payload s) (as @ bs)" by (auto simp: payload_def)
  from rep_promote [OF c1 i1] obtain s' where "promote ?s p = Some s'"
    "rep s' (payload ?s p # lru_del (e_key (s_heap ?s p)) (map (payload ?s) (as @ p # bs)))" "s_capacity s' = s_capacity ?s" by blast
  then show ?thesis
    unfolding lru_del_payload(1) [OF i1] m lru_del_payload(1) [OF i, symmetric] cp k by auto
qed

lemma rep_Set:
  assumes "rep s l" and "1 \<le> s_capacity s"
  shows "\<exists>s'. shard_Set s k v e = Some s' \<and> rep s' (lru_set (s_capacity s) k v e l) \<and> s_capacity s' = s_capacity s"
proof -
  from assms obtain ps where c: "chain s ps" and i: "indexed s ps" and l: "l = map (payload s) ps" by (auto simp: rep_def)
  have len: "length (s_items s) = length l" using indexed_length [OF i] by (simp add: l)
  show ?thesis
  proof (cases "map_of (s_items s) k")
    case (Some p)
    then have kl: "k \<in> fst ` set l" using indexed_None [OF i, of k] by (auto simp: l)
    from Some obtain as bs where ps: "ps = as @ p # bs" and k: "e_key (s_heap s p) = k"
      using indexed_lookup [OF i] by (metis split_list)
    from rep_Set_old [OF c [unfolded ps] i [unfolded ps] k] kl Some show ?thesis
      by (simp add: shard_Set_def lru_set_def l ps)
  next
    case None
    then have kl: "k \<notin> fst ` set l" using indexed_None [OF i] by (simp add: l)
    show ?thesis
    proof (cases "length l \<ge> s_capacity s")
      case True
      with assms(2) have "ps \<noteq> []" by (auto simp: l)
      then obtain as p where ps: "ps = as @ [p]" by (metis rev_exhaust)
      have t: "e_prev (s_heap s (s_tail s)) = Some p"
        using c linked_append [of "s_heap s" "s_head s # as" p "[s_tail s]"] by (simp add: chain_def ps)
      from rep_remove [OF c [unfolded ps] i [unfolded ps]] obtain s1 s2 where
        1: "shard_remove s p = Some s1" "s2 = s1\<lparr>s_items := AList.delete (e_key (s_heap s1 p)) (s_items s1)\<rparr>"
        and 2: "chain s2 as" "indexed s2 as" "\<And>x. payload s2 x = payload s x" "s_capacity s2 = s_capacity s"
          "p \<notin> set (whole s2 as)" "p < s_fresh s2"
        by (auto simp: Option.bind_eq_Some_conv)
      have m: "map (payload s2) as = butlast l" using 2(3) by (simp add: l ps)
      then have "k \<notin> fst ` set (map (payload s2) as)" using kl by (auto dest: in_set_butlastD)
      from rep_insert [OF 2(1,2,5,6) this, of "(s_heap s2 p)\<lparr>e_key := k, e_value := v, e_expiresAt := e\<rparr>"]
      obtain s' where "pushFront (s2\<lparr>s_heap := (s_heap s2)(p := (s_heap s2 p)\<lparr>e_key := k, e_value := v, e_expiresAt := e\<rparr>),
          s_items := AList.update k p (s_items s2)\<rparr>) p = Some s'" "rep s' ((k, v, e) # butlast l)" "s_capacity s' = s_capacity s2"
        unfolding m by auto
      with True None t 1 2(4) kl len show ?thesis by (simp add: shard_Set_def lru_set_def Let_def)
    next
      case False
      let ?s = "s\<lparr>s_fresh := s_fresh s + 1\<rparr>"
      have c1: "chain ?s ps" using c by (auto simp: chain_def)
      have i1: "indexed ?s ps" using i by (simp add: indexed_def payload_def comp_def)
      have ct: "payload ?s = payload s" by (simp add: payload_def fun_eq_iff)
      have "s_fresh s \<notin> set (whole ?s ps)" "s_fresh s < s_fresh ?s" using c by (auto simp: chain_def)
      from rep_insert [OF c1 i1 this, of k "no_entry\<lparr>e_key := k, e_value := v, e_expiresAt := e\<rparr>"] kl
      obtain s' where "pushFront (?s\<lparr>s_heap := (s_heap s)(s_fresh s := no_entry\<lparr>e_key := k, e_value := v, e_expiresAt := e\<rparr>),
          s_items := AList.update k (s_fresh s) (s_items s)\<rparr>) (s_fresh s) = Some s'" "rep s' ((k, v, e) # l)" "s_capacity s' = s_capacity s"
        unfolding ct by (auto simp: l)
      with False None kl len show ?thesis by (simp add: shard_Set_def lru_set_def Let_def)
    qed
  qed
qed

lemma rep_length: "rep s l \<Longrightarrow> length (s_items s) = length l"
  using indexed_length by (auto simp: rep_def)

section \<open>The whole cache\<close>

text \<open>What the resolver relies on: an answer comes out of the cache only under the key it was put
  under, operations do not fail, and a cleared cache holds nothing.\<close>

locale answer_cache =
  fixes get :: "'c \<Rightarrow> Key \<Rightarrow> int \<Rightarrow> (RRSet option \<times> 'c) option"
    and put :: "'c \<Rightarrow> Key \<Rightarrow> RRSet \<Rightarrow> int \<Rightarrow> int \<Rightarrow> 'c option"
    and clear :: "'c \<Rightarrow> 'c"
    and invar :: "'c \<Rightarrow> bool"
    and holds :: "'c \<Rightarrow> Key \<Rightarrow> RRSet \<Rightarrow> bool"
  assumes get_ok: "invar c \<Longrightarrow> \<exists>r c'. get c k now = Some (r, c') \<and> invar c' \<and>
      (\<forall>v. r = Some v \<longrightarrow> holds c k v) \<and> (\<forall>k' v. holds c' k' v \<longrightarrow> holds c k' v)"
    and put_ok: "invar c \<Longrightarrow> \<exists>c'. put c k v ttl now = Some c' \<and> invar c' \<and>
      (\<forall>k' w. holds c' k' w \<longrightarrow> holds c k' w \<or> k' = k \<and> w = v)"
    and clear_ok: "invar c \<Longrightarrow> invar (clear c) \<and> \<not> holds (clear c) k v"
begin

text \<open>A cache is coherent with a function when it holds only values of it.\<close>

definition coherent :: "(Key \<Rightarrow> RRSet option) \<Rightarrow> 'c \<Rightarrow> bool" where
  "coherent f c \<longleftrightarrow> invar c \<and> (\<forall>k v. holds c k v \<longrightarrow> f k = Some v)"

lemma coherent_get:
  assumes "coherent f c"
  shows "\<exists>r c'. get c k now = Some (r, c') \<and> coherent f c' \<and> (\<forall>v. r = Some v \<longrightarrow> f k = Some v)"
  using assms get_ok [of c k now] unfolding coherent_def by metis

lemma coherent_put:
  assumes "coherent f c" and "f k = Some v"
  shows "\<exists>c'. put c k v ttl now = Some c' \<and> coherent f c'"
  using assms put_ok [of c k v ttl now] unfolding coherent_def by metis

lemma coherent_clear: "invar c \<Longrightarrow> coherent f (clear c)"
  using clear_ok by (simp add: coherent_def)

end

definition cache_inv :: "nat \<Rightarrow> Cache \<Rightarrow> bool" where
  "cache_inv cap c \<longleftrightarrow> 1 \<le> cap \<and> length (shards c) = shardCount \<and>
     (\<forall>s \<in> set (shards c). s_capacity s = cap \<and> (\<exists>l. rep s l \<and> length l \<le> cap))"

definition cache_holds :: "Cache \<Rightarrow> Key \<Rightarrow> RRSet \<Rightarrow> bool" where
  "cache_holds c k v \<longleftrightarrow>
     (\<exists>(k', p) \<in> set (s_items (shards c ! getShard c k)). k' = k \<and> e_value (s_heap (shards c ! getShard c k) p) = v)"

lemma getShard_less: "getShard c k < shardCount"
proof -
  have "hash c k AND 255 \<le> 255" by (rule word_and_le1)
  then show ?thesis by (simp add: getShard_def word_le_nat_alt)
qed

lemma getShard_update [simp]: "getShard (c\<lparr>shards := ss\<rparr>) k = getShard c k"
  by (simp add: getShard_def)

lemma rep_holds:
  assumes "rep (shards c ! getShard c k) l"
  shows "cache_holds c k v \<longleftrightarrow> (\<exists>e. (k, v, e) \<in> set l)"
proof -
  from assms obtain ps where i: "indexed (shards c ! getShard c k) ps" and l: "l = map (payload (shards c ! getShard c k)) ps"
    by (auto simp: rep_def)
  then have "cache_holds c k v \<longleftrightarrow> (\<exists>p \<in> set ps. e_key (s_heap (shards c ! getShard c k) p) = k \<and>
      e_value (s_heap (shards c ! getShard c k) p) = v)"
    by (auto simp: cache_holds_def indexed_def)
  also have "\<dots> \<longleftrightarrow> (\<exists>e. (k, v, e) \<in> set l)" unfolding l by (force simp: payload_def)
  finally show ?thesis .
qed

lemma lru_set_length: "1 \<le> cap \<Longrightarrow> length l \<le> cap \<Longrightarrow> length (lru_set cap k v e l) \<le> cap"
proof (cases "k \<in> fst ` set l")
  case True
  assume "length l \<le> cap"
  moreover have "length (lru_del k l) < length l"
    using True unfolding lru_del_def by (auto intro: length_filter_less)
  ultimately show ?thesis using True by (simp add: lru_set_def)
qed (auto simp: lru_set_def)

lemma lru_set_mem: "(k', w, x) \<in> set (lru_set cap k v e l) \<Longrightarrow> (k', w, x) \<in> set l \<or> k' = k \<and> w = v"
  by (auto simp: lru_set_def lru_del_def split: if_splits dest: in_set_butlastD)

lemma lru_get_mem:
  assumes "lru_get k now l = (r, l')"
  shows "r = Some v \<Longrightarrow> \<exists>e. (k, v, e) \<in> set l" and "x \<in> set l' \<Longrightarrow> x \<in> set l"
  using assms map_of_SomeD [of l k] by (fastforce simp: lru_get_def lru_del_def split: option.splits if_splits prod.splits)+

lemma lru_get_length: "length (snd (lru_get k now l)) \<le> length l"
proof (cases "map_of l k")
  case (Some ve)
  then have "k \<in> fst ` set l" by (metis map_of_eq_None_iff option.distinct(1))
  then have "length (lru_del k l) < length l" unfolding lru_del_def by (auto intro: length_filter_less)
  with Some show ?thesis by (auto simp: lru_get_def split: prod.split)
qed (simp add: lru_get_def)

lemma lru_del_length: "length (lru_del k l) \<le> length l"
  by (simp add: lru_del_def)

text \<open>Replacing the shard of a key.\<close>

lemma replace_shard:
  assumes c: "cache_inv cap c" and l: "rep (shards c ! getShard c k) l"
    and s: "rep s l'" "s_capacity s = cap" "length l' \<le> cap"
    and sub: "\<And>k' w x. (k', w, x) \<in> set l' \<Longrightarrow> (\<exists>y. (k', w, y) \<in> set l) \<or> P k' w"
  shows "cache_inv cap (c\<lparr>shards := (shards c)[getShard c k := s]\<rparr>) \<and>
    (\<forall>k' w. cache_holds (c\<lparr>shards := (shards c)[getShard c k := s]\<rparr>) k' w \<longrightarrow> cache_holds c k' w \<or> P k' w)"
proof -
  let ?c = "c\<lparr>shards := (shards c)[getShard c k := s]\<rparr>"
  have len: "getShard c k < length (shards c)" using c getShard_less by (simp add: cache_inv_def)
  have "cache_inv cap ?c"
    using c s by (auto simp: cache_inv_def dest!: set_update_subset_insert [THEN subsetD])
  moreover have "cache_holds c k' w \<or> P k' w" if h: "cache_holds ?c k' w" for k' w
  proof (cases "getShard c k' = getShard c k")
    case True
    have "rep (shards ?c ! getShard ?c k') l'" using True len s(1) by simp
    from rep_holds [OF this] h obtain x where "(k', w, x) \<in> set l'" by blast
    from sub [OF this] show ?thesis using rep_holds [of c k' l w] l True by auto
  next
    case False
    then have "shards ?c ! getShard ?c k' = shards c ! getShard c k'" by simp
    with h show ?thesis by (simp only: cache_holds_def getShard_update) auto
  qed
  ultimately show ?thesis by blast
qed

lemma shard_of:
  assumes "cache_inv cap c"
  obtains l where "rep (shards c ! getShard c k) l" "s_capacity (shards c ! getShard c k) = cap" "length l \<le> cap" "1 \<le> cap"
proof -
  have "shards c ! getShard c k \<in> set (shards c)"
    using assms getShard_less by (simp add: cache_inv_def)
  with assms that show thesis by (auto simp: cache_inv_def)
qed

lemma cache_Delete_ok:
  assumes "cache_inv cap c"
  shows "\<exists>c'. cache_Delete c k = Some c' \<and> cache_inv cap c' \<and> (\<forall>k' w. cache_holds c' k' w \<longrightarrow> cache_holds c k' w)"
proof -
  from shard_of [OF assms] obtain l where l: "rep (shards c ! getShard c k) l" "s_capacity (shards c ! getShard c k) = cap" "length l \<le> cap" by metis
  from rep_Delete [OF l(1)] obtain s where s: "shard_Delete (shards c ! getShard c k) k = Some s" "rep s (lru_del k l)" "s_capacity s = cap"
    using l(2) by auto
  have "length (lru_del k l) \<le> cap" using lru_del_length l(3) le_trans by blast
  from replace_shard [OF assms l(1) s(2,3) this, of "\<lambda>_ _. False"] s(1) show ?thesis
    by (auto simp: cache_Delete_def on_shard_def lru_del_def)
qed

lemma cache_Set_ok:
  assumes "cache_inv cap c"
  shows "\<exists>c'. cache_Set c k v ttl now = Some c' \<and> cache_inv cap c' \<and>
    (\<forall>k' w. cache_holds c' k' w \<longrightarrow> cache_holds c k' w \<or> k' = k \<and> w = v)"
proof (cases "ttl \<le> 0")
  case True
  with cache_Delete_ok [OF assms, of k] show ?thesis by (auto simp: cache_Set_def)
next
  case False
  from shard_of [OF assms] obtain l where l: "rep (shards c ! getShard c k) l" "s_capacity (shards c ! getShard c k) = cap"
    "length l \<le> cap" "1 \<le> cap" by metis
  from rep_Set [OF l(1), of k v "now + ttl"] l(2,4) obtain s where
    s: "shard_Set (shards c ! getShard c k) k v (now + ttl) = Some s" "rep s (lru_set cap k v (now + ttl) l)" "s_capacity s = cap"
    by auto
  from replace_shard [OF assms l(1) s(2,3) lru_set_length [OF l(4,3)], of "\<lambda>k' w. k' = k \<and> w = v"] s(1) False
    lru_set_mem show ?thesis
    by (simp add: cache_Set_def on_shard_def) blast
qed

lemma cache_Get_ok:
  assumes "cache_inv cap c"
  shows "\<exists>r c'. cache_Get c k now = Some (r, c') \<and> cache_inv cap c' \<and> (\<forall>v. r = Some v \<longrightarrow> cache_holds c k v) \<and>
    (\<forall>k' w. cache_holds c' k' w \<longrightarrow> cache_holds c k' w)"
proof -
  from shard_of [OF assms] obtain l where l: "rep (shards c ! getShard c k) l" "s_capacity (shards c ! getShard c k) = cap" "length l \<le> cap" by metis
  obtain r l' where g: "lru_get k now l = (r, l')" by (cases "lru_get k now l")
  from rep_Get [OF l(1), of k now] g l(2) obtain s where
    s: "shard_Get (shards c ! getShard c k) k now = Some (r, s)" "rep s l'" "s_capacity s = cap" by auto
  have "length l' \<le> cap" using lru_get_length [of k now l] g l(3) by simp
  from replace_shard [OF assms l(1) s(2,3) this, of "\<lambda>_ _. False"] lru_get_mem(2) [OF g]
  have "cache_inv cap (c\<lparr>shards := (shards c)[getShard c k := s]\<rparr>) \<and>
    (\<forall>k' w. cache_holds (c\<lparr>shards := (shards c)[getShard c k := s]\<rparr>) k' w \<longrightarrow> cache_holds c k' w)" by blast
  moreover have "\<forall>v. r = Some v \<longrightarrow> cache_holds c k v"
    using lru_get_mem(1) [OF g] rep_holds [OF l(1)] by blast
  ultimately show ?thesis using s(1) by (simp add: cache_Get_def)
qed

lemma cache_Clear_ok:
  assumes "cache_inv cap c"
  shows "cache_inv cap (cache_Clear c) \<and> \<not> cache_holds (cache_Clear c) k v"
proof -
  have "getShard c k < length (shards c)" using assms getShard_less by (simp add: cache_inv_def)
  then have "s_items (shards (cache_Clear c) ! getShard (cache_Clear c) k) = []"
    by (simp add: cache_Clear_def shard_Clear_def Let_def)
  moreover have "cache_inv cap (cache_Clear c)"
    using assms rep_Clear by (fastforce simp: cache_inv_def cache_Clear_def)
  ultimately show ?thesis by (simp add: cache_holds_def)
qed

lemma cache_New_ok: "cache_inv (max (n div shardCount) 1) (cache_New h n)"
  using rep_new [of "max (n div shardCount) 1"]
  by (auto simp: cache_inv_def cache_New_def Let_def new_shard_def)

interpretation ac: answer_cache cache_Get cache_Set cache_Clear "\<lambda>c. \<exists>cap. cache_inv cap c" cache_holds
proof unfold_locales
  show "\<exists>cap. cache_inv cap c \<Longrightarrow> \<exists>r c'. cache_Get c k now = Some (r, c') \<and> (\<exists>cap. cache_inv cap c') \<and>
      (\<forall>v. r = Some v \<longrightarrow> cache_holds c k v) \<and> (\<forall>k' v. cache_holds c' k' v \<longrightarrow> cache_holds c k' v)" for c k now
    using cache_Get_ok by blast
  show "\<exists>cap. cache_inv cap c \<Longrightarrow> \<exists>c'. cache_Set c k v ttl now = Some c' \<and> (\<exists>cap. cache_inv cap c') \<and>
      (\<forall>k' w. cache_holds c' k' w \<longrightarrow> cache_holds c k' w \<or> k' = k \<and> w = v)" for c k v ttl now
    using cache_Set_ok by blast
  show "\<exists>cap. cache_inv cap c \<Longrightarrow> (\<exists>cap. cache_inv cap (cache_Clear c)) \<and> \<not> cache_holds (cache_Clear c) k v" for c k v
    using cache_Clear_ok by blast
qed

section \<open>Properties\<close>

lemma lru_get_set: "now < e \<Longrightarrow> fst (lru_get k now (lru_set cap k v e l)) = Some v"
  by (auto simp: lru_get_def lru_set_def)

lemma cache_stored:
  assumes "cache_inv cap c" and "0 < ttl"
  shows "\<exists>c'. cache_Set c k v ttl t = Some c' \<and>
    (\<forall>now. \<exists>c''. cache_Get c' k now = Some (if now < t + ttl then Some v else None, c''))"
proof -
  from shard_of [OF assms(1)] obtain l where l: "rep (shards c ! getShard c k) l" "s_capacity (shards c ! getShard c k) = cap"
    "1 \<le> cap" by metis
  from rep_Set [OF l(1), of k v "t + ttl"] l(2,3) obtain s where
    s: "shard_Set (shards c ! getShard c k) k v (t + ttl) = Some s" "rep s (lru_set cap k v (t + ttl) l)" by auto
  let ?c = "c\<lparr>shards := (shards c)[getShard c k := s]\<rparr>"
  have "getShard c k < length (shards c)" using assms(1) getShard_less by (simp add: cache_inv_def)
  then have sh: "(shards c)[getShard c k := s] ! getShard c k = s" by simp
  have r: "fst (lru_get k now (lru_set cap k v (t + ttl) l)) = (if now < t + ttl then Some v else None)" for now
    using lru_get_set by (auto simp: lru_get_def lru_set_def)
  have "\<exists>c''. cache_Get ?c k now = Some (if now < t + ttl then Some v else None, c'')" for now
    using rep_Get [OF s(2), of k now] unfolding r by (auto simp: cache_Get_def sh)
  moreover have "cache_Set c k v ttl t = Some ?c" using assms(2) s(1) by (simp add: cache_Set_def on_shard_def)
  ultimately show ?thesis by blast
qed

text \<open>What is put into the cache is found.  After \<open>Set\<close> with a positive TTL, \<open>Get\<close> of the same key
  returns the value as long as the TTL has not passed, and nothing from then on.\<close>

theorem cache_Get_after_Set:
  assumes "cache_inv cap c" and "0 < ttl"
  shows "\<exists>c'. cache_Set c k v ttl t = Some c' \<and>
    (\<forall>now. \<exists>c''. cache_Get c' k now = Some (if now < t + ttl then Some v else None, c''))"
  by (rule cache_stored [OF assms])

theorem cache_Get_after_Set_witness:
  "\<exists>c'. cache_Set (cache_New (\<lambda>_. 7) 1000) \<lparr>key_Name = ''a'', key_Type = TypeA\<rparr> no_RRSet 60 100 = Some c' \<and>
    (\<exists>c''. cache_Get c' \<lparr>key_Name = ''a'', key_Type = TypeA\<rparr> 150 = Some (Some no_RRSet, c'')) \<and>
    (\<exists>c''. cache_Get c' \<lparr>key_Name = ''a'', key_Type = TypeA\<rparr> 160 = Some (None, c''))"
proof -
  from cache_Get_after_Set [OF cache_New_ok [of 1000 "\<lambda>_. 7"], of 60 "\<lparr>key_Name = ''a'', key_Type = TypeA\<rparr>" no_RRSet 100]
  obtain c' where "cache_Set (cache_New (\<lambda>_. 7) 1000) \<lparr>key_Name = ''a'', key_Type = TypeA\<rparr> no_RRSet 60 100 = Some c'"
    and g: "\<And>now. \<exists>c''. cache_Get c' \<lparr>key_Name = ''a'', key_Type = TypeA\<rparr> now =
      Some (if now < 100 + 60 then Some no_RRSet else None, c'')" by auto
  with g [of 150] g [of 160] show ?thesis by auto
qed

text \<open>C25: the pointer structure of a shard implements the least-recently-used list.  From any shard
  that represents a list, \<open>Set\<close>, \<open>Get\<close> and \<open>Delete\<close> run without a nil dereference, return what
  the list operation returns, and leave a shard that represents the resulting list: \<open>Set\<close> puts
  the key first and evicts the last entry when a full shard gets a new key, \<open>Get\<close> moves a live
  entry to the front and drops an expired one, \<open>Clear\<close> leaves the empty list.\<close>

theorem shard_refines_lru:
  assumes "rep s l" and "1 \<le> s_capacity s"
  shows "(\<exists>s'. shard_Set s k v e = Some s' \<and> rep s' (lru_set (s_capacity s) k v e l)) \<and>
    (\<exists>s'. shard_Get s k now = Some (fst (lru_get k now l), s') \<and> rep s' (snd (lru_get k now l))) \<and>
    (\<exists>s'. shard_Delete s k = Some s' \<and> rep s' (lru_del k l)) \<and>
    rep (shard_Clear s) []"
  using rep_Set [OF assms, of k v e] rep_Get [OF assms(1), of k now] rep_Delete [OF assms(1), of k] rep_Clear [OF assms(1)]
  by blast

theorem shard_refines_lru_witness:
  "\<exists>s'. shard_Set (new_shard 1) \<lparr>key_Name = ''a'', key_Type = TypeA\<rparr> no_RRSet 5 = Some s' \<and>
     rep s' [(\<lparr>key_Name = ''a'', key_Type = TypeA\<rparr>, no_RRSet, 5)]"
  using shard_refines_lru [OF rep_new, of 1 "\<lparr>key_Name = ''a'', key_Type = TypeA\<rparr>" no_RRSet 5 0]
  by (simp add: new_shard_def lru_set_def)

text \<open>The operations on a cache, with the time of each.\<close>

datatype cache_op = CacheSet Key RRSet int int | CacheGet Key int | CacheDelete Key | CacheClear

fun cache_step :: "Cache \<Rightarrow> cache_op \<Rightarrow> Cache option" where
  "cache_step c (CacheSet k v ttl now) = cache_Set c k v ttl now"
| "cache_step c (CacheGet k now) = map_option snd (cache_Get c k now)"
| "cache_step c (CacheDelete k) = cache_Delete c k"
| "cache_step c CacheClear = Some (cache_Clear c)"

fun cache_run :: "Cache \<Rightarrow> cache_op list \<Rightarrow> Cache option" where
  "cache_run c [] = Some c"
| "cache_run c (x # xs) = Option.bind (cache_step c x) (\<lambda>c. cache_run c xs)"

lemma cache_step_ok: "cache_inv cap c \<Longrightarrow> \<exists>c'. cache_step c x = Some c' \<and> cache_inv cap c'"
proof (cases x)
  case (CacheSet k v ttl now)
  assume "cache_inv cap c"
  from cache_Set_ok [OF this, of k v ttl now] show ?thesis by (auto simp: CacheSet)
next
  case (CacheGet k now)
  assume "cache_inv cap c"
  from cache_Get_ok [OF this, of k now] show ?thesis by (auto simp: CacheGet)
next
  case (CacheDelete k)
  assume "cache_inv cap c"
  from cache_Delete_ok [OF this, of k] show ?thesis by (auto simp: CacheDelete)
next
  case CacheClear
  assume "cache_inv cap c"
  from cache_Clear_ok [OF this] show ?thesis by (auto simp: CacheClear)
qed

lemma cache_run_ok: "cache_inv cap c \<Longrightarrow> \<exists>c'. cache_run c xs = Some c' \<and> cache_inv cap c'"
proof (induction xs arbitrary: c)
  case (Cons x xs)
  from cache_step_ok [OF Cons.prems, of x] obtain c1 where "cache_step c x = Some c1" "cache_inv cap c1" by blast
  with Cons.IH [of c1] show ?case by simp
qed simp

text \<open>The cache is bounded and never fails.  Every sequence of operations on a new cache runs to
  the end, and at every point the cache has at most \<open>256 * max(totalCapacity/256, 1)\<close> entries,
  for every seed of the hash.\<close>

theorem cache_bounded:
  "\<exists>c. cache_run (cache_New h n) ops = Some c \<and> cache_Len c \<le> shardCount * max (n div shardCount) 1"
proof -
  from cache_run_ok [OF cache_New_ok] obtain c where c: "cache_run (cache_New h n) ops = Some c" and
    i: "cache_inv (max (n div shardCount) 1) c" by blast
  have "length (s_items s) \<le> max (n div shardCount) 1" if "s \<in> set (shards c)" for s
    using i that rep_length by (fastforce simp: cache_inv_def)
  then have "sum_list (map (\<lambda>s. length (s_items s)) (shards c)) \<le> sum_list (map (\<lambda>s. max (n div shardCount) 1) (shards c))"
    by (intro sum_list_mono) auto
  also have "\<dots> = shardCount * max (n div shardCount) 1" using i by (simp add: sum_list_triv cache_inv_def)
  finally show ?thesis using c by (simp add: cache_Len_def)
qed

end
