(* ===== verification/ZoneState.thy ===== *)
theory ZoneState
  imports RadixResolve RadixQuery Cache
begin

text \<open>
  \<open>internal/state\<close>: the tree together with the answer cache.  Used by one caller at a time the
  cache is invisible: every query gets what the tree says.  A query that overlaps with an
  update is modelled as the steps of the source, and can put an answer of the old tree into the
  cleared cache.
\<close>

section \<open>Names and case\<close>

definition lowered :: "DomainIterator \<Rightarrow> DomainIterator" where
  "lowered it = it\<lparr>it_domain := lower_ascii (it_domain it)\<rparr>"

lemma lowered_simps [simp]:
  "it_domain (lowered it) = lower_ascii (it_domain it)" "it_cursor (lowered it) = it_cursor it"
  "lowered it\<lparr>it_cursor := i\<rparr> = lowered (it\<lparr>it_cursor := i\<rparr>)"
  by (simp_all add: lowered_def)

lemma LastIndexByte_lower: "LastIndexByte (lower_ascii s) CHR ''.'' = LastIndexByte s CHR ''.''"
  by (induction s) (auto simp: lower_ascii_def split: option.split)

lemma take_lower: "take n (lower_ascii s) = lower_ascii (take n s)"
  and drop_lower: "drop n (lower_ascii s) = lower_ascii (drop n s)"
  by (simp_all add: lower_ascii_def take_map drop_map)

lemma Next_lower: "Next (lowered it) = map_prod (map_option lower_ascii) lowered (Next it)"
proof (induction it rule: Next.induct)
  case (1 it)
  show ?case
  proof (cases "it_cursor it > 0")
    case True
    show ?thesis
    proof (cases "LastIndexByte (take (it_cursor it) (it_domain it)) CHR ''.''")
      case None
      with True show ?thesis
        by (subst (1 2) Next.simps) (simp add: take_lower LastIndexByte_lower)
    next
      case (Some i)
      have "sub_slice (lower_ascii (it_domain it)) (i + 1) (it_cursor it) = lower_ascii (sub_slice (it_domain it) (i + 1) (it_cursor it))"
        by (simp add: sub_slice_def take_lower drop_lower)
      with True Some 1 [OF True refl Some refl refl] show ?thesis
        by (subst (1 2) Next.simps) (simp add: take_lower LastIndexByte_lower Let_def)
    qed
  next
    case False
    then show ?thesis by (simp add: Next.simps [of it] Next.simps [of "lowered it"])
  qed
qed

lemma NextLower_lower: "NextLower (lowered it) = map_prod id lowered (NextLower it)"
  by (cases "Next it") (simp add: NextLower_eq Next_lower option.map_comp comp_def)

definition low_name :: "Result \<Rightarrow> Result" where
  "low_name r = r\<lparr>AuthorityName := lower_ascii (AuthorityName r)\<rparr>"

lemma formatDomainName_lower: "formatDomainName (lower_ascii d) c = lower_ascii (formatDomainName d c)"
  by (simp add: formatDomainName_def drop_lower) (simp add: lower_ascii_def)

lemma evaluateNode_lower:
  "evaluateNode n qt (lower_ascii d) c (soa, lower_ascii nm) =
   map_prod (map_option low_name) (map_prod id lower_ascii) (evaluateNode n qt d c (soa, nm))"
  by (auto simp: evaluateNode_def formatDomainName_lower low_name_def Let_def split: option.split)

lemma resolveAtNode_lower: "resolveAtNode n qt (soa, lower_ascii nm) = low_name (resolveAtNode n qt (soa, nm))"
  by (auto simp: resolveAtNode_def low_name_def no_Result_def split: option.split)

lemma wildcardResolve_lower: "wildcardResolve f qt (soa, lower_ascii nm) = low_name (wildcardResolve f qt (soa, nm))"
  by (auto simp: wildcardResolve_def resolveAtNode_lower low_name_def split: option.split)

lemma resolve_loop_lower:
  "resolve_loop (lower_ascii d) qt n (lowered it) f (soa, lower_ascii nm) = low_name (resolve_loop d qt n it f (soa, nm))"
proof (induction "it_cursor it" arbitrary: n it f soa nm rule: less_induct)
  case less
  obtain lo it' where nx: "NextLower it = (lo, it')" by (cases "NextLower it")
  have nx': "NextLower (lowered it) = (lo, lowered it')" by (simp add: NextLower_lower nx)
  note u = resolve_loop.simps [of d qt n it] resolve_loop.simps [of "lower_ascii d" qt n "lowered it"]
  show ?case
  proof (cases lo)
    case None
    then show ?thesis
      by (auto simp: u nx nx' resolveAtNode_lower wildcardResolve_lower low_name_def)
  next
    case (Some l)
    have IH: "resolve_loop (lower_ascii d) qt m (lowered it') g (s, lower_ascii x) = low_name (resolve_loop d qt m it' g (s, x))" for m g s x
      using less [of it'] NextLower_cursor [of it l it'] nx Some by simp
    have step: "(case evaluateNode m qt (lower_ascii d) (it_cursor it') (soa, lower_ascii nm) of
          (Some res, _) \<Rightarrow> res | (None, s) \<Rightarrow> resolve_loop (lower_ascii d) qt m (lowered it') g s) =
        low_name (case evaluateNode m qt d (it_cursor it') (soa, nm) of
          (Some res, _) \<Rightarrow> res | (None, s) \<Rightarrow> resolve_loop d qt m it' g s)" for m g
      unfolding evaluateNode_lower
      by (cases "evaluateNode m qt d (it_cursor it') (soa, nm)") (auto simp: IH split: option.split)
    show ?thesis
      using Some by (auto simp: u nx nx' wildcardResolve_lower step Let_def split: option.split prod.split)
  qed
qed

lemma Resolve_lower: "radix_Resolve t (lower_ascii d) qt = low_name (radix_Resolve t d qt)"
proof -
  have dot: "lower_ascii ''.'' = ''.''" by (simp add: lower_ascii_def)
  have it: "NewDomainIterator (lower_ascii d) = lowered (NewDomainIterator d)"
    by (simp add: NewDomainIterator_def lowered_def)
  show ?thesis
    using evaluateNode_lower [of "root t" qt d "length d" no_RRSet "''.''"]
    by (cases "evaluateNode (root t) qt d (length d) (no_RRSet, ''.'')")
       (auto simp: radix_Resolve_def dot it resolve_loop_lower split: option.split)
qed

section \<open>The state\<close>

record State =
  st_tree :: Tree
  st_cache :: Cache

abbreviation defaultCacheCapacity :: int where "defaultCacheCapacity \<equiv> 10000"
abbreviation second :: int where "second \<equiv> 1000000000"

definition state_New :: "(Key \<Rightarrow> u64) \<Rightarrow> int \<Rightarrow> State" where
  "state_New h cacheCapacity =
     (let cacheCapacity = (if cacheCapacity \<le> 0 then defaultCacheCapacity else cacheCapacity)
      in \<lparr>st_tree = radix_New, st_cache = cache_New h (nat cacheCapacity)\<rparr>)"

definition state_Len :: "State \<Rightarrow> int" where
  "state_Len s = radix_Len (st_tree s)"

definition Swap :: "State \<Rightarrow> Tree \<Rightarrow> State" where
  "Swap s newTree = s\<lparr>st_tree := newTree, st_cache := cache_Clear (st_cache s)\<rparr>"

definition Update :: "State \<Rightarrow> (Tree \<Rightarrow> Tree) \<Rightarrow> State" where
  "Update s fn = s\<lparr>st_tree := fn (st_tree s), st_cache := cache_Clear (st_cache s)\<rparr>"

definition ClearCache :: "State \<Rightarrow> State" where
  "ClearCache s = s\<lparr>st_cache := cache_Clear (st_cache s)\<rparr>"

definition SnapshotTree :: "State \<Rightarrow> Tree" where
  "SnapshotTree s = st_tree s"

definition state_Get :: "State \<Rightarrow> string \<Rightarrow> RRSets option" where
  "state_Get s domain = radix_Get (st_tree s) domain"

definition state_Search :: "State \<Rightarrow> string \<Rightarrow> 's yielder \<Rightarrow> 's \<Rightarrow> 's" where
  "state_Search s query = Search (st_tree s) query"

definition state_Seek :: "State \<Rightarrow> string \<Rightarrow> 's yielder \<Rightarrow> 's \<Rightarrow> 's" where
  "state_Seek s afterDomain = Seek (st_tree s) afterDomain"

definition state_Walk :: "State \<Rightarrow> 's yielder \<Rightarrow> 's \<Rightarrow> 's" where
  "state_Walk s = Walk (st_tree s)"

definition toLowerASCII :: "string \<Rightarrow> string" where
  "toLowerASCII s = (if \<not> list_ex is_upper s then s else lower_ascii s)"

lemma toLowerASCII_eq: "toLowerASCII s = lower_ascii s"
  by (simp add: toLowerASCII_def lower_ascii_no_upper)

definition cache_key :: "string \<Rightarrow> dns_type \<Rightarrow> Key" where
  "cache_key domain qType = \<lparr>key_Name = toLowerASCII domain, key_Type = qType\<rparr>"

text \<open>\<open>now\<close> and \<open>now'\<close> are the times of the two calls into the cache.\<close>

definition state_Resolve :: "State \<Rightarrow> string \<Rightarrow> dns_type \<Rightarrow> int \<Rightarrow> int \<Rightarrow> (Result \<times> State) option" where
  "state_Resolve s domain qType now now' =
     (let cacheKey = cache_key domain qType in
      case cache_Get (st_cache s) cacheKey now of
        None \<Rightarrow> None
      | Some (Some record, c) \<Rightarrow>
          Some (no_Result\<lparr>RCode := RCodeSuccess, Answer := record\<rparr>, s\<lparr>st_cache := c\<rparr>)
      | Some (None, c) \<Rightarrow>
          (let res = radix_Resolve (st_tree s) domain qType in
           if RCode res = RCodeSuccess \<and> HasAnswer res then
             (case cache_Set c cacheKey (Answer res) (int (unat (TTL (Answer res))) * second) now' of
                None \<Rightarrow> None
              | Some c \<Rightarrow> Some (res, s\<lparr>st_cache := c\<rparr>))
           else Some (res, s\<lparr>st_cache := c\<rparr>)))"

section \<open>A positive answer is the answer section alone\<close>

abbreviation positive :: "RRSet \<Rightarrow> Result" where
  "positive v \<equiv> no_Result\<lparr>RCode := RCodeSuccess, Answer := v\<rparr>"

definition answer_only :: "Result \<Rightarrow> bool" where
  "answer_only r \<longleftrightarrow> (HasAnswer r \<longrightarrow> r = positive (Answer r))"

lemma no_answer: "\<not> HasAnswer (no_Result\<lparr>RCode := c, Authority := a, AuthorityName := n\<rparr>)"
  by (simp add: HasAnswer_def no_Result_def no_RRSet_def HasRecords_def)

lemma answer_only_node: "answer_only (resolveAtNode n qt soa)"
  by (auto simp: resolveAtNode_def answer_only_def no_answer split: option.split)

lemma answer_only_wildcard: "answer_only (wildcardResolve f qt soa)"
  by (auto simp: wildcardResolve_def answer_only_node split: option.split) (auto simp: answer_only_def no_answer)

lemma answer_only_evaluate: "evaluateNode n qt d c soa = (Some r, s) \<Longrightarrow> answer_only r"
  by (auto simp: evaluateNode_def answer_only_def no_answer Let_def split: option.splits if_splits)

lemma answer_only_loop: "answer_only (resolve_loop d qt n it f soa)"
proof (induction d qt n it f soa rule: resolve_loop.induct)
  case (1 d qt n it f soa)
  have ne: "answer_only (no_Result\<lparr>RCode := RCodeNameError, Authority := fst soa, AuthorityName := snd soa\<rparr>)"
    by (simp add: answer_only_def no_answer)
  obtain lo it' where nx: "NextLower it = (lo, it')" by (cases "NextLower it")
  show ?case
  proof (cases lo)
    case None
    then show ?thesis
      using ne by (simp add: resolve_loop.simps [of d qt n it] nx answer_only_node answer_only_wildcard)
  next
    case (Some l)
    show ?thesis
      using 1 [OF nx [symmetric] Some refl] Some
      by (auto simp: resolve_loop.simps [of d qt n it] nx Let_def answer_only_wildcard answer_only_evaluate
          split: option.split prod.split)
  qed
qed

lemma answer_only_Resolve: "answer_only (radix_Resolve t d qt)"
  by (auto simp: radix_Resolve_def answer_only_loop answer_only_evaluate split: option.split prod.split)

section \<open>The cache is invisible\<close>

text \<open>What the cache may hold for a tree.\<close>

definition tree_answer :: "Tree \<Rightarrow> Key \<Rightarrow> RRSet option" where
  "tree_answer t k =
     (let r = radix_Resolve t (key_Name k) (key_Type k) in
      if r = positive (Answer r) then Some (Answer r) else None)"

definition state_ok :: "State \<Rightarrow> bool" where
  "state_ok s \<longleftrightarrow> tree_inv (st_tree s) \<and> ac.coherent (tree_answer (st_tree s)) (st_cache s)"

lemma positive_low: "low_name (positive v) = positive v"
  by (simp add: low_name_def no_Result_def)

lemma low_name_positive: "low_name r = positive v \<Longrightarrow> r = positive v"
  by (cases r) (simp add: low_name_def no_Result_def)

lemma Answer_positive [simp]: "Answer (positive v) = v"
  by simp

lemma tree_answer_key:
  "tree_answer t (cache_key d qt) = Some v \<longleftrightarrow> radix_Resolve t d qt = positive v"
proof -
  have "tree_answer t (cache_key d qt) = Some v \<longleftrightarrow> low_name (radix_Resolve t d qt) = positive v"
    by (auto simp: tree_answer_def cache_key_def toLowerASCII_eq Resolve_lower Let_def)
  also have "\<dots> \<longleftrightarrow> radix_Resolve t d qt = positive v"
    using low_name_positive positive_low by metis
  finally show ?thesis .
qed

lemma state_Resolve_ok:
  assumes "state_ok s"
  shows "\<exists>s'. state_Resolve s d qt now now' = Some (radix_Resolve (st_tree s) d qt, s') \<and>
    st_tree s' = st_tree s \<and> state_ok s'"
proof -
  let ?f = "tree_answer (st_tree s)" and ?k = "cache_key d qt" and ?r = "radix_Resolve (st_tree s) d qt"
  from assms have co: "ac.coherent ?f (st_cache s)" and ti: "tree_inv (st_tree s)" by (simp_all add: state_ok_def)
  from ac.coherent_get [OF co, of ?k now] obtain r c where g: "cache_Get (st_cache s) ?k now = Some (r, c)"
    and c: "ac.coherent ?f c" and r: "\<And>v. r = Some v \<Longrightarrow> ?f ?k = Some v" by blast
  show ?thesis
  proof (cases r)
    case (Some v)
    then have "?r = positive v" using r by (simp only: tree_answer_key)
    with g Some c ti show ?thesis by (simp add: state_Resolve_def state_ok_def)
  next
    case None
    show ?thesis
    proof (cases "RCode ?r = RCodeSuccess \<and> HasAnswer ?r")
      case True
      then have "?r = positive (Answer ?r)" using answer_only_Resolve by (simp add: answer_only_def)
      then have "?f ?k = Some (Answer ?r)" by (simp only: tree_answer_key)
      from ac.coherent_put [OF c this, of "int (unat (TTL (Answer ?r))) * second" now'] obtain c' where
        "cache_Set c ?k (Answer ?r) (int (unat (TTL (Answer ?r))) * second) now' = Some c'" "ac.coherent ?f c'" by blast
      with g None True ti show ?thesis by (simp add: state_Resolve_def state_ok_def Let_def)
    next
      case False
      with g None c ti show ?thesis by (auto simp: state_Resolve_def state_ok_def Let_def)
    qed
  qed
qed

lemma state_ok_write:
  assumes "state_ok s" and "tree_inv t"
  shows "state_ok (s\<lparr>st_tree := t, st_cache := cache_Clear (st_cache s)\<rparr>)"
  using assms ac.coherent_clear by (auto simp: state_ok_def ac.coherent_def)

lemma state_ok_New: "state_ok (state_New h n)"
proof -
  let ?n = "nat (if n \<le> 0 then defaultCacheCapacity else n)"
  have "cache_inv (max (?n div shardCount) 1) (cache_New h ?n)" by (rule cache_New_ok)
  moreover have "\<not> cache_holds (cache_New h ?n) k v" for k v
    using getShard_less [of "cache_New h ?n" k]
    by (simp add: cache_holds_def cache_New_def Let_def new_shard_def getShard_def)
  ultimately show ?thesis
    unfolding state_ok_def ac.coherent_def state_New_def Let_def by (auto simp: tree_inv_New)
qed

text \<open>A sequence of uses of the state: writes through \<open>Update\<close>, replacements of the tree, and
  queries at some time.  The answers are collected.\<close>

datatype state_op =
    StUpdate "mutation list"
  | StSwap "mutation list"
  | StClear
  | StResolve string dns_type int int

fun state_step :: "State \<Rightarrow> state_op \<Rightarrow> (Result option \<times> State) option" where
  "state_step s (StUpdate ms) = Some (None, Update s (\<lambda>t. run_mutations radix_Upsert radix_DeleteDomain t ms))"
| "state_step s (StSwap ms) = Some (None, Swap s (run_mutations radix_Upsert radix_DeleteDomain radix_New ms))"
| "state_step s StClear = Some (None, ClearCache s)"
| "state_step s (StResolve d qt now now') = map_option (\<lambda>(r, s). (Some r, s)) (state_Resolve s d qt now now')"

text \<open>The same sequence without a cache.\<close>

fun bare_step :: "Tree \<Rightarrow> state_op \<Rightarrow> Result option \<times> Tree" where
  "bare_step t (StUpdate ms) = (None, run_mutations radix_Upsert radix_DeleteDomain t ms)"
| "bare_step t (StSwap ms) = (None, run_mutations radix_Upsert radix_DeleteDomain radix_New ms)"
| "bare_step t StClear = (None, t)"
| "bare_step t (StResolve d qt now now') = (Some (radix_Resolve t d qt), t)"

fun state_run :: "State \<Rightarrow> state_op list \<Rightarrow> (Result option list \<times> State) option" where
  "state_run s [] = Some ([], s)"
| "state_run s (x # xs) =
     (case state_step s x of
        None \<Rightarrow> None
      | Some (r, s) \<Rightarrow> map_option (\<lambda>(rs, s). (r # rs, s)) (state_run s xs))"

fun bare_run :: "Tree \<Rightarrow> state_op list \<Rightarrow> Result option list" where
  "bare_run t [] = []"
| "bare_run t (x # xs) = fst (bare_step t x) # bare_run (snd (bare_step t x)) xs"

lemma state_step_ok:
  assumes "state_ok s"
  shows "\<exists>s'. state_step s x = Some (fst (bare_step (st_tree s) x), s') \<and> state_ok s' \<and> st_tree s' = snd (bare_step (st_tree s) x)"
proof (cases x)
  case (StUpdate ms)
  with assms state_ok_write [OF assms rt.invar_run] show ?thesis by (simp add: Update_def state_ok_def)
next
  case (StSwap ms)
  with assms state_ok_write [OF assms rt.invar_run [OF tree_inv_New]] show ?thesis by (simp add: Swap_def)
next
  case StClear
  have "tree_inv (st_tree s)" using assms by (simp add: state_ok_def)
  from state_ok_write [OF assms this] StClear show ?thesis by (simp add: ClearCache_def)
next
  case (StResolve d qt now now')
  with state_Resolve_ok [OF assms, of d qt now now'] show ?thesis by auto
qed

lemma state_run_ok: "state_ok s \<Longrightarrow> \<exists>s'. state_run s xs = Some (bare_run (st_tree s) xs, s') \<and> state_ok s'"
proof (induction xs arbitrary: s)
  case (Cons x xs)
  from state_step_ok [OF Cons.prems, of x] obtain s1 where 1: "state_step s x = Some (fst (bare_step (st_tree s) x), s1)"
    "state_ok s1" "st_tree s1 = snd (bare_step (st_tree s) x)" by blast
  from Cons.IH [OF 1(2)] 1 show ?case by auto
qed simp

text \<open>C3: the cache is transparent.  In every sequence of queries, updates, replacements of the tree and
  cache flushes, at any times and for any hash function and capacity, every query gets exactly
  the answer the tree gives at that point, and no operation fails.\<close>

theorem cache_transparent:
  "\<exists>s. state_run (state_New h n) ops = Some (bare_run radix_New ops, s)"
  using state_run_ok [OF state_ok_New, of h n ops] by (auto simp: state_New_def Let_def)

section \<open>A query that overlaps with an update\<close>

text \<open>\<open>Resolve\<close> takes no lock across its three accesses: it looks into the cache, then at the tree, then
  stores the answer, while \<open>Update\<close> may run in between.  The steps of one query and of writers:\<close>

datatype query_pc = Idle | Missed string dns_type | Found string dns_type Result

inductive overlap :: "State \<times> query_pc \<Rightarrow> State \<times> query_pc \<Rightarrow> bool" where
  miss: "cache_Get (st_cache s) (cache_key d qt) now = Some (None, c) \<Longrightarrow>
    overlap (s, Idle) (s\<lparr>st_cache := c\<rparr>, Missed d qt)"
| look: "overlap (s, Missed d qt) (s, Found d qt (radix_Resolve (st_tree s) d qt))"
| store: "RCode r = RCodeSuccess \<Longrightarrow> HasAnswer r \<Longrightarrow>
    cache_Set (st_cache s) (cache_key d qt) (Answer r) (int (unat (TTL (Answer r))) * second) now = Some c \<Longrightarrow>
    overlap (s, Found d qt r) (s\<lparr>st_cache := c\<rparr>, Idle)"
| skip: "\<not> (RCode r = RCodeSuccess \<and> HasAnswer r) \<Longrightarrow> overlap (s, Found d qt r) (s, Idle)"
| update: "overlap (s, pc) (Update s (\<lambda>t. run_mutations radix_Upsert radix_DeleteDomain t ms), pc)"

inductive_cases overlap_IdleE: "overlap (s, Idle) y"

lemma Resolve_cached:
  "cache_Get (st_cache s) (cache_key d qt) now = Some (Some v, c) \<Longrightarrow>
   state_Resolve s d qt now now' = Some (positive v, s\<lparr>st_cache := c\<rparr>)"
  by (simp add: state_Resolve_def)

lemma cleared_miss:
  assumes "cache_inv cap c"
  shows "\<exists>c'. cache_Get (cache_Clear c) k now = Some (None, c') \<and> cache_inv cap c'"
proof -
  have "cache_inv cap (cache_Clear c)" and n: "\<And>v. \<not> cache_holds (cache_Clear c) k v"
    using cache_Clear_ok [OF assms] by blast+
  from cache_Get_ok [OF this(1), of k now] n show ?thesis by (metis not_None_eq)
qed

text \<open>C38: an update can be undone by an overlapping query.  A state holds one address; a query for it
  misses the cache and reads the tree; the domain is deleted, which clears the cache; the query
  then stores the answer it read.  From then on, until the TTL of the record has passed, the
  state answers with the deleted record, although the tree has no such name.\<close>

theorem deleted_record_answered:
  "\<exists>s s'. overlap\<^sup>*\<^sup>* (Update (state_New h n) (\<lambda>t. radix_Upsert t ''a.org'' [a_set]), Idle) (s, Idle) \<and>
     radix_Get (st_tree s) ''a.org'' = None \<and>
     state_Resolve s ''a.org'' TypeA (299 * second) now' = Some (positive a_set, s')"
proof -
  let ?k = "cache_key ''a.org'' TypeA" and ?t = "radix_Upsert radix_New ''a.org'' [a_set]"
  let ?c = "st_cache (state_New h n)"
  define s0 where "s0 = Update (state_New h n) (\<lambda>t. radix_Upsert t ''a.org'' [a_set])"
  define del where "del = (\<lambda>t. run_mutations radix_Upsert radix_DeleteDomain t [DeleteDomain ''a.org''])"
  obtain cap where i: "cache_inv cap ?c" using cache_New_ok by (auto simp: state_New_def Let_def)
  from cleared_miss [OF i, of ?k 0] obtain c1 where c1: "cache_Get (st_cache s0) ?k 0 = Some (None, c1)" "cache_inv cap c1"
    by (auto simp: s0_def Update_def)
  define s1 where "s1 = s0\<lparr>st_cache := c1\<rparr>"
  define s2 where "s2 = Update s1 del"
  have t: "st_tree s1 = ?t" by (simp add: s1_def s0_def Update_def state_New_def Let_def)
  have r: "radix_Resolve ?t ''a.org'' TypeA = positive a_set" by code_simp
  have ha: "HasAnswer (positive a_set)" and ttl: "int (unat (TTL a_set)) = 300" by code_simp+
  have "cache_inv cap (st_cache s2)"
    using cache_Clear_ok [OF c1(2)] by (simp add: s2_def s1_def Update_def)
  from cache_stored [OF this, of "300 * second" ?k a_set 0] obtain c3 where
    c3: "cache_Set (st_cache s2) ?k a_set (300 * second) 0 = Some c3"
    and g: "\<And>now. \<exists>c''. cache_Get c3 ?k now = Some (if now < 0 + 300 * second then Some a_set else None, c'')" by auto
  define s3 where "s3 = s2\<lparr>st_cache := c3\<rparr>"
  have "overlap (s0, Idle) (s1, Missed ''a.org'' TypeA)" unfolding s1_def by (rule overlap.miss [OF c1(1)])
  moreover have "overlap (s1, Missed ''a.org'' TypeA) (s1, Found ''a.org'' TypeA (positive a_set))"
    using overlap.look [of s1 "''a.org''" TypeA] by (simp only: t r)
  moreover have "overlap (s1, Found ''a.org'' TypeA (positive a_set)) (s2, Found ''a.org'' TypeA (positive a_set))"
    unfolding s2_def del_def by (rule overlap.update)
  moreover have "overlap (s2, Found ''a.org'' TypeA (positive a_set)) (s3, Idle)"
    unfolding s3_def by (rule overlap.store) (use ha ttl c3 in simp_all)
  ultimately have "overlap\<^sup>*\<^sup>* (s0, Idle) (s3, Idle)" by (meson converse_rtranclp_into_rtranclp rtranclp.rtrancl_refl)
  moreover have "radix_Get (st_tree s3) ''a.org'' = None"
  proof -
    have "st_tree s3 = radix_DeleteDomain ?t ''a.org''" by (simp add: s3_def s2_def Update_def del_def t)
    moreover have "radix_Get (radix_DeleteDomain ?t ''a.org'') ''a.org'' = None" by code_simp
    ultimately show ?thesis by simp
  qed
  moreover from g [of "299 * second"] obtain c4 where "cache_Get (st_cache s3) ?k (299 * second) = Some (Some a_set, c4)"
    by (auto simp: s3_def)
  from Resolve_cached [OF this] have "\<exists>s'. state_Resolve s3 ''a.org'' TypeA (299 * second) now' = Some (positive a_set, s')" by blast
  ultimately show ?thesis unfolding s0_def by blast
qed

end
