(* ===== verification/Store.thy ===== *)
theory Store
  imports Unpack Snapshot ZoneState
begin

text \<open>
  \<open>internal/store\<close>: the coordination of memory and disk.  Mutations are queued, committed in
  batches (each bumps the serial of its zone, is logged, and is applied to the tree), and the
  log is compacted into a snapshot.  The disk is the snapshot file and the log file.  The main
  results: after every commit, and at every point of a compaction, recovery from the disk gives
  the tree in memory.
\<close>

abbreviation maxBatchSize :: nat where "maxBatchSize \<equiv> 512"
abbreviation defaultMutationQueueCap :: nat where "defaultMutationQueueCap \<equiv> 10000"
abbreviation MinCompactionThreshold :: u64 where "MinCompactionThreshold \<equiv> 100"
abbreviation MinCompactionInterval :: int where "MinCompactionInterval \<equiv> 60 * second"
abbreviation compressionPointerMask :: nat where "compressionPointerMask \<equiv> 0xC0"

section \<open>SOA serials\<close>

function skipDomainName :: "bytes \<Rightarrow> nat \<Rightarrow> nat option" where
  "skipDomainName data cur =
     (if cur < length data then
        (let l = unat (data ! cur) in
         if l = 0 then Some (cur + 1)
         else if l \<ge> compressionPointerMask then Some (cur + 2)
         else skipDomainName data (cur + (1 + l)))
      else None)"
  by pat_completeness auto
termination
  by (relation "measure (\<lambda>(d, c). length d - c)") auto

declare skipDomainName.simps [simp del]

definition incrementSOASerial :: "bytes \<Rightarrow> bytes" where
  "incrementSOASerial rdata =
     (case skipDomainName rdata 0 of
        None \<Rightarrow> rdata
      | Some offset \<Rightarrow>
          (case skipDomainName rdata offset of
             None \<Rightarrow> rdata
           | Some offset \<Rightarrow>
               if offset + 20 > length rdata then rdata
               else put32_at rdata offset (get32 (sub_slice rdata offset (offset + 4)) + 1)))"

text \<open>Both loops over record sets bump the first SOA set with data; the flag says whether there is
  one.\<close>

fun bump_soa :: "RRSets \<Rightarrow> bool \<times> RRSets" where
  "bump_soa [] = (False, [])"
| "bump_soa (r # rs) =
     (if rr_Type r = TypeSOA \<and> RData r \<noteq> [] then
        (True, r\<lparr>RData := (RData r)[0 := incrementSOASerial (RData r ! 0)]\<rparr> # rs)
      else (case bump_soa rs of (found, rs) \<Rightarrow> (found, r # rs)))"

definition findApexDomain :: "Result \<Rightarrow> string \<Rightarrow> string" where
  "findApexDomain res domain =
     (if HasAnswer res \<and> rr_Type (Answer res) = TypeSOA then domain
      else if HasAuthority res then AuthorityName res
      else [])"

section \<open>The store\<close>

text \<open>\<open>so_snap\<close> is the snapshot file, the log file is in the writer; \<open>so_compactCh\<close> is the one-place
  channel that wakes the compaction loop.\<close>

record Store =
  so_state :: State
  so_writer :: Writer
  so_snap :: "bytes option"
  so_mutationsCount :: u64
  so_threshold :: u64
  so_compactCh :: bool

text \<open>\<open>autoIncrementSOA\<close> changes the records of the operation in place, or the tree and the log.\<close>

definition autoIncrementSOA ::
  "Tree \<Rightarrow> Writer \<Rightarrow> string \<Rightarrow> RRSets \<Rightarrow> persist_error option \<times> RRSets \<times> Tree \<times> Writer" where
  "autoIncrementSOA tree w domain records =
     (case bump_soa records of
        (True, records) \<Rightarrow> (None, records, tree, w)
      | (False, _) \<Rightarrow>
          (let res = radix_Resolve tree domain TypeSOA;
               apexDomain = findApexDomain res domain
           in if apexDomain = [] \<or> apexDomain = domain then (None, records, tree, w)
              else
                (case radix_Get tree apexDomain of
                   None \<Rightarrow> (None, records, tree, w)
                 | Some apexRecords \<Rightarrow>
                     (case bump_soa (Clone apexRecords) of
                        (False, _) \<Rightarrow> (None, records, tree, w)
                      | (True, updatedRecords) \<Rightarrow>
                          (case AppendUpsert w apexDomain updatedRecords of
                             (Some err, w) \<Rightarrow> (Some err, records, tree, w)
                           | (None, w) \<Rightarrow> (None, records, radix_Upsert tree apexDomain updatedRecords, w))))))"

definition applyUpsert ::
  "Tree \<Rightarrow> Writer \<Rightarrow> string \<Rightarrow> RRSets \<Rightarrow> persist_error option \<times> Tree \<times> Writer" where
  "applyUpsert target w domain records =
     (case autoIncrementSOA target w domain records of
        (Some err, _, target, w) \<Rightarrow> (Some err, target, w)
      | (None, records, target, w) \<Rightarrow>
          (case AppendUpsert w domain records of
             (Some err, w) \<Rightarrow> (Some err, target, w)
           | (None, w) \<Rightarrow> (None, radix_Upsert target domain records, w)))"

definition applyDelete :: "Tree \<Rightarrow> Writer \<Rightarrow> string \<Rightarrow> persist_error option \<times> Tree \<times> Writer" where
  "applyDelete target w domain =
     (case autoIncrementSOA target w domain [] of
        (Some err, _, target, w) \<Rightarrow> (Some err, target, w)
      | (None, _, target, w) \<Rightarrow>
          (case AppendDelete w domain of
             (Some err, w) \<Rightarrow> (Some err, target, w)
           | (None, w) \<Rightarrow> (None, radix_DeleteDomain target domain, w)))"

fun applyOperation :: "Tree \<Rightarrow> Writer \<Rightarrow> mutation \<Rightarrow> persist_error option \<times> Tree \<times> Writer" where
  "applyOperation target w (Upsert domain records) = applyUpsert target w domain records"
| "applyOperation target w (DeleteDomain domain) = applyDelete target w domain"

definition triggerCompactionIfNeeded :: "Store \<Rightarrow> Store" where
  "triggerCompactionIfNeeded s =
     (if so_threshold s = 0 then s
      else
        (let s = s\<lparr>so_mutationsCount := so_mutationsCount s + 1\<rparr> in
         if so_mutationsCount s \<ge> so_threshold s then s\<lparr>so_compactCh := True\<rparr> else s))"

text \<open>The loop of \<open>commitBatch\<close>: the first failure, with its index, ends the work.\<close>

fun apply_batch ::
  "Tree \<Rightarrow> Store \<Rightarrow> mutation list \<Rightarrow> nat \<Rightarrow> (nat \<times> persist_error) option \<times> Tree \<times> Store" where
  "apply_batch target s [] i = (None, target, s)"
| "apply_batch target s (op # batch) i =
     (case applyOperation target (so_writer s) op of
        (Some err, target, w) \<Rightarrow> (Some (i, err), target, s\<lparr>so_writer := w\<rparr>)
      | (None, target, w) \<Rightarrow>
          apply_batch target (triggerCompactionIfNeeded (s\<lparr>so_writer := w\<rparr>)) batch (i + 1))"

text \<open>\<open>commitBatch\<close> returns what is sent on the \<open>done\<close> channels.\<close>

definition commitBatch :: "Store \<Rightarrow> mutation list \<Rightarrow> persist_error option list \<times> Store" where
  "commitBatch s batch =
     (if batch = [] then ([], s)
      else
        (case apply_batch (st_tree (so_state s)) s batch 0 of
           (failed, target, s) \<Rightarrow>
             (let s = s\<lparr>so_state := Update (so_state s) (\<lambda>_. target)\<rparr>;
                  s = s\<lparr>so_writer := wal_Flush (so_writer s)\<rparr>
              in (map (\<lambda>i. case failed of
                            Some (failedIndex, walErr) \<Rightarrow> if i \<ge> failedIndex then Some walErr else None
                          | None \<Rightarrow> None) [0..<length batch], s))))"

text \<open>One turn of \<open>batchWorker\<close> takes what is queued, up to \<open>maxBatchSize\<close>; \<open>drainMutations\<close> repeats
  that until the queue is empty.\<close>

definition batchWorker :: "Store \<Rightarrow> mutation list \<Rightarrow> (persist_error option list \<times> Store) \<times> mutation list" where
  "batchWorker s queue = (commitBatch s (take maxBatchSize queue), drop maxBatchSize queue)"

function drainMutations :: "Store \<Rightarrow> mutation list \<Rightarrow> persist_error option list \<times> Store" where
  "drainMutations s queue =
     (if queue = [] then ([], s)
      else
        (case batchWorker s queue of
           ((done1, s), queue) \<Rightarrow> (case drainMutations s queue of (done2, s) \<Rightarrow> (done1 @ done2, s))))"
  by pat_completeness auto
termination
  by (relation "measure (\<lambda>(s, q). length q)") (auto simp: batchWorker_def)

declare drainMutations.simps [simp del]

section \<open>Snapshots and recovery\<close>

definition saveSnapshotFromTree :: "(bytes \<Rightarrow> bytes) \<Rightarrow> Tree \<Rightarrow> persist_error + bytes option" where
  "saveSnapshotFromTree deflate target = res_bind (Save deflate target) (\<lambda>f. Inr (Some f))"

definition loadSnapshotIntoTree :: "(bytes \<Rightarrow> bytes) \<Rightarrow> bytes \<Rightarrow> Tree \<Rightarrow> persist_error + Tree" where
  "loadSnapshotIntoTree inflate f target =
     (case Load inflate f (\<lambda>domain records t. radix_Upsert t domain records) target of
        (Some err, _) \<Rightarrow> Inl err
      | (None, target) \<Rightarrow> Inr target)"

definition replayWALIntoTree :: "bytes option \<Rightarrow> Tree \<Rightarrow> persist_error + Tree" where
  "replayWALIntoTree wal target =
     (case wal of
        None \<Rightarrow> Inr target
      | Some f \<Rightarrow>
          (case Replay (\<lambda>domain records t. radix_Upsert t domain records) (\<lambda>domain t. radix_DeleteDomain t domain) f target of
             (None, target) \<Rightarrow> Inr target
           | (Some err, target) \<Rightarrow> if err \<noteq> ErrTruncated then Inl err else Inr target))"

text \<open>\<open>zone\<close> is the parsed zone file, if one is configured.\<close>

type_synonym zone_file = "(persist_error + (string \<times> RRSets) list) option"

definition loadZoneFileIntoTree :: "persist_error + (string \<times> RRSets) list \<Rightarrow> Tree \<Rightarrow> persist_error + Tree" where
  "loadZoneFileIntoTree parsed target =
     res_bind parsed (\<lambda>entries. Inr (foldl (\<lambda>t (domain, records). radix_Upsert t domain records) target entries))"

definition bootstrap ::
  "(bytes \<Rightarrow> bytes) \<Rightarrow> bytes option \<Rightarrow> zone_file \<Rightarrow> bool \<Rightarrow> Tree \<Rightarrow> persist_error + (bytes option \<times> Tree)" where
  "bootstrap deflate snap zone isReplica target =
     (if snap \<noteq> None then Inr (snap, target)
      else
        (case zone of
           Some parsed \<Rightarrow>
             res_bind (loadZoneFileIntoTree parsed target) (\<lambda>target.
               res_bind (saveSnapshotFromTree deflate target) (\<lambda>snap. Inr (snap, target)))
         | None \<Rightarrow>
             if isReplica then Inr (snap, target)
             else res_bind (saveSnapshotFromTree deflate target) (\<lambda>snap. Inr (snap, target))))"

definition openWAL :: "bytes option \<Rightarrow> Writer" where
  "openWAL wal = NewWriter (case wal of None \<Rightarrow> [] | Some f \<Rightarrow> f)"

definition Open ::
  "(bytes \<Rightarrow> bytes) \<Rightarrow> (bytes \<Rightarrow> bytes) \<Rightarrow> bytes option \<Rightarrow> bytes option \<Rightarrow> zone_file \<Rightarrow> bool \<Rightarrow> u64 \<Rightarrow> int \<Rightarrow> State \<Rightarrow>
   persist_error + Store" where
  "Open deflate inflate snap wal zone isReplica threshold interval st =
     (if threshold < MinCompactionThreshold then Inl ErrCompactionThresholdTooLow
      else if interval < MinCompactionInterval then Inl ErrCompactionIntervalTooLow
      else if snap = None \<and> wal \<noteq> None then Inl ErrUncleanState
      else
        res_bind (case snap of None \<Rightarrow> Inr radix_New | Some f \<Rightarrow> loadSnapshotIntoTree inflate f radix_New) (\<lambda>initialTree.
          res_bind (bootstrap deflate snap zone isReplica initialTree) (\<lambda>(snap, initialTree).
            res_bind (replayWALIntoTree wal initialTree) (\<lambda>initialTree.
              Inr \<lparr>so_state = Swap st initialTree, so_writer = openWAL wal, so_snap = snap,
                   so_mutationsCount = 0, so_threshold = threshold, so_compactCh = False\<rparr>))))"

section \<open>Compaction and reload\<close>

definition Compact :: "(bytes \<Rightarrow> bytes) \<Rightarrow> Store \<Rightarrow> persist_error option \<times> Store" where
  "Compact deflate s =
     (case saveSnapshotFromTree deflate (SnapshotTree (so_state s)) of
        Inl err \<Rightarrow> (Some err, s)
      | Inr snap \<Rightarrow>
          (let s = s\<lparr>so_snap := snap\<rparr>;
               s = s\<lparr>so_writer := wal_Flush (so_writer s)\<rparr>;
               s = s\<lparr>so_writer := NewWriter []\<rparr>
           in (None, s\<lparr>so_mutationsCount := 0\<rparr>)))"

text \<open>One turn of \<open>compactionLoop\<close>: \<open>tick\<close> says whether the timer or the channel fired.\<close>

definition compactionLoop :: "(bytes \<Rightarrow> bytes) \<Rightarrow> bool \<Rightarrow> Store \<Rightarrow> Store" where
  "compactionLoop deflate tick s =
     (if tick then (if so_mutationsCount s = 0 then s else snd (Compact deflate s))
      else if so_compactCh s then snd (Compact deflate (s\<lparr>so_compactCh := False\<rparr>))
      else s)"

definition reloadFromZoneFile ::
  "(bytes \<Rightarrow> bytes) \<Rightarrow> persist_error + (string \<times> RRSets) list \<Rightarrow> Store \<Rightarrow> persist_error + (Tree \<times> Store)" where
  "reloadFromZoneFile deflate parsed s =
     res_bind (loadZoneFileIntoTree parsed radix_New) (\<lambda>newTree.
       res_bind (saveSnapshotFromTree deflate newTree) (\<lambda>snap.
         Inr (newTree, s\<lparr>so_snap := snap, so_writer := NewWriter [], so_mutationsCount := 0\<rparr>)))"

definition reloadFromDisk :: "(bytes \<Rightarrow> bytes) \<Rightarrow> Store \<Rightarrow> persist_error + (Tree \<times> Store)" where
  "reloadFromDisk inflate s =
     (let s = s\<lparr>so_writer := wal_Flush (so_writer s)\<rparr> in
      res_bind (case so_snap s of None \<Rightarrow> Inr radix_New | Some f \<Rightarrow> loadSnapshotIntoTree inflate f radix_New) (\<lambda>newTree.
        res_bind (replayWALIntoTree (Some (wal_file (so_writer s))) newTree) (\<lambda>newTree. Inr (newTree, s))))"

definition ReloadState ::
  "(bytes \<Rightarrow> bytes) \<Rightarrow> (bytes \<Rightarrow> bytes) \<Rightarrow> zone_file \<Rightarrow> Store \<Rightarrow> persist_error + Store" where
  "ReloadState deflate inflate zone s =
     res_bind (case zone of Some parsed \<Rightarrow> reloadFromZoneFile deflate parsed s | None \<Rightarrow> reloadFromDisk inflate s)
       (\<lambda>(newTree, s). Inr (s\<lparr>so_state := Swap (so_state s) newTree\<rparr>))"

definition SnapshotChecksum :: "Store \<Rightarrow> persist_error + u32" where
  "SnapshotChecksum s = (case so_snap s of None \<Rightarrow> Inl ErrNotExist | Some f \<Rightarrow> ReadChecksum f)"

text \<open>\<open>Close\<close> waits for the batch worker, which drains the queue, and flushes the log.\<close>

definition store_Close :: "Store \<Rightarrow> mutation list \<Rightarrow> persist_error option list \<times> Store" where
  "store_Close s queue =
     (case drainMutations s queue of (errs, s) \<Rightarrow> (errs, s\<lparr>so_writer := wal_Flush (so_writer s)\<rparr>))"

section \<open>The serial of an SOA record\<close>

lemma skipDomainName_labels:
  "\<forall>l \<in> set ls. l \<noteq> [] \<and> length l \<le> MaxLabelLen \<Longrightarrow>
   skipDomainName (pre @ concat (map encode_label ls) @ 0 # post) (length pre) =
     Some (length pre + length (concat (map encode_label ls)) + 1)"
proof (induction ls arbitrary: pre)
  case Nil
  show ?case by (subst skipDomainName.simps) (simp add: nth_append)
next
  case (Cons l ls)
  then have l: "l \<noteq> []" "length l \<le> MaxLabelLen" by auto
  note e = encode_label_good [OF l]
  have u: "unat (word_of_nat (length l) :: byte) = length l" using l by (simp add: unat_of_nat take_bit_nat_eq_self)
  from Cons.IH [of "pre @ encode_label l"] Cons.prems
  show ?case by (subst skipDomainName.simps) (use l u in \<open>simp add: e(1) nth_append Let_def add.assoc\<close>)
qed

lemma skipDomainName_encoded:
  assumes "ValidateDomain ul name = Inr d"
  shows "skipDomainName (pre @ EncodeDomainName ul' d @ post) (length pre) = Some (length (pre @ EncodeDomainName ul' d))"
proof -
  obtain ls where "EncodeDomainName ul' d = concat (map encode_label ls) @ [0]"
    and "\<forall>l \<in> set ls. l \<noteq> [] \<and> length l \<le> MaxLabelLen"
  proof (cases "d = ''.''")
    case True
    have "TrimSpace ''.'' = ''.''" by (rule TrimSpace_host) (simp add: host_char_def)
    then have "EncodeDomainName ul' d = concat (map encode_label []) @ [0]"
      by (simp add: True EncodeDomainName_def ToLower_def is_ascii_def lower_ascii_def)
    then show thesis using that [of "[]"] by simp
  next
    case False
    then show thesis using that Encode_normal normal_name_good ValidateDomain_normal [OF assms] by blast
  qed
  with skipDomainName_labels [of ls pre post] show ?thesis by simp
qed

text \<open>The serial of an SOA record goes up by one, modulo \<open>2\<^sup>3\<^sup>2\<close>, and nothing else changes: this
  holds for record data made of two encoded names, the serial and the four timers.  On any other
  data the length at least is kept.\<close>

theorem incrementSOASerial_serial:
  assumes "ValidateDomain ul m = Inr mname" and "ValidateDomain ul r = Inr rname" and "length timers = 16"
  shows "incrementSOASerial (EncodeDomainName ul mname @ EncodeDomainName ul rname @ put32 serial @ timers) =
      EncodeDomainName ul mname @ EncodeDomainName ul rname @ put32 (serial + 1) @ timers \<and>
    length (incrementSOASerial rdata) = length rdata"
proof -
  let ?m = "EncodeDomainName ul mname" and ?r = "EncodeDomainName ul rname"
  have "skipDomainName (?m @ ?r @ put32 serial @ timers) 0 = Some (length ?m)"
    using skipDomainName_encoded [OF assms(1), of "[]"] by simp
  moreover have "skipDomainName (?m @ ?r @ put32 serial @ timers) (length ?m) = Some (length (?m @ ?r))"
    by (rule skipDomainName_encoded [OF assms(2)])
  moreover have "sub_slice (?m @ ?r @ put32 serial @ timers) (length (?m @ ?r)) (length (?m @ ?r) + 4) = put32 serial"
    by (simp add: sub_slice_def)
  moreover have "put32_at (?m @ ?r @ put32 serial @ timers) (length (?m @ ?r)) v = ?m @ ?r @ put32 v @ timers" for v
    by (simp add: put32_at_def copy_at_fit)
  ultimately show ?thesis
    using assms(3) by (auto simp: incrementSOASerial_def split: option.splits)
qed

theorem incrementSOASerial_serial_witness:
  "incrementSOASerial (EncodeDomainName id ''a'' @ EncodeDomainName id ''a'' @ put32 0xFFFFFFFF @ replicate 16 0) =
   EncodeDomainName id ''a'' @ EncodeDomainName id ''a'' @ put32 0 @ replicate 16 0"
proof -
  have "ValidateDomain id ''a'' = Inr ''a''" by code_simp
  from incrementSOASerial_serial [OF this this, of "replicate 16 0" "0xFFFFFFFF"] show ?thesis by simp
qed

section \<open>What a commit logs\<close>

lemma length_join: "xs \<noteq> [] \<Longrightarrow> Suc (length (join_with c xs)) = sum_list (map (\<lambda>x. Suc (length x)) xs)"
proof (induction xs)
  case (Cons x xs)
  then show ?case by (cases "xs = []") (simp_all add: join_with_Cons)
qed simp

lemma length_dotted_labels: "length (dotted (labels d)) \<le> length d"
proof -
  let ?xs = "split_on CHR ''.'' d" and ?ys = "filter (\<lambda>l. l \<noteq> []) (split_on CHR ''.'' d)"
  have d: "dotted (labels d) = join_with CHR ''.'' (map lower_ascii ?ys)"
    by (simp add: dotted_def labels_split split_labels_def rev_map [symmetric] rev_filter [symmetric])
  show ?thesis
  proof (cases "?ys = []")
    case True
    then show ?thesis using d by simp
  next
    case False
    have "sum_list (map (\<lambda>x. Suc (length x)) (map lower_ascii (filter P xs))) \<le> sum_list (map (\<lambda>x. Suc (length x)) xs)"
      for P and xs :: "string list"
      by (induction xs) auto
    then have "sum_list (map (\<lambda>x. Suc (length x)) (map lower_ascii ?ys)) \<le> sum_list (map (\<lambda>x. Suc (length x)) ?xs)" .
    moreover have "Suc (length (dotted (labels d))) = sum_list (map (\<lambda>x. Suc (length x)) (map lower_ascii ?ys))"
      unfolding d by (rule length_join) (use False in simp)
    moreover have "Suc (length d) = sum_list (map (\<lambda>x. Suc (length x)) ?xs)"
      using length_join [of ?xs "CHR ''.''"] by simp
    ultimately show ?thesis by linarith
  qed
qed

abbreviation run_tree :: "Tree \<Rightarrow> mutation list \<Rightarrow> Tree" where
  "run_tree \<equiv> run_mutations radix_Upsert radix_DeleteDomain"

abbreviation replay_tree :: "bytes \<Rightarrow> Tree \<Rightarrow> persist_error option \<times> Tree" where
  "replay_tree \<equiv> Replay (\<lambda>domain records t. radix_Upsert t domain records) (\<lambda>domain t. radix_DeleteDomain t domain)"

lemma call_back_tree:
  "fold (call_back (\<lambda>d rs t. radix_Upsert t d rs) (\<lambda>d t. radix_DeleteDomain t d)) ms t = run_tree t ms"
proof (induction ms arbitrary: t)
  case (Cons m ms)
  then show ?case by (cases m) simp_all
qed simp

lemma storable_step:
  assumes "tree_inv t" and "storable t" and "loggable m"
  shows "storable (apply_mutation radix_Upsert radix_DeleteDomain t m)"
proof (cases m)
  case (Upsert d rs)
  have "abs_map (root (radix_Upsert t d rs)) = (abs_map (root t))(labels d := if rs = [] then None else Some rs)"
    by (rule rt.cont_upsert [OF assms(1)])
  with assms(2,3) length_dotted_labels [of d] show ?thesis
    by (auto simp: Upsert storable_def split: if_splits)
next
  case (DeleteDomain d)
  have "abs_map (root (radix_DeleteDomain t d)) = (abs_map (root t))(labels d := None)"
    by (rule rt.cont_delete [OF assms(1)])
  with assms(2) show ?thesis by (auto simp: DeleteDomain storable_def split: if_splits)
qed

lemma storable_run: "tree_inv t \<Longrightarrow> storable t \<Longrightarrow> list_all loggable ms \<Longrightarrow> storable (run_tree t ms)"
  by (induction ms arbitrary: t) (simp_all add: storable_step rt.apply_step)

lemma bump_soa_class: "list_all (\<lambda>r. rr_Class r = c) (snd (bump_soa rs)) = list_all (\<lambda>r. rr_Class r = c) rs"
  by (induction rs) (auto split: prod.split)

lemma bump_soa_none: "bump_soa rs = (False, rs1) \<Longrightarrow> rs1 = rs"
  by (induction rs arbitrary: rs1) (auto split: if_splits prod.splits)

text \<open>The mutation that is logged for an operation: serials in it are bumped.\<close>

fun serial_bumped :: "mutation \<Rightarrow> mutation" where
  "serial_bumped (Upsert d rs) = Upsert d (snd (bump_soa rs))"
| "serial_bumped (DeleteDomain d) = DeleteDomain d"

lemma restorable_bumped [simp]: "restorable (serial_bumped m) = restorable m"
  by (cases m) (simp_all add: bump_soa_class)

text \<open>What one operation has done: some mutations, logged and applied in the same order.\<close>

definition done_by :: "Tree \<Rightarrow> Writer \<Rightarrow> mutation list \<Rightarrow> Tree \<Rightarrow> Writer \<Rightarrow> bool" where
  "done_by t w ms t' w' \<longleftrightarrow> list_all loggable ms \<and> appended w (concat (map frame ms)) w' \<and> t' = run_tree t ms"

lemma done_by_Nil: "writer_ok w \<Longrightarrow> done_by t w [] t w"
  by (simp add: done_by_def appended_refl)

lemma done_by_append: "done_by t w ms t1 w1 \<Longrightarrow> done_by t1 w1 ms' t2 w2 \<Longrightarrow> done_by t w (ms @ ms') t2 w2"
  by (auto simp: done_by_def run_mutations_append dest: appended_trans)

lemma done_by_op:
  assumes "writer_ok w" and "append_op w m = (None, w')" and "restorable m"
  shows "done_by t w [m] (apply_mutation radix_Upsert radix_DeleteDomain t m) w'"
  using append_op_ok [OF assms(1,2)] assms(3) by (simp add: done_by_def)

lemma tree_class:
  assumes "tree_inv t" and "storable t" and "radix_Get t d = Some rs"
  shows "list_all (\<lambda>r. rr_Class r = ClassIN) rs"
  using assms by (auto simp: storable_def rt.get_cont)

lemma autoIncrementSOA_own:
  assumes "bump_soa rs = (True, rs1)"
  shows "autoIncrementSOA t w d rs = (None, rs1, t, w)"
  by (simp add: autoIncrementSOA_def assms)

lemma autoIncrementSOA_none:
  assumes "bump_soa rs = (False, rs1)" and "a = findApexDomain (radix_Resolve t d TypeSOA) d" and "a = [] \<or> a = d \<or> radix_Get t a = None"
  shows "autoIncrementSOA t w d rs = (None, rs, t, w)"
  unfolding autoIncrementSOA_def assms(1) Let_def assms(2) [symmetric] using assms(3) by auto

lemma autoIncrementSOA_apex:
  assumes "bump_soa rs = (False, rs1)" and "a = findApexDomain (radix_Resolve t d TypeSOA) d" and "\<not> (a = [] \<or> a = d)" and "radix_Get t a = Some ar" and "bump_soa ar = (b, up)"
  shows "autoIncrementSOA t w d rs = (if b then case AppendUpsert w a up of (Some err, w) \<Rightarrow> (Some err, rs, t, w)
     | (None, w) \<Rightarrow> (None, rs, radix_Upsert t a up, w) else (None, rs, t, w))"
  unfolding autoIncrementSOA_def assms(1) Let_def assms(2) [symmetric] using assms(3-5) by (auto split: prod.split)

lemma autoIncrementSOA_done:
  assumes ok: "autoIncrementSOA t w d rs = (None, rs', t', w')" and inv: "writer_ok w" "tree_inv t" "storable t"
  shows "rs' = snd (bump_soa rs) \<and> (\<exists>ms. done_by t w ms t' w')"
proof -
  define a where "a = findApexDomain (radix_Resolve t d TypeSOA) d"
  obtain b bumped where b: "bump_soa rs = (b, bumped)" by (cases "bump_soa rs")
  have same: "bumped = rs" if "\<not> b" using bump_soa_none [of rs bumped] b that by simp
  consider "b" | "\<not> b" "a = [] \<or> a = d \<or> radix_Get t a = None"
    | ar where "\<not> b" "\<not> (a = [] \<or> a = d)" "radix_Get t a = Some ar" by auto
  then show ?thesis
  proof cases
    case 1
    with b have "rs' = bumped" "t' = t" "w' = w" using ok autoIncrementSOA_own [of rs bumped t w d] by simp_all
    then show ?thesis using done_by_Nil [OF inv(1)] b by auto
  next
    case 2
    with b have "rs' = rs" "t' = t" "w' = w" using ok autoIncrementSOA_none [OF _ a_def 2(2), of rs bumped w] by simp_all
    then show ?thesis using done_by_Nil [OF inv(1)] same [OF 2(1)] b by auto
  next
    case (3 ar)
    obtain b2 up where up: "bump_soa ar = (b2, up)" by (cases "bump_soa ar")
    obtain r w2 where w2: "AppendUpsert w a up = (r, w2)" by (cases "AppendUpsert w a up")
    have e: "(None, rs', t', w') = (if b2 then case r of Some err \<Rightarrow> (Some err, rs, t, w2)
        | None \<Rightarrow> (None, rs, radix_Upsert t a up, w2) else (None, rs, t, w))"
      using ok autoIncrementSOA_apex [OF _ a_def 3(2,3) up, of rs bumped w] 3(1) b w2
      by (cases b2; cases r) simp_all
    show ?thesis
    proof (cases "b2 \<and> r = None")
      case True
      have "list_all (\<lambda>r. rr_Class r = ClassIN) up"
        using tree_class [OF inv(2,3) 3(3)] bump_soa_class [of ClassIN ar] up by simp
      then have "done_by t w [Upsert a up] t' w'"
        using done_by_op [of w "Upsert a up" w' t] inv(1) True e w2 by simp
      then show ?thesis using True e same [OF 3(1)] b by auto
    next
      case False
      then have "rs' = rs" "t' = t" "w' = w" using e by (auto split: if_splits option.splits)
      then show ?thesis using done_by_Nil [OF inv(1)] same [OF 3(1)] b by auto
    qed
  qed
qed

lemma done_by_inv:
  assumes "done_by t w ms t' w'" and "tree_inv t" and "storable t"
  shows "tree_inv t'" and "storable t'" and "writer_ok w'"
  using assms storable_run rt.invar_run by (auto simp: done_by_def appended_def)

lemma applyOperation_done:
  assumes "applyOperation t w m = (None, t', w')" and "writer_ok w" and "tree_inv t" and "storable t" and "restorable m"
  shows "\<exists>ms. done_by t w (ms @ [serial_bumped m]) t' w'"
proof -
  define d where "d = mutation_domain m"
  define rs where "rs = (case m of Upsert _ rs \<Rightarrow> rs | DeleteDomain _ \<Rightarrow> [])"
  obtain rs1 t1 w1 m1 where a: "autoIncrementSOA t w d rs = (None, rs1, t1, w1)"
    and m1: "m1 = (case m of Upsert _ _ \<Rightarrow> Upsert d rs1 | DeleteDomain _ \<Rightarrow> DeleteDomain d)"
    and op: "append_op w1 m1 = (None, w')" "t' = apply_mutation radix_Upsert radix_DeleteDomain t1 m1"
    using assms(1) by (cases m) (auto simp: applyUpsert_def applyDelete_def d_def rs_def split: option.splits prod.splits)
  from autoIncrementSOA_done [OF a assms(2-4)] obtain ms where ms: "done_by t w ms t1 w1"
    and rs1: "rs1 = snd (bump_soa rs)" by blast
  have m: "m1 = serial_bumped m" by (cases m) (simp_all add: m1 d_def rs_def rs1)
  with done_by_op [OF done_by_inv(3) [OF ms assms(3,4)] op(1), of t1] op(2) assms(5)
  have "done_by t1 w1 [serial_bumped m] t' w'" by simp
  with done_by_append [OF ms] show ?thesis by blast
qed

lemma trigger_fields [simp]:
  "so_state (triggerCompactionIfNeeded s) = so_state s" "so_writer (triggerCompactionIfNeeded s) = so_writer s"
  "so_snap (triggerCompactionIfNeeded s) = so_snap s"
  by (simp_all add: triggerCompactionIfNeeded_def Let_def)

lemma apply_batch_fields: "apply_batch t s batch i = (r, t', s') \<Longrightarrow> so_snap s' = so_snap s \<and> so_state s' = so_state s"
  by (induction t s batch i rule: apply_batch.induct) (force split: prod.splits option.splits)+

lemma apply_batch_index: "apply_batch t s batch i = (Some (k, e), t', s') \<Longrightarrow> i \<le> k \<and> k < i + length batch"
  by (induction t s batch i rule: apply_batch.induct) (force split: prod.splits option.splits)+

lemma apply_batch_done:
  assumes "apply_batch t s batch i = (None, t', s')" and "writer_ok (so_writer s)" and "tree_inv t" and "storable t"
    and "list_all restorable batch"
  shows "\<exists>ms. subseq (map serial_bumped batch) ms \<and> done_by t (so_writer s) ms t' (so_writer s')"
  using assms
proof (induction t s batch i rule: apply_batch.induct)
  case (1 t s i)
  then show ?case using done_by_Nil [of "so_writer s" t] by auto
next
  case (2 t s op batch i)
  obtain t1 w1 where op: "applyOperation t (so_writer s) op = (None, t1, w1)"
    using 2(2) by (auto split: prod.splits option.splits)
  from applyOperation_done [OF op 2(3-5)] 2(6)
  obtain ms1 where ms1: "done_by t (so_writer s) (ms1 @ [serial_bumped op]) t1 w1" by auto
  let ?s = "triggerCompactionIfNeeded (s\<lparr>so_writer := w1\<rparr>)"
  have rest: "apply_batch t1 ?s batch (i + 1) = (None, t', s')" using 2(2) op by simp
  have "writer_ok (so_writer ?s)" "list_all restorable batch"
    using done_by_inv(3) [OF ms1 2(4,5)] 2(6) by simp_all
  from 2(1) [OF op [symmetric] refl refl rest this(1) done_by_inv(1,2) [OF ms1 2(4,5)] this(2)]
  obtain ms2 where "subseq (map serial_bumped batch) ms2" "done_by t1 w1 ms2 t' (so_writer s')" by auto
  with done_by_append [OF ms1, of ms2] show ?case
    by (intro exI [of _ "ms1 @ serial_bumped op # ms2"]) (auto simp: list_emb_append2 subseq_Cons2_iff intro!: list_emb_append2)
qed

section \<open>Recovery\<close>

text \<open>The snapshot file holds a tree; the files of a store in order hold the tree in memory.\<close>

definition snap_holds :: "(bytes \<Rightarrow> bytes) \<Rightarrow> bytes option \<Rightarrow> Tree \<Rightarrow> bool" where
  "snap_holds inflate snap t \<longleftrightarrow>
     (\<exists>f. snap = Some f \<and> loadSnapshotIntoTree inflate f radix_New = Inr t) \<and> tree_inv t \<and> storable t"

definition store_ok :: "(bytes \<Rightarrow> bytes) \<Rightarrow> Store \<Rightarrow> bool" where
  "store_ok inflate s \<longleftrightarrow>
     (\<exists>t ms. snap_holds inflate (so_snap s) t \<and> list_all loggable ms \<and>
        appended (NewWriter (concat (map frame ms))) [] (so_writer s) \<and> st_tree (so_state s) = run_tree t ms)"

lemma store_ok_tree: "store_ok inflate s \<Longrightarrow> tree_inv (st_tree (so_state s)) \<and> storable (st_tree (so_state s))"
  by (auto simp: store_ok_def snap_holds_def storable_run rt.invar_run)

lemma replay_tree_log: "list_all loggable ms \<Longrightarrow> replay_tree (concat (map frame ms)) t = (None, run_tree t ms)"
  by (simp add: wal.run_log call_back_tree)

lemma replay_tree_prefix:
  assumes "list_all loggable old" and "list_all loggable new" and "prefix p (concat (map frame new))"
  shows "\<exists>k \<le> length new. \<exists>e. replay_tree (concat (map frame old) @ p) t = (e, run_tree (run_tree t old) (take k new)) \<and>
    (e = None \<or> e = Some ErrTruncated)"
proof -
  let ?f = "call_back (\<lambda>d rs t. radix_Upsert t d rs) (\<lambda>d t. radix_DeleteDomain t d)"
  from wal.run_prefix [OF assms(2,3), of "\<lambda>d rs t. radix_Upsert t d rs" "\<lambda>d t. radix_DeleteDomain t d" "fold ?f old t"]
  obtain k e where k: "k \<le> length new" and r: "replay_tree p (fold ?f old t) = (e, fold ?f (take k new) (fold ?f old t))"
    and e: "\<forall>err. e = Some err \<longrightarrow> err = ErrTruncated" by blast
  have "replay_tree (concat (map frame old) @ p) t = replay_tree p (fold ?f old t)"
    by (rule wal.run_frames [OF assms(1)])
  with r k e show ?thesis unfolding call_back_tree by (cases e) auto
qed

lemma stray_tail: "replay_frame [OpUpsert] = Inl ErrTruncated"
  using upsert_frame(2) [of "''a''" "[]" "[OpUpsert]"] by (simp add: sealed_def strict_prefix_def enc_record_def put16_def)

definition limits_ok :: "u64 \<Rightarrow> int \<Rightarrow> bool" where
  "limits_ok threshold interval \<longleftrightarrow> MinCompactionThreshold \<le> threshold \<and> MinCompactionInterval \<le> interval"

lemma Open_recovers:
  assumes "snap_holds inflate snap t" and "replay_tree wal t = (e, t')" and "e = None \<or> e = Some ErrTruncated"
    and "limits_ok threshold interval"
  shows "Open deflate inflate snap (Some wal) zone isReplica threshold interval st =
    Inr \<lparr>so_state = Swap st t', so_writer = NewWriter wal, so_snap = snap, so_mutationsCount = 0,
         so_threshold = threshold, so_compactCh = False\<rparr>"
  using assms by (auto simp: Open_def snap_holds_def bootstrap_def replayWALIntoTree_def openWAL_def limits_ok_def
      not_less [symmetric])

lemma Open_tree:
  assumes "snap_holds inflate snap t" and "replay_tree wal t = (e, t')" and "e = None \<or> e = Some ErrTruncated"
    and "limits_ok threshold interval"
  obtains o' where "Open deflate inflate snap (Some wal) zone isReplica threshold interval st = Inr o'"
    and "st_tree (so_state o') = t'"
  using Open_recovers [OF assms, of deflate zone isReplica st] that by (simp add: Swap_def)

lemma commitBatch_done:
  assumes "appended (NewWriter f) [] (so_writer s)" and "tree_inv (st_tree (so_state s))" and "storable (st_tree (so_state s))"
    and "commitBatch s batch = (errs, s')" and "list_all (\<lambda>e. e = None) errs" and "list_all restorable batch"
  shows "\<exists>ms. subseq (map serial_bumped batch) ms \<and> list_all loggable ms \<and> so_snap s' = so_snap s \<and>
    appended (NewWriter (f @ concat (map frame ms))) [] (so_writer s') \<and>
    st_tree (so_state s') = run_tree (st_tree (so_state s)) ms"
proof (cases "batch = []")
  case True
  with assms(1,4) show ?thesis by (intro exI [of _ "[]"]) (auto simp: commitBatch_def)
next
  case False
  obtain failed t1 s1 where r: "apply_batch (st_tree (so_state s)) s batch 0 = (failed, t1, s1)"
    by (cases "apply_batch (st_tree (so_state s)) s batch 0")
  have f: "failed = None"
  proof (rule ccontr)
    assume "failed \<noteq> None"
    then obtain k e where "failed = Some (k, e)" by auto
    then have k: "k < length batch" and "errs = map (\<lambda>i. if k \<le> i then Some e else None) [0..<length batch]"
      using apply_batch_index [of _ s batch 0 k e] r assms(4) False by (auto simp: commitBatch_def Let_def)
    then have "errs ! k = Some e" "k < length errs" by simp_all
    then show False using assms(5) by (auto simp: list_all_length)
  qed
  have w: "writer_ok (so_writer s)" "wal_bw (so_writer s) = []" "wal_file (so_writer s) = f"
    using assms(1) by (auto simp: appended_def NewWriter_def)
  from apply_batch_done [OF r [unfolded f] w(1) assms(2,3,6)]
  obtain ms where "subseq (map serial_bumped batch) ms" "done_by (st_tree (so_state s)) (so_writer s) ms t1 (so_writer s1)"
    by blast
  moreover have "s' = s1\<lparr>so_state := Update (so_state s1) (\<lambda>_. t1), so_writer := wal_Flush (so_writer s1)\<rparr>"
    using assms(4) False r f by (simp add: commitBatch_def Let_def)
  ultimately show ?thesis using apply_batch_fields [OF r] w
    by (auto simp: done_by_def appended_def wal_Flush_def writer_ok_def NewWriter_def Update_def)
qed

lemma commitBatch_store_ok:
  assumes "store_ok inflate s" and "commitBatch s batch = (errs, s')" and "list_all (\<lambda>e. e = None) errs"
    and "list_all restorable batch"
  shows "store_ok inflate s'"
proof -
  from assms(1) obtain t old where t: "snap_holds inflate (so_snap s) t" and old: "list_all loggable old"
    and w: "appended (NewWriter (concat (map frame old))) [] (so_writer s)" and tr: "st_tree (so_state s) = run_tree t old"
    unfolding store_ok_def by blast
  from commitBatch_done [OF w _ _ assms(2-4)] store_ok_tree [OF assms(1)]
  obtain ms where "list_all loggable ms" "so_snap s' = so_snap s"
    "appended (NewWriter (concat (map frame (old @ ms)))) [] (so_writer s')"
    "st_tree (so_state s') = run_tree (st_tree (so_state s)) ms" by auto
  then show ?thesis
    unfolding store_ok_def using t old tr
    by (auto simp: run_mutations_append intro!: exI [of _ t] exI [of _ "old @ ms"])
qed

lemma store_ok_disk:
  assumes "store_ok inflate s"
  obtains t where "snap_holds inflate (so_snap s) t" and "replay_tree (wal_file (so_writer s)) t = (None, st_tree (so_state s))"
    and "wal_bw (so_writer s) = []"
  using assms replay_tree_log unfolding store_ok_def by (auto simp: appended_def NewWriter_def)

lemma store_ok_move:
  assumes "store_ok inflate s" and "so_snap s' = so_snap s" and "wal_file (so_writer s') = wal_file (so_writer s)"
    and "wal_bw (so_writer s') = []" and "writer_ok (so_writer s')" and "st_tree (so_state s') = st_tree (so_state s)"
  shows "store_ok inflate s'"
  using assms unfolding store_ok_def by (auto simp: appended_def NewWriter_def)

lemma Compact_store_ok:
  assumes "\<And>x. inflate (deflate x) = x" and "store_ok inflate s" and "Compact deflate s = (None, s')"
  shows "store_ok inflate s' \<and> so_state s' = so_state s \<and> wal_file (so_writer s') = [] \<and>
    snap_holds inflate (so_snap s') (st_tree (so_state s))"
proof -
  note inv = store_ok_tree [OF assms(2)]
  obtain f where f: "Save deflate (st_tree (so_state s)) = Inr f"
    and s': "s' = s\<lparr>so_snap := Some f, so_writer := NewWriter [], so_mutationsCount := 0\<rparr>"
    using assms(3) by (auto simp: Compact_def saveSnapshotFromTree_def SnapshotTree_def res_bind_def Let_def split: sum.splits)
  have "snap_holds inflate (so_snap s') (st_tree (so_state s))"
    using inv Save_Load [OF assms(1) _ _ f] by (simp add: snap_holds_def s' loadSnapshotIntoTree_def)
  then show ?thesis
    by (auto simp: store_ok_def s' appended_refl NewWriter_def writer_ok_New [unfolded NewWriter_def]
        intro!: exI [of _ "st_tree (so_state s)"] exI [of _ "[]"])
qed

text \<open>C5: commits are durable.  When a batch is committed without errors, the store stays in order,
  and the tree in memory is the old one after the logged mutations, which contain every operation
  of the batch, in order, with bumped serials.  Opening the files again gives the tree in memory;
  after a crash in the middle of the write it gives the tree after some of the first of these
  mutations, so no record is half written.\<close>

theorem commit_durable:
  assumes "store_ok inflate s" and "commitBatch s batch = (errs, s')" and "list_all (\<lambda>e. e = None) errs"
    and "list_all restorable batch" and "limits_ok threshold interval"
  shows "store_ok inflate s' \<and>
    (\<exists>ms. subseq (map serial_bumped batch) ms \<and> st_tree (so_state s') = run_tree (st_tree (so_state s)) ms \<and>
      (\<forall>p. prefix (wal_file (so_writer s)) p \<and> prefix p (wal_file (so_writer s')) \<longrightarrow>
        (\<exists>o' k. Open deflate inflate (so_snap s') (Some p) zone isReplica threshold interval st = Inr o' \<and>
           st_tree (so_state o') = run_tree (st_tree (so_state s)) (take k ms) \<and>
           (p = wal_file (so_writer s') \<longrightarrow> st_tree (so_state o') = st_tree (so_state s')))))"
proof -
  from assms(1) obtain t old where t: "snap_holds inflate (so_snap s) t" and old: "list_all loggable old"
    and w: "appended (NewWriter (concat (map frame old))) [] (so_writer s)" and tr: "st_tree (so_state s) = run_tree t old"
    unfolding store_ok_def by blast
  from commitBatch_done [OF w _ _ assms(2-4)] store_ok_tree [OF assms(1)]
  obtain ms where ms: "subseq (map serial_bumped batch) ms" "list_all loggable ms" "so_snap s' = so_snap s"
    and w': "appended (NewWriter (concat (map frame (old @ ms)))) [] (so_writer s')"
    and tr': "st_tree (so_state s') = run_tree (st_tree (so_state s)) ms" by auto
  have "\<exists>o' k. Open deflate inflate (so_snap s') (Some p) zone isReplica threshold interval st = Inr o' \<and>
      st_tree (so_state o') = run_tree (st_tree (so_state s)) (take k ms) \<and>
      (p = wal_file (so_writer s') \<longrightarrow> st_tree (so_state o') = st_tree (so_state s'))"
    if "prefix (wal_file (so_writer s)) p" "prefix p (wal_file (so_writer s'))" for p
  proof (cases "p = wal_file (so_writer s')")
    case True
    have "replay_tree p t = (None, run_tree t (old @ ms))"
      using replay_tree_log [of "old @ ms" t] old ms(2) w' True by (simp add: appended_def NewWriter_def)
    then obtain o' where "Open deflate inflate (so_snap s') (Some p) zone isReplica threshold interval st = Inr o'"
      and "st_tree (so_state o') = run_tree t (old @ ms)"
      using t ms(3) assms(5) by (metis Open_tree)
    then show ?thesis using tr tr' by (intro exI [of _ o'] exI [of _ "length ms"]) (simp add: run_mutations_append)
  next
    case False
    from that obtain q where p: "p = concat (map frame old) @ q" and q: "prefix q (concat (map frame ms))"
      using w w' by (auto simp: appended_def NewWriter_def prefix_def)
    from replay_tree_prefix [OF old ms(2) q, of t] obtain k e
      where "replay_tree p t = (e, run_tree (run_tree t old) (take k ms))" "e = None \<or> e = Some ErrTruncated"
      unfolding p by blast
    then obtain o' where "Open deflate inflate (so_snap s') (Some p) zone isReplica threshold interval st = Inr o'"
      and "st_tree (so_state o') = run_tree (run_tree t old) (take k ms)"
      using t ms(3) assms(5) by (metis Open_tree)
    then show ?thesis using tr False by auto
  qed
  then show ?thesis using ms(1) tr' commitBatch_store_ok [OF assms(1-4)] by blast
qed


text \<open>C31: a torn log becomes unreadable by the next commit.  A crash that leaves the first byte of
  an upsert at the end of the log is tolerated by \<open>Open\<close>, which does not cut the byte off; the
  next batch is committed without errors, and the store cannot be opened any more.\<close>

theorem torn_tail_poisons_log:
  assumes "store_ok inflate s" and "limits_ok threshold interval"
    and "Open deflate inflate (so_snap s) (Some (wal_file (so_writer s) @ [OpUpsert])) zone isReplica threshold interval st = Inr s1"
    and "commitBatch s1 batch = (errs, s2)" and "list_all (\<lambda>e. e = None) errs" and "list_all restorable batch" and "batch \<noteq> []"
  shows "st_tree (so_state s1) = st_tree (so_state s) \<and>
    Open deflate inflate (so_snap s2) (Some (wal_file (so_writer s2))) zone isReplica threshold interval st = Inl wal_ErrCorruptedData"
proof -
  let ?u = "\<lambda>d rs t. radix_Upsert t d rs" and ?d = "\<lambda>d t. radix_DeleteDomain t d"
  from assms(1) obtain t old where t: "snap_holds inflate (so_snap s) t" and old: "list_all loggable old"
    and w: "wal_file (so_writer s) = concat (map frame old)" and tr: "st_tree (so_state s) = run_tree t old"
    unfolding store_ok_def by (auto simp: appended_def NewWriter_def)
  have stray: "replay_tree (concat (map frame old) @ q) t = replay_tree q (run_tree t old)" for q
    using wal.run_frames [OF old, of ?u ?d q t] by (simp add: call_back_tree)
  have "replay_tree (wal_file (so_writer s) @ [OpUpsert]) t = (Some ErrTruncated, run_tree t old)"
    by (simp add: w stray Replay_turn(3) stray_tail)
  from Open_recovers [OF t this _ assms(2)] assms(3)
  have s1: "s1 = \<lparr>so_state = Swap st (run_tree t old), so_writer = NewWriter (wal_file (so_writer s) @ [OpUpsert]),
      so_snap = so_snap s, so_mutationsCount = 0, so_threshold = threshold, so_compactCh = False\<rparr>" by simp
  from commitBatch_done [OF _ _ _ assms(4-6), of "wal_file (so_writer s) @ [OpUpsert]"] store_ok_tree [OF assms(1)]
  obtain ms where ms: "subseq (map serial_bumped batch) ms" "list_all loggable ms" "so_snap s2 = so_snap s"
    and w2: "wal_file (so_writer s2) = concat (map frame old) @ OpUpsert # concat (map frame ms)"
    by (auto simp: s1 appended_refl Swap_def tr appended_def NewWriter_def w writer_ok_def)
  from ms(1) assms(7) obtain m ms' where m: "ms = m # ms'" by (cases ms) auto
  have "replay_tree (wal_file (so_writer s2)) t = (Some wal_ErrCorruptedData, run_tree t old)"
    unfolding w2 stray using stray_opcode [of m "concat (map frame ms')"] ms(2) by (simp add: m Replay_turn(3))
  then have "Open deflate inflate (so_snap s2) (Some (wal_file (so_writer s2))) zone isReplica threshold interval st = Inl wal_ErrCorruptedData"
    using t assms(2) by (auto simp: ms(3) Open_def snap_holds_def bootstrap_def replayWALIntoTree_def limits_ok_def not_less [symmetric])
  with tr show ?thesis by (simp add: s1 Swap_def)
qed

text \<open>C30: every queued operation is answered.  \<open>drainMutations\<close> ends, with one reply per operation.\<close>

theorem drainMutations_replies: "length (fst (drainMutations s queue)) = length queue"
proof (induction s queue rule: drainMutations.induct)
  case (1 s queue)
  show ?case
  proof (cases "queue = []")
    case False
    obtain errs s1 where c: "commitBatch s (take maxBatchSize queue) = (errs, s1)" by (cases "commitBatch s (take maxBatchSize queue)")
    then have "length errs = length (take maxBatchSize queue)"
      by (auto simp: commitBatch_def Let_def split: if_splits prod.splits)
    moreover obtain rest s2 where d: "drainMutations s1 (drop maxBatchSize queue) = (rest, s2)"
      by (cases "drainMutations s1 (drop maxBatchSize queue)")
    ultimately show ?thesis
      using 1 [OF False, of "(errs, s1)" "drop maxBatchSize queue" errs s1] c False
      by (subst drainMutations.simps) (simp add: batchWorker_def)
  qed (simp add: drainMutations.simps)
qed

section \<open>The running store\<close>

text \<open>The goroutines of a store interleave under its mutex: clients enqueue, the batch worker commits,
  the compaction loop fires, the state is reloaded from disk, and the process is killed and
  started again, which loses the queue.  Commits are those without errors; a process killed in the
  middle of a commit is the subject of the two properties on crashes above.\<close>

inductive store_step ::
  "(bytes \<Rightarrow> bytes) \<Rightarrow> (bytes \<Rightarrow> bytes) \<Rightarrow> Store \<times> mutation list \<Rightarrow> Store \<times> mutation list \<Rightarrow> bool"
  for deflate inflate where
  enqueue: "restorable m \<Longrightarrow> length q < defaultMutationQueueCap \<Longrightarrow> store_step deflate inflate (s, q) (s, q @ [m])"
| commit: "batchWorker s q = ((errs, s'), q') \<Longrightarrow> list_all (\<lambda>e. e = None) errs \<Longrightarrow> store_step deflate inflate (s, q) (s', q')"
| compact: "store_step deflate inflate (s, q) (compactionLoop deflate tick s, q)"
| reload: "ReloadState deflate inflate None s = Inr s' \<Longrightarrow> store_step deflate inflate (s, q) (s', q)"
| restart: "Open deflate inflate (so_snap s) (Some (wal_file (so_writer s))) zone isReplica threshold interval st = Inr s' \<Longrightarrow>
    store_step deflate inflate (s, q) (s', [])"

lemma Compact_any_ok:
  assumes "\<And>x. inflate (deflate x) = x" and "store_ok inflate s"
  shows "store_ok inflate (snd (Compact deflate s))"
proof (cases "fst (Compact deflate s)")
  case None
  then show ?thesis using Compact_store_ok [OF assms, of "snd (Compact deflate s)"] by (simp add: prod_eq_iff)
next
  case (Some e)
  then have "snd (Compact deflate s) = s" by (auto simp: Compact_def Let_def split: sum.splits)
  with assms(2) show ?thesis by simp
qed

lemma reload_ok:
  assumes "store_ok inflate s" and "ReloadState deflate inflate None s = Inr s'"
  shows "store_ok inflate s' \<and> st_tree (so_state s') = st_tree (so_state s)"
proof -
  obtain t where t: "snap_holds inflate (so_snap s) t" "replay_tree (wal_file (so_writer s)) t = (None, st_tree (so_state s))"
    "wal_bw (so_writer s) = []" using store_ok_disk [OF assms(1)] .
  have "s' = s\<lparr>so_writer := wal_Flush (so_writer s), so_state := Swap (so_state s) (st_tree (so_state s))\<rparr>"
    using assms(2) t by (auto simp: ReloadState_def reloadFromDisk_def Let_def snap_holds_def replayWALIntoTree_def wal_Flush_def)
  moreover have "writer_ok (so_writer s)" using assms(1) by (auto simp: store_ok_def appended_def)
  ultimately show ?thesis
    using t(3) by (auto intro!: store_ok_move [OF assms(1)] simp: Swap_def wal_Flush_def writer_ok_def)
qed

lemma restart_ok:
  assumes "store_ok inflate s"
    and "Open deflate inflate (so_snap s) (Some (wal_file (so_writer s))) zone isReplica threshold interval st = Inr s'"
  shows "store_ok inflate s' \<and> st_tree (so_state s') = st_tree (so_state s)"
proof -
  obtain t where t: "snap_holds inflate (so_snap s) t" "replay_tree (wal_file (so_writer s)) t = (None, st_tree (so_state s))"
    using store_ok_disk [OF assms(1)] .
  have "limits_ok threshold interval" using assms(2) by (auto simp: Open_def limits_ok_def not_less split: if_splits)
  from Open_recovers [OF t _ this] assms(2)
  have "s' = \<lparr>so_state = Swap st (st_tree (so_state s)), so_writer = NewWriter (wal_file (so_writer s)), so_snap = so_snap s,
      so_mutationsCount = 0, so_threshold = threshold, so_compactCh = False\<rparr>" by simp
  then show ?thesis
    by (auto intro!: store_ok_move [OF assms(1)] simp: Swap_def NewWriter_def writer_ok_New [unfolded NewWriter_def])
qed

lemma store_step_ok:
  assumes inv: "\<And>x. inflate (deflate x) = x" and "store_step deflate inflate (s, q) (s', q')"
    and ok: "store_ok inflate s" and q: "list_all restorable q"
  shows "store_ok inflate s' \<and> list_all restorable q'"
  using assms(2)
proof (cases rule: store_step.cases)
  case (commit errs)
  have "list_all restorable (take n q)" "list_all restorable (drop n q)" for n
    using q by (auto simp: list_all_iff dest: in_set_takeD in_set_dropD)
  with commit commitBatch_store_ok [OF ok, of "take maxBatchSize q" errs s'] show ?thesis
    by (auto simp: batchWorker_def)
next
  case (compact tick)
  have "store_ok inflate (s\<lparr>so_compactCh := False\<rparr>)" using ok by (simp add: store_ok_def)
  with compact Compact_any_ok [of inflate deflate, OF inv ok] Compact_any_ok [of inflate deflate, OF inv, of "s\<lparr>so_compactCh := False\<rparr>"] ok q show ?thesis
    by (auto simp: compactionLoop_def)
qed (use ok q reload_ok [OF ok] restart_ok [OF ok] in auto)


text \<open>C32: a replica that is stopped before it got its first snapshot does not start again.  Opened on
  an empty directory it saves no snapshot but creates the log, and the next \<open>Open\<close> refuses a log
  without a snapshot.\<close>

theorem replica_restart_refused:
  assumes "limits_ok threshold interval"
  shows "\<exists>s. Open deflate inflate None None None True threshold interval st = Inr s \<and>
    Open deflate inflate (so_snap s) (Some (wal_file (so_writer s))) None True threshold interval st = Inl ErrUncleanState"
  using assms by (simp add: Open_def limits_ok_def bootstrap_def replayWALIntoTree_def not_less [symmetric])

section \<open>Samples\<close>

text \<open>A store whose snapshot holds one name and whose log is empty, and a batch that deletes the name.\<close>

definition sample_store :: "bytes \<Rightarrow> Store" where
  "sample_store f = \<lparr>so_state = Swap (state_New (\<lambda>_. 0) 100) sample_zone, so_writer = NewWriter [], so_snap = Some f,
     so_mutationsCount = 0, so_threshold = 100, so_compactCh = False\<rparr>"

lemma sample_store_ok: "Save id sample_zone = Inr f \<Longrightarrow> store_ok id (sample_store f)"
  using Save_Load [of id id, OF _ sample_zone_inv sample_zone_storable, of f]
  by (auto simp: store_ok_def snap_holds_def sample_store_def loadSnapshotIntoTree_def Swap_def sample_zone_inv
      sample_zone_storable appended_refl intro!: exI [of _ sample_zone] exI [of _ "[]"])

lemma sample_delete:
  assumes "st_tree (so_state s) = sample_zone" and "writer_ok (so_writer s)"
  obtains s' where "commitBatch s [DeleteDomain ''b.org''] = ([None], s')"
    and "st_tree (so_state s') = radix_DeleteDomain sample_zone ''b.org''"
proof -
  have "bump_soa [] = (False, [])" "findApexDomain (radix_Resolve sample_zone ''b.org'' TypeSOA) ''b.org'' = []"
    by (simp, code_simp)
  then have "autoIncrementSOA sample_zone (so_writer s) ''b.org'' [] = (None, [], sample_zone, so_writer s)"
    by (intro autoIncrementSOA_none [where a = "[]"]) simp_all
  moreover obtain w' where "AppendDelete (so_writer s) ''b.org'' = (None, w')"
    by (simp add: AppendDelete_def Let_def)
  ultimately show thesis
    using assms(1) that by (simp add: commitBatch_def Let_def applyDelete_def Update_def)
qed

lemma limits_ok_min [simp]: "limits_ok 100 (60000000000)"
  by (simp add: limits_ok_def)

theorem commit_durable_witness:
  "\<exists>f s'. Save id sample_zone = Inr f \<and> commitBatch (sample_store f) [DeleteDomain ''b.org''] = ([None], s') \<and>
     store_ok id s' \<and>
     (\<exists>o'. Open id id (so_snap s') (Some (wal_file (so_writer s'))) None False 100 (60000000000) (state_New (\<lambda>_. 0) 100) = Inr o' \<and>
       st_tree (so_state o') = radix_DeleteDomain sample_zone ''b.org'')"
proof -
  obtain f where f: "Save id sample_zone = Inr f" using sample_zone_saved by blast
  have "st_tree (so_state (sample_store f)) = sample_zone" "so_writer (sample_store f) = NewWriter []"
    by (simp_all add: sample_store_def Swap_def)
  then obtain s' where s': "commitBatch (sample_store f) [DeleteDomain ''b.org''] = ([None], s')"
    and t: "st_tree (so_state s') = radix_DeleteDomain sample_zone ''b.org''" by (auto elim: sample_delete)
  have p: "prefix (wal_file (so_writer (sample_store f))) x" for x by (simp add: sample_store_def NewWriter_def)
  from commit_durable [OF sample_store_ok [OF f] s', of 100 60000000000 id None False "state_New (\<lambda>_. 0) 100"]
  have "store_ok id s'" "\<exists>o'. Open id id (so_snap s') (Some (wal_file (so_writer s'))) None False 100 60000000000
      (state_New (\<lambda>_. 0) 100) = Inr o' \<and> st_tree (so_state o') = st_tree (so_state s')"
    using p by auto
  with f s' t show ?thesis by auto
qed


theorem torn_tail_poisons_log_witness:
  "\<exists>f s1 s2. Save id sample_zone = Inr f \<and>
     Open id id (Some f) (Some [OpUpsert]) None False 100 (60000000000) (state_New (\<lambda>_. 0) 100) = Inr s1 \<and>
     commitBatch s1 [DeleteDomain ''b.org''] = ([None], s2) \<and>
     Open id id (so_snap s2) (Some (wal_file (so_writer s2))) None False 100 (60000000000) (state_New (\<lambda>_. 0) 100) = Inl wal_ErrCorruptedData"
proof -
  let ?st = "state_New (\<lambda>_. 0) 100"
  obtain f where f: "Save id sample_zone = Inr f" using sample_zone_saved by blast
  have h: "snap_holds id (Some f) sample_zone" and w: "wal_file (so_writer (sample_store f)) = []" "so_snap (sample_store f) = Some f"
    using Save_Load [of id id, OF _ sample_zone_inv sample_zone_storable f]
    by (simp_all add: snap_holds_def sample_zone_inv sample_zone_storable loadSnapshotIntoTree_def sample_store_def NewWriter_def)
  have "replay_tree [OpUpsert] sample_zone = (Some ErrTruncated, sample_zone)" by (simp add: Replay_turn(3) stray_tail)
  from Open_recovers [OF h this, of 100 60000000000 id None False ?st]
  obtain s1 where s1: "Open id id (Some f) (Some [OpUpsert]) None False 100 (60000000000) ?st = Inr s1"
    "st_tree (so_state s1) = sample_zone" "writer_ok (so_writer s1)" by (simp add: Swap_def)
  from sample_delete [OF s1(2,3)] obtain s2 where s2: "commitBatch s1 [DeleteDomain ''b.org''] = ([None], s2)" .
  from torn_tail_poisons_log [OF sample_store_ok [OF f] limits_ok_min, of id None False ?st s1 "[DeleteDomain ''b.org'']" "[None]" s2]
  show ?thesis using f s1 s2 w by auto
qed


theorem replica_restart_refused_witness:
  "\<exists>s. Open id id None None None True 100 60000000000 (state_New (\<lambda>_. 0) 100) = Inr s \<and>
     Open id id (so_snap s) (Some (wal_file (so_writer s))) None True 100 60000000000 (state_New (\<lambda>_. 0) 100) = Inl ErrUncleanState"
  using replica_restart_refused [OF limits_ok_min] by simp

end
