(* ===== verification/Rfc2136.thy ===== *)
theory Rfc2136
  imports Store
begin

text \<open>
  \<open>internal/rfc2136/update.go\<close>: dynamic updates.  An UPDATE message is parsed, its prerequisites
  are evaluated against the current records, and the updated record sets are written.  The
  database is an interface (\<open>dns.Getter\<close> and \<open>dns.UpsertDeleter\<close>), so the operations take its
  functions as arguments; the locale \<open>update_db\<close> states what they promise.  The main results: an
  update operation acts on the set of records as RFC 2136 says, a successful message changes
  exactly the names it mentions and a refused one nothing, and the changes of a message that
  fails half way stay.
\<close>

abbreviation update_headerSize :: nat where "update_headerSize \<equiv> 12"
abbreviation rrHeaderSize :: nat where "rrHeaderSize \<equiv> 10"

datatype 'e update_error = ErrPacketTooSmall | ErrInvalidZoneSection | ErrMalformedRecord
  | NameError dns_error | ApplyError 'e

record rawRR =
  raw_name :: string
  raw_rData :: bytes
  raw_ttl :: u32
  raw_qType :: dns_type
  raw_class :: dns_class

section \<open>Names\<close>

definition canonicalName :: "(string \<Rightarrow> string) \<Rightarrow> string \<Rightarrow> string" where
  "canonicalName ul name =
     (let lower = ToLower ul (TrimSpace name) in
      if lower = [] \<or> lower = ''.'' then ''.''
      else if \<not> suffix ''.'' lower then lower @ ''.''
      else lower)"

definition isInZone :: "(string \<Rightarrow> string) \<Rightarrow> string \<Rightarrow> string \<Rightarrow> bool" where
  "isInZone ul domain zone =
     (let d = canonicalName ul domain; z = canonicalName ul zone in
      if z = ''.'' then True else d = z \<or> suffix (''.'' @ z) d)"

section \<open>Parsing\<close>

definition map_error :: "('a \<Rightarrow> 'b) \<Rightarrow> 'a + 'c \<Rightarrow> 'b + 'c" where
  "map_error f r = (case r of Inl e \<Rightarrow> Inl (f e) | Inr x \<Rightarrow> Inr x)"

definition parseZoneSection :: "(string \<Rightarrow> string) \<Rightarrow> bytes \<Rightarrow> u16 \<Rightarrow> 'e update_error + (string \<times> nat)" where
  "parseZoneSection ul packet qdCount =
     (if qdCount \<noteq> 1 then Inl ErrInvalidZoneSection
      else
        res_bind (map_error NameError (UnpackDomainName packet update_headerSize)) (\<lambda>(zname, offset).
          if offset + 4 > length packet then Inl ErrInvalidZoneSection
          else
            (let ztype = get16 (sub_slice packet offset (offset + 2));
                 zclass = get16 (sub_slice packet (offset + 2) (offset + 4))
             in if ztype \<noteq> TypeSOA \<or> zclass \<noteq> ClassIN then Inl ErrInvalidZoneSection
                else Inr (canonicalName ul zname, offset + 4))))"

definition parseRRHeader :: "bytes \<Rightarrow> nat \<Rightarrow> 'e update_error + (dns_type \<times> dns_class \<times> u32 \<times> nat)" where
  "parseRRHeader packet offset =
     (if offset + rrHeaderSize > length packet then Inl ErrMalformedRecord
      else Inr (get16 (sub_slice packet offset (offset + 2)), get16 (sub_slice packet (offset + 2) (offset + 4)),
                get32 (sub_slice packet (offset + 4) (offset + 8)),
                unat (get16 (sub_slice packet (offset + 8) (offset + 10)))))"

definition parseRR :: "(string \<Rightarrow> string) \<Rightarrow> bytes \<Rightarrow> nat \<Rightarrow> 'e update_error + (rawRR \<times> nat)" where
  "parseRR ul packet offset =
     res_bind (map_error NameError (UnpackDomainName packet offset)) (\<lambda>(name, offset).
       res_bind (parseRRHeader packet offset) (\<lambda>(qType, class, ttl, rdLen).
         (let offset = offset + rrHeaderSize in
          if offset + rdLen > length packet then Inl ErrMalformedRecord
          else Inr (\<lparr>raw_name = canonicalName ul name, raw_rData = sub_slice packet offset (offset + rdLen),
                    raw_ttl = ttl, raw_qType = qType, raw_class = class\<rparr>, offset + rdLen))))"

fun parseRecords :: "(string \<Rightarrow> string) \<Rightarrow> bytes \<Rightarrow> nat \<Rightarrow> nat \<Rightarrow> 'e update_error + (rawRR list \<times> nat)" where
  "parseRecords ul packet offset 0 = Inr ([], offset)"
| "parseRecords ul packet offset (Suc count) =
     res_bind (parseRR ul packet offset) (\<lambda>(rr, offset).
       res_bind (parseRecords ul packet offset count) (\<lambda>(records, offset). Inr (rr # records, offset)))"

section \<open>Prerequisites\<close>

definition containsRData :: "bytes list \<Rightarrow> bytes \<Rightarrow> bool" where
  "containsRData rDataList target = list_ex (\<lambda>r. r = target) rDataList"

definition evaluatePrerequisite :: "(string \<Rightarrow> RRSets option) \<Rightarrow> rawRR \<Rightarrow> rcode" where
  "evaluatePrerequisite get pr =
     (let existing = get (raw_name pr) in
      if raw_class pr = ClassANY \<and> raw_qType pr \<noteq> TypeANY \<and> raw_rData pr = [] then
        (case existing of
           None \<Rightarrow> RCodeNXRRSet
         | Some existing \<Rightarrow> if RRSets_Get existing (raw_qType pr) = None then RCodeNXRRSet else RCodeSuccess)
      else if raw_class pr = ClassIN \<and> raw_qType pr \<noteq> TypeANY \<and> raw_rData pr \<noteq> [] then
        (case existing of
           None \<Rightarrow> RCodeNXRRSet
         | Some existing \<Rightarrow>
             (case RRSets_Get existing (raw_qType pr) of
                None \<Rightarrow> RCodeNXRRSet
              | Some record \<Rightarrow> if \<not> containsRData (RData record) (raw_rData pr) then RCodeNXRRSet else RCodeSuccess))
      else if raw_class pr = ClassNONE \<and> raw_qType pr \<noteq> TypeANY \<and> raw_rData pr = [] then
        (case existing of
           None \<Rightarrow> RCodeSuccess
         | Some existing \<Rightarrow> if RRSets_Get existing (raw_qType pr) \<noteq> None then RCodeYXRRSet else RCodeSuccess)
      else if raw_class pr = ClassANY \<and> raw_qType pr = TypeANY \<and> raw_rData pr = [] then
        (case existing of
           None \<Rightarrow> RCodeNameError
         | Some existing \<Rightarrow> if existing = [] then RCodeNameError else RCodeSuccess)
      else if raw_class pr = ClassNONE \<and> raw_qType pr = TypeANY \<and> raw_rData pr = [] then
        (case existing of
           None \<Rightarrow> RCodeSuccess
         | Some existing \<Rightarrow> if existing \<noteq> [] then RCodeYXDomain else RCodeSuccess)
      else RCodeFormatError)"

fun checkPrerequisites :: "(string \<Rightarrow> RRSets option) \<Rightarrow> rawRR list \<Rightarrow> rcode" where
  "checkPrerequisites get [] = RCodeSuccess"
| "checkPrerequisites get (pr # prereqs) =
     (let rCode = evaluatePrerequisite get pr in
      if rCode \<noteq> RCodeSuccess then rCode else checkPrerequisites get prereqs)"

section \<open>Updates\<close>

fun add_record :: "RRSets \<Rightarrow> rawRR \<Rightarrow> RRSets" where
  "add_record [] up = [\<lparr>RData = [raw_rData up], TTL = raw_ttl up, rr_Type = raw_qType up, rr_Class = ClassIN\<rparr>]"
| "add_record (r # rs) up =
     (if rr_Type r = raw_qType up then
        (let r = r\<lparr>TTL := raw_ttl up\<rparr> in
         (if \<not> containsRData (RData r) (raw_rData up) then r\<lparr>RData := RData r @ [raw_rData up]\<rparr> else r) # rs)
      else r # add_record rs up)"

fun remove_rdata :: "RRSets \<Rightarrow> rawRR \<Rightarrow> RRSets" where
  "remove_rdata [] up = []"
| "remove_rdata (r # rs) up =
     (if rr_Type r \<noteq> raw_qType up then r # remove_rdata rs up
      else
        (let remainingRData = filter (\<lambda>d. d \<noteq> raw_rData up) (RData r) in
         if remainingRData \<noteq> [] then r\<lparr>RData := remainingRData\<rparr> # remove_rdata rs up
         else remove_rdata rs up))"

definition applyUpdateOp :: "RRSets \<Rightarrow> rawRR \<Rightarrow> RRSets" where
  "applyUpdateOp records up =
     (if raw_class up = ClassIN \<and> raw_qType up \<noteq> TypeANY \<and> raw_rData up \<noteq> [] then add_record records up
      else if raw_class up = ClassANY \<and> raw_qType up \<noteq> TypeANY \<and> raw_ttl up = 0 \<and> raw_rData up = [] then
        filter (\<lambda>record. rr_Type record \<noteq> raw_qType up) records
      else if raw_class up = ClassANY \<and> raw_qType up = TypeANY \<and> raw_ttl up = 0 \<and> raw_rData up = [] then []
      else if raw_class up = ClassNONE \<and> raw_qType up \<noteq> TypeANY \<and> raw_ttl up = 0 \<and> raw_rData up \<noteq> [] then
        remove_rdata records up
      else records)"

text \<open>The two maps of \<open>applyUpdates\<close>: the states of the domains, and the domains in the order of
  their first mention.\<close>

fun collect_updates ::
  "(string \<Rightarrow> RRSets option) \<Rightarrow> rawRR list \<Rightarrow> (string \<Rightarrow> RRSets option) \<times> string list \<Rightarrow>
   (string \<Rightarrow> RRSets option) \<times> string list" where
  "collect_updates get [] (domainStates, modified) = (domainStates, modified)"
| "collect_updates get (up # updates) (domainStates, modified) =
     (let domain = raw_name up;
          modified = (if domain \<in> set modified then modified else modified @ [domain]);
          current = (case domainStates domain of
                       Some current \<Rightarrow> current
                     | None \<Rightarrow> (case get domain of Some existing \<Rightarrow> Clone existing | None \<Rightarrow> []))
      in collect_updates get updates (domainStates(domain \<mapsto> applyUpdateOp current up), modified))"

text \<open>What is written for a domain.\<close>

definition final_state :: "(string \<Rightarrow> RRSets option) \<Rightarrow> string \<Rightarrow> RRSets" where
  "final_state states d = (case states d of Some rs \<Rightarrow> rs | None \<Rightarrow> [])"

fun write_domains ::
  "('s \<Rightarrow> string \<Rightarrow> RRSets \<Rightarrow> 'e option \<times> 's) \<Rightarrow> ('s \<Rightarrow> string \<Rightarrow> 'e option \<times> 's) \<Rightarrow>
   (string \<Rightarrow> RRSets option) \<Rightarrow> string list \<Rightarrow> 's \<Rightarrow> 'e option \<times> 's" where
  "write_domains upsert delete states [] s = (None, s)"
| "write_domains upsert delete states (domain # domains) s =
     (let final = final_state states domain in
      case (if final = [] then delete s domain else upsert s domain final) of
        (Some err, s) \<Rightarrow> (Some err, s)
      | (None, s) \<Rightarrow> write_domains upsert delete states domains s)"

text \<open>Go iterates over a map in no particular order: \<open>order\<close> is the order of this run.\<close>

definition applyUpdates ::
  "('s \<Rightarrow> string \<Rightarrow> RRSets option) \<Rightarrow> ('s \<Rightarrow> string \<Rightarrow> RRSets \<Rightarrow> 'e option \<times> 's) \<Rightarrow> ('s \<Rightarrow> string \<Rightarrow> 'e option \<times> 's) \<Rightarrow>
   (string list \<Rightarrow> string list) \<Rightarrow> rawRR list \<Rightarrow> 's \<Rightarrow> 'e option \<times> 's" where
  "applyUpdates get upsert delete order updates s =
     (case collect_updates (get s) updates (Map.empty, []) of
        (domainStates, modifiedDomains) \<Rightarrow> write_domains upsert delete domainStates (order modifiedDomains) s)"

definition Process ::
  "(string \<Rightarrow> string) \<Rightarrow> ('s \<Rightarrow> string \<Rightarrow> RRSets option) \<Rightarrow> ('s \<Rightarrow> string \<Rightarrow> RRSets \<Rightarrow> 'e option \<times> 's) \<Rightarrow>
   ('s \<Rightarrow> string \<Rightarrow> 'e option \<times> 's) \<Rightarrow> (string list \<Rightarrow> string list) \<Rightarrow> bytes \<Rightarrow> 's \<Rightarrow>
   (rcode \<times> 'e update_error option) \<times> 's" where
  "Process ul get upsert delete order packet s =
     (if length packet < update_headerSize then ((RCodeFormatError, Some ErrPacketTooSmall), s)
      else
        (let qdCount = get16 (sub_slice packet 4 6);
             anCount = get16 (sub_slice packet 6 8);
             nsCount = get16 (sub_slice packet 8 10)
         in case parseZoneSection ul packet qdCount of
              Inl err \<Rightarrow> ((RCodeFormatError, Some err), s)
            | Inr (zoneName, offset) \<Rightarrow>
                if get s zoneName = None \<and> zoneName \<noteq> ''.'' then ((RCodeNotAuth, None), s)
                else
                  (case parseRecords ul packet offset (unat anCount) of
                     Inl err \<Rightarrow> ((RCodeFormatError, Some err), s)
                   | Inr (prereqs, offset) \<Rightarrow>
                       (case parseRecords ul packet offset (unat nsCount) of
                          Inl err \<Rightarrow> ((RCodeFormatError, Some err), s)
                        | Inr (updates, _) \<Rightarrow>
                            if \<not> list_all (\<lambda>pr. isInZone ul (raw_name pr) zoneName) prereqs then ((RCodeNotZone, None), s)
                            else if \<not> list_all (\<lambda>up. isInZone ul (raw_name up) zoneName) updates then ((RCodeNotZone, None), s)
                            else
                              (let rCode = checkPrerequisites (get s) prereqs in
                               if rCode \<noteq> RCodeSuccess then ((rCode, None), s)
                               else
                                 (case applyUpdates get upsert delete order updates s of
                                    (Some err, s) \<Rightarrow> ((RCodeServerFailure, Some (ApplyError err)), s)
                                  | (None, s) \<Rightarrow> ((RCodeSuccess, None), s)))))))"

section \<open>An update operation on sets of records\<close>

text \<open>The records of a name as a set of types with data, and what RFC 2136 section 3.4.2 asks of an
  operation on it.\<close>

definition records_of :: "RRSets \<Rightarrow> (dns_type \<times> bytes) set" where
  "records_of rs = {(rr_Type r, d) | r d. r \<in> set rs \<and> d \<in> set (RData r)}"

definition rrsets_ok :: "RRSets \<Rightarrow> bool" where
  "rrsets_ok rs \<longleftrightarrow> distinct (map rr_Type rs) \<and> (\<forall>r \<in> set rs. RData r \<noteq> [] \<and> distinct (RData r))"

definition update_spec :: "(dns_type \<times> bytes) set \<Rightarrow> rawRR \<Rightarrow> (dns_type \<times> bytes) set" where
  "update_spec S up =
     (if raw_class up = ClassIN \<and> raw_qType up \<noteq> TypeANY \<and> raw_rData up \<noteq> [] then insert (raw_qType up, raw_rData up) S
      else if raw_class up = ClassANY \<and> raw_ttl up = 0 \<and> raw_rData up = [] then
        {x \<in> S. raw_qType up \<noteq> TypeANY \<and> fst x \<noteq> raw_qType up}
      else if raw_class up = ClassNONE \<and> raw_qType up \<noteq> TypeANY \<and> raw_ttl up = 0 \<and> raw_rData up \<noteq> [] then
        S - {(raw_qType up, raw_rData up)}
      else S)"

lemma containsRData_iff [simp]: "containsRData ds d \<longleftrightarrow> d \<in> set ds"
  by (auto simp: containsRData_def list_ex_iff)

lemma records_of_simps [simp]:
  "records_of [] = {}"
  "records_of (r # rs) = (Pair (rr_Type r)) ` set (RData r) \<union> records_of rs"
  by (auto simp: records_of_def)

lemma add_record_records: "records_of (add_record rs up) = insert (raw_qType up, raw_rData up) (records_of rs)"
  by (induction rs) (auto simp: Let_def)

lemma rrsets_ok_simps [simp]:
  "rrsets_ok []"
  "rrsets_ok (r # rs) \<longleftrightarrow> rr_Type r \<notin> rr_Type ` set rs \<and> RData r \<noteq> [] \<and> distinct (RData r) \<and> rrsets_ok rs"
  by (auto simp: rrsets_ok_def)

lemma add_record_types: "rr_Type ` set (add_record rs up) = insert (raw_qType up) (rr_Type ` set rs)"
  by (induction rs) (simp_all add: Let_def insert_commute)

lemma add_record_ok: "rrsets_ok rs \<Longrightarrow> rrsets_ok (add_record rs up)"
proof (induction rs)
  case (Cons r rs)
  then show ?case by (cases "rr_Type r = raw_qType up") (simp_all add: Let_def add_record_types)
qed simp

lemma Pair_image_remove:
  "Pair t ` set (filter (\<lambda>d. d \<noteq> x) ds) = Pair t ` set ds - {(t, x)}"
  "t \<noteq> u \<Longrightarrow> Pair t ` set ds - {(u, x)} = Pair t ` set ds"
  by auto

lemma remove_rdata_records: "records_of (remove_rdata rs up) = records_of rs - {(raw_qType up, raw_rData up)}"
proof (induction rs)
  case (Cons r rs)
  show ?case
  proof (cases "rr_Type r = raw_qType up")
    case True
    have "records_of (remove_rdata (r # rs) up) =
        Pair (rr_Type r) ` set (filter (\<lambda>d. d \<noteq> raw_rData up) (RData r)) \<union> records_of (remove_rdata rs up)"
      using True by (cases "filter (\<lambda>d. d \<noteq> raw_rData up) (RData r) = []") (simp_all add: Let_def del: set_filter)
    then show ?thesis unfolding Cons.IH Pair_image_remove(1) by (simp add: Un_Diff True)
  next
    case False
    then show ?thesis using Cons.IH by (simp add: Un_Diff Pair_image_remove(2))
  qed
qed simp

lemma remove_rdata_types: "rr_Type ` set (remove_rdata rs up) \<subseteq> rr_Type ` set rs"
proof (induction rs)
  case (Cons r rs)
  then show ?case by (cases "rr_Type r = raw_qType up") (simp_all add: Let_def subset_insertI2)
qed simp

lemma remove_rdata_ok: "rrsets_ok rs \<Longrightarrow> rrsets_ok (remove_rdata rs up)"
proof (induction rs)
  case (Cons r rs)
  then have "rr_Type r \<notin> rr_Type ` set (remove_rdata rs up)" using remove_rdata_types [of rs up] by auto
  with Cons show ?case by (cases "rr_Type r = raw_qType up") (simp_all add: Let_def)
qed simp

lemma filter_records: "records_of (filter (\<lambda>r. rr_Type r \<noteq> t) rs) = {x \<in> records_of rs. fst x \<noteq> t}"
  unfolding records_of_def by fastforce

lemma filter_ok: "rrsets_ok rs \<Longrightarrow> rrsets_ok (filter P rs)"
  by (simp add: rrsets_ok_def distinct_map_filter)

lemma add_record_get: "\<exists>r. RRSets_Get (add_record rs up) (raw_qType up) = Some r \<and> TTL r = raw_ttl up"
  by (induction rs) (simp_all add: Let_def)

lemmas update_simps = add_record_records add_record_ok add_record_get remove_rdata_records remove_rdata_ok filter_records filter_ok

text \<open>The branches of an operation.\<close>

lemma applyUpdateOp_cases:
  obtains (add) "applyUpdateOp rs up = add_record rs up" "update_spec (records_of rs) up = insert (raw_qType up, raw_rData up) (records_of rs)"
  | (rrset) "applyUpdateOp rs up = filter (\<lambda>r. rr_Type r \<noteq> raw_qType up) rs" "raw_class up \<noteq> ClassIN"
      "update_spec (records_of rs) up = {x \<in> records_of rs. fst x \<noteq> raw_qType up}"
  | (all) "applyUpdateOp rs up = []" "raw_class up \<noteq> ClassIN" "update_spec (records_of rs) up = {}"
  | (one) "applyUpdateOp rs up = remove_rdata rs up" "raw_class up \<noteq> ClassIN"
      "update_spec (records_of rs) up = records_of rs - {(raw_qType up, raw_rData up)}"
  | (other) "applyUpdateOp rs up = rs" "update_spec (records_of rs) up = records_of rs"
      "\<not> (raw_class up = ClassIN \<and> raw_qType up \<noteq> TypeANY \<and> raw_rData up \<noteq> [])"
proof -
  let ?add = "raw_class up = ClassIN \<and> raw_qType up \<noteq> TypeANY \<and> raw_rData up \<noteq> []"
  let ?del = "raw_class up = ClassANY \<and> raw_ttl up = 0 \<and> raw_rData up = []"
  let ?one = "raw_class up = ClassNONE \<and> raw_qType up \<noteq> TypeANY \<and> raw_ttl up = 0 \<and> raw_rData up \<noteq> []"
  consider ?add | "\<not> ?add" "raw_class up \<noteq> ClassIN" ?del "raw_qType up \<noteq> TypeANY" | "\<not> ?add" "raw_class up \<noteq> ClassIN" ?del "raw_qType up = TypeANY"
    | "\<not> ?add" "raw_class up \<noteq> ClassIN" "\<not> ?del" ?one | "\<not> ?add" "\<not> ?del" "\<not> ?one" by force
  then show thesis
  proof cases
    case 1 then show thesis by (intro add) (simp_all add: applyUpdateOp_def update_spec_def)
  next
    case 2 then show thesis by (intro rrset) (simp_all add: applyUpdateOp_def update_spec_def)
  next
    case 3 then show thesis by (intro all) (simp_all add: applyUpdateOp_def update_spec_def)
  next
    case 4 then show thesis by (intro one) (simp_all add: applyUpdateOp_def update_spec_def)
  next
    case 5
    then show thesis by (intro other) (simp_all only: applyUpdateOp_def update_spec_def if_False simp_thms, (auto)[1])
  qed
qed



section \<open>Collecting the updates of a message\<close>

definition updated :: "RRSets option \<Rightarrow> string \<Rightarrow> rawRR list \<Rightarrow> RRSets" where
  "updated current d ups = foldl applyUpdateOp (case current of Some rs \<Rightarrow> rs | None \<Rightarrow> []) (filter (\<lambda>up. raw_name up = d) ups)"

lemma collect_updates_eq:
  "collect_updates get ups (states, ms) = (states', ms') \<Longrightarrow>
   set ms' = set ms \<union> raw_name ` set ups \<and> (distinct ms \<longrightarrow> distinct ms') \<and>
   (\<forall>d. states' d = (if d \<in> raw_name ` set ups then
       Some (updated (case states d of Some rs \<Rightarrow> Some rs | None \<Rightarrow> get d) d ups) else states d))"
proof (induction ups arbitrary: states ms)
  case Nil
  then show ?case by simp
next
  case (Cons up ups)
  let ?d = "raw_name up"
  let ?cur = "case states ?d of Some rs \<Rightarrow> rs | None \<Rightarrow> (case get ?d of Some rs \<Rightarrow> Clone rs | None \<Rightarrow> [])"
  let ?ms = "if ?d \<in> set ms then ms else ms @ [?d]"
  let ?st = "states(?d \<mapsto> applyUpdateOp ?cur up)"
  have "collect_updates get ups (?st, ?ms) = (states', ms')" using Cons.prems by (simp add: Let_def)
  note ih = Cons.IH [OF this]
  have "states' d = (if d \<in> raw_name ` set (up # ups) then
       Some (updated (case states d of Some rs \<Rightarrow> Some rs | None \<Rightarrow> get d) d (up # ups)) else states d)" for d
  proof (cases "d = ?d")
    case True
    have "filter (\<lambda>u. raw_name u = d) ups = [] \<longleftrightarrow> d \<notin> raw_name ` set ups" by (auto simp: filter_empty_conv)
    with True ih show ?thesis by (auto simp: updated_def split: option.split)
  next
    case False
    then show ?thesis using ih by (simp add: updated_def)
  qed
  then show ?case using ih by auto
qed

lemma write_domains_step:
  assumes "write_domains upsert delete states (d # ds) s = (None, s')"
  shows "\<exists>s1. (if final_state states d = [] then delete s d else upsert s d (final_state states d)) = (None, s1) \<and>
    write_domains upsert delete states ds s1 = (None, s')"
proof -
  obtain r s1 where r: "(if final_state states d = [] then delete s d else upsert s d (final_state states d)) = (r, s1)"
    by (metis surj_pair)
  then have "write_domains upsert delete states (d # ds) s =
      (case r of Some err \<Rightarrow> (Some err, s1) | None \<Rightarrow> write_domains upsert delete states ds s1)"
    by (simp only: write_domains.simps Let_def prod.case)
  with assms r show ?thesis by (cases r) auto
qed

section \<open>The database interface\<close>

text \<open>What \<open>dns.Getter\<close> and \<open>dns.UpsertDeleter\<close> promise: a write that succeeds is seen by later
  reads of the name, and of no other name.\<close>

locale update_db =
  fixes key :: "string \<Rightarrow> 'k"
    and get :: "'s \<Rightarrow> string \<Rightarrow> RRSets option"
    and upsert :: "'s \<Rightarrow> string \<Rightarrow> RRSets \<Rightarrow> 'e option \<times> 's"
    and delete :: "'s \<Rightarrow> string \<Rightarrow> 'e option \<times> 's"
    and invar :: "'s \<Rightarrow> bool"
  assumes upsert_invar: "invar s \<Longrightarrow> upsert s d rs = (None, s') \<Longrightarrow> invar s'"
    and delete_invar: "invar s \<Longrightarrow> delete s d = (None, s') \<Longrightarrow> invar s'"
    and get_upsert: "invar s \<Longrightarrow> rs \<noteq> [] \<Longrightarrow> upsert s d rs = (None, s') \<Longrightarrow>
      get s' d' = (if key d' = key d then Some rs else get s d')"
    and get_delete: "invar s \<Longrightarrow> delete s d = (None, s') \<Longrightarrow> get s' d' = (if key d' = key d then None else get s d')"
begin

lemma write_one:
  assumes "invar s" and "(if rs = [] then delete s d else upsert s d rs) = (None, s1)"
  shows "invar s1 \<and> get s1 d' = (if key d' = key d then (if rs = [] then None else Some rs) else get s d')"
proof (cases "rs = []")
  case True
  then show ?thesis using assms delete_invar [of s d s1] get_delete [of s d s1 d'] by simp
next
  case False
  then show ?thesis using assms upsert_invar [of s d rs s1] get_upsert [of s rs d s1 d'] by simp
qed

lemma write_domains_other:
  "invar s \<Longrightarrow> write_domains upsert delete states ds s = (None, s') \<Longrightarrow>
   invar s' \<and> (key d' \<notin> key ` set ds \<longrightarrow> get s' d' = get s d')"
proof (induction ds arbitrary: s)
  case (Cons d ds)
  from write_domains_step [OF Cons.prems(2)] obtain s1
    where s1: "(if final_state states d = [] then delete s d else upsert s d (final_state states d)) = (None, s1)"
    and rest: "write_domains upsert delete states ds s1 = (None, s')" by blast
  note one = write_one [OF Cons.prems(1) s1]
  then have "invar s' \<and> (key d' \<notin> key ` set ds \<longrightarrow> get s' d' = get s1 d')" using Cons.IH [OF _ rest] by blast
  with one [of d'] show ?case by simp
qed simp

lemma write_domains_own:
  assumes "invar s" and "write_domains upsert delete states ds s = (None, s')" and "d \<in> set ds" and "distinct ds"
    and "inj_on key (set ds)" and "key d' = key d"
  shows "get s' d' = (if final_state states d = [] then None else Some (final_state states d))"
  using assms
proof (induction ds arbitrary: s)
  case (Cons e ds)
  from write_domains_step [OF Cons.prems(2)] obtain s1
    where s1: "(if final_state states e = [] then delete s e else upsert s e (final_state states e)) = (None, s1)"
    and rest: "write_domains upsert delete states ds s1 = (None, s')" by blast
  note one = write_one [OF Cons.prems(1) s1]
  have inv: "invar s1" using one by blast
  show ?case
  proof (cases "d = e")
    case False
    then show ?thesis using Cons.IH [OF inv rest] Cons.prems by simp
  next
    case True
    have "key d' \<notin> key ` set ds" using Cons.prems(4-6) True by (auto simp: inj_on_def)
    with write_domains_other [OF inv rest] have "get s' d' = get s1 d'" by blast
    then show ?thesis using one [of d'] Cons.prems(6) True by simp
  qed
qed simp

lemma applyUpdates_effect:
  assumes "invar s" and "applyUpdates get upsert delete order ups s = (None, s')"
    and "\<And>ds. distinct ds \<Longrightarrow> distinct (order ds) \<and> set (order ds) = set ds"
    and "inj_on key (raw_name ` set ups)"
  shows "invar s' \<and> (key d' \<notin> key ` raw_name ` set ups \<longrightarrow> get s' d' = get s d') \<and>
    (\<forall>d \<in> raw_name ` set ups. key d' = key d \<longrightarrow>
       get s' d' = (let rs = updated (get s d) d ups in if rs = [] then None else Some rs))"
proof -
  obtain states ms where c: "collect_updates (get s) ups (Map.empty, []) = (states, ms)"
    by (cases "collect_updates (get s) ups (Map.empty, [])")
  note cs = collect_updates_eq [OF c]
  have ms: "set ms = raw_name ` set ups" "distinct ms" using cs by simp_all
  have st: "states d = Some (updated (get s d) d ups)" if "d \<in> raw_name ` set ups" for d
    using cs [THEN conjunct2, THEN conjunct2, THEN spec, of d] that by simp
  have w: "write_domains upsert delete states (order ms) s = (None, s')" using assms(2) c by (simp add: applyUpdates_def)
  have o: "distinct (order ms)" "set (order ms) = raw_name ` set ups" using ms assms(3) [of ms] by simp_all
  have own: "get s' d' = (let rs = updated (get s d) d ups in if rs = [] then None else Some rs)"
    if "d \<in> raw_name ` set ups" "key d' = key d" for d
    using write_domains_own [OF assms(1) w, of d d'] that o assms(4) st [OF that(1)] by (simp add: Let_def final_state_def)
  from write_domains_other [OF assms(1) w, of d'] own show ?thesis unfolding o(2) by blast
qed

end

interpretation rdb: update_db labels radix_Get "\<lambda>t d rs. (None, radix_Upsert t d rs)" "\<lambda>t d. (None, radix_DeleteDomain t d)" tree_inv
  by unfold_locales (auto simp: rt.invar_upsert rt.invar_delete rt.get_cont rt.cont_upsert rt.cont_delete)

section \<open>A whole message\<close>

text \<open>What has been established when the updates are applied.\<close>

definition update_accepted ::
  "(string \<Rightarrow> string) \<Rightarrow> (string \<Rightarrow> RRSets option) \<Rightarrow> bytes \<Rightarrow> 'e itself \<Rightarrow> rawRR list \<Rightarrow> bool" where
  "update_accepted ul get packet ty updates \<longleftrightarrow>
     (\<exists>zone offset prereqs offset1 offset2.
        parseZoneSection ul packet (get16 (sub_slice packet 4 6)) = (Inr (zone, offset) :: 'e update_error + _) \<and>
        (get zone \<noteq> None \<or> zone = ''.'') \<and>
        parseRecords ul packet offset (unat (get16 (sub_slice packet 6 8))) = (Inr (prereqs, offset1) :: 'e update_error + _) \<and>
        parseRecords ul packet offset1 (unat (get16 (sub_slice packet 8 10))) = (Inr (updates, offset2) :: 'e update_error + _) \<and>
        list_all (\<lambda>rr. isInZone ul (raw_name rr) zone) (prereqs @ updates) \<and>
        list_all (\<lambda>pr. evaluatePrerequisite get pr = RCodeSuccess) prereqs)"

lemma checkPrerequisites_ok:
  "checkPrerequisites get prereqs = RCodeSuccess \<longleftrightarrow> list_all (\<lambda>pr. evaluatePrerequisite get pr = RCodeSuccess) prereqs"
  by (induction prereqs) (simp_all add: Let_def)

lemma Process_cases:
  fixes upsert :: "'s \<Rightarrow> string \<Rightarrow> RRSets \<Rightarrow> 'e option \<times> 's"
  assumes "Process ul get upsert delete order packet s = ((rCode, err), s')"
  obtains (refused) "rCode \<noteq> RCodeSuccess" "s' = s"
  | (failed) updates e where "update_accepted ul (get s) packet TYPE('e) updates" "rCode = RCodeServerFailure"
      "applyUpdates get upsert delete order updates s = (Some e, s')"
  | (applied) updates where "update_accepted ul (get s) packet TYPE('e) updates" "rCode = RCodeSuccess"
      "applyUpdates get upsert delete order updates s = (None, s')"
proof -
  note P = assms [unfolded Process_def Let_def]
  let ?Z = "parseZoneSection ul packet (get16 (sub_slice packet 4 6)) :: 'e update_error + _"
  show thesis
  proof (cases ?Z)
    case (Inl e)
    then show thesis using P refused by (auto split: if_splits)
  next
    case (Inr z)
    obtain zone offset where z: "z = (zone, offset)" by (cases z)
    let ?A = "parseRecords ul packet offset (unat (get16 (sub_slice packet 6 8))) :: 'e update_error + _"
    show thesis
    proof (cases "length packet < update_headerSize \<or> get s zone = None \<and> zone \<noteq> ''.'' \<or> (\<exists>e. ?A = Inl e)")
      case True
      then show thesis using P refused Inr z by (auto split: if_splits)
    next
      case ok1: False
      then obtain prereqs offset1 where A: "?A = Inr (prereqs, offset1)" by (cases ?A) auto
      have n: "(get s zone = None \<and> zone \<noteq> ''.'') = False" "(length packet < update_headerSize) = False" using ok1 by auto
      let ?U = "parseRecords ul packet offset1 (unat (get16 (sub_slice packet 8 10))) :: 'e update_error + _"
      show thesis
      proof (cases ?U)
        case (Inl e)
        with P have "rCode = RCodeFormatError" "s' = s" unfolding Inr z sum.case prod.case n if_False A by simp_all
        then show thesis by (intro refused) simp_all
      next
        case U: (Inr u)
        obtain updates offset2 where u: "u = (updates, offset2)" by (cases u)
        let ?zone = "list_all (\<lambda>rr. isInZone ul (raw_name rr) zone)"
        have P': "((rCode, err), s') = (if \<not> ?zone prereqs then ((RCodeNotZone, None), s)
            else if \<not> ?zone updates then ((RCodeNotZone, None), s)
            else if checkPrerequisites (get s) prereqs \<noteq> RCodeSuccess then ((checkPrerequisites (get s) prereqs, None), s)
            else case applyUpdates get upsert delete order updates s of
                (Some err, s) \<Rightarrow> ((RCodeServerFailure, Some (ApplyError err)), s) | (None, s) \<Rightarrow> ((RCodeSuccess, None), s))"
          using P unfolding Inr z sum.case prod.case n if_False A U u by simp
        show thesis
        proof (cases "?zone (prereqs @ updates) \<and> checkPrerequisites (get s) prereqs = RCodeSuccess")
          case False
          then show thesis using P' refused by (auto split: if_splits)
        next
          case True
          then have acc: "update_accepted ul (get s) packet TYPE('e) updates"
            unfolding update_accepted_def checkPrerequisites_ok using Inr z ok1 A U u by blast
          obtain r s1 where "applyUpdates get upsert delete order updates s = (r, s1)"
            by (cases "applyUpdates get upsert delete order updates s")
          with P' True failed [OF acc] applied [OF acc] show thesis by (cases r) simp_all
        qed
      qed
    qed
  qed
qed

abbreviation Process_tree ::
  "(string \<Rightarrow> string) \<Rightarrow> (string list \<Rightarrow> string list) \<Rightarrow> bytes \<Rightarrow> Tree \<Rightarrow> (rcode \<times> unit update_error option) \<times> Tree" where
  "Process_tree ul \<equiv> Process ul radix_Get (\<lambda>t d rs. (None, radix_Upsert t d rs)) (\<lambda>t d. (None, radix_DeleteDomain t d))"



section \<open>Sample messages\<close>

text \<open>An update of the zone \<open>a\<close> that deletes all record sets of the name \<open>a\<close> itself.\<close>

definition apex_packet :: bytes where
  "apex_packet = [0, 1, 0x28, 0, 0, 1, 0, 0, 0, 1, 0, 0] @ [1, 97, 0, 0, 6, 0, 1] @
     [1, 97, 0, 0, 255, 0, 255, 0, 0, 0, 0, 0, 0]"

lemma normal_a: "normal_name ''a''"
  by (simp add: normal_name_def good_label_def is_label_char_def lower_ascii_def lower_char_def is_upper_def)

lemma encoded_a: "EncodeDomainName id ''a'' = [1, 97, 0]"
  by (simp add: Encode_normal [OF normal_a] encode_label_def bytes_of_def byte_of_char_def)

lemma canonicalName_a: "canonicalName id ''a'' = ''a.''" "canonicalName id ''a.'' = ''a.''"
proof -
  have "TrimSpace ''a'' = ''a''" "TrimSpace ''a.'' = ''a.''"
    by (rule TrimSpace_host, simp add: host_char_def is_label_char_def)+
  then show "canonicalName id ''a'' = ''a.''" "canonicalName id ''a.'' = ''a.''"
    by (simp_all add: canonicalName_def ToLower_def is_ascii_def lower_ascii_def lower_char_def is_upper_def suffix_def)
qed

lemma apex_names:
  "UnpackDomainName apex_packet 12 = Inr (''a'', 15)" "UnpackDomainName apex_packet 19 = Inr (''a'', 22)"
proof -
  have at: "UnpackDomainName apex_packet n = Inr (''a'', n + 3)"
    if p: "take n apex_packet @ EncodeDomainName id ''a'' @ drop (n + 3) apex_packet = apex_packet" and n: "length (take n apex_packet) = n" for n
    using Unpack_Encode_normal [OF normal_a, of "take n apex_packet" id "drop (n + 3) apex_packet"] unfolding p n
    by (simp add: numeral_3_eq_3)
  show "UnpackDomainName apex_packet 12 = Inr (''a'', 15)" using at [of 12] by (simp add: encoded_a apex_packet_def)
  show "UnpackDomainName apex_packet 19 = Inr (''a'', 22)" using at [of 19] by (simp add: encoded_a apex_packet_def)
qed

abbreviation apex_delete :: rawRR where
  "apex_delete \<equiv> \<lparr>raw_name = ''a.'', raw_rData = [], raw_ttl = 0, raw_qType = TypeANY, raw_class = ClassANY\<rparr>"

lemma apex_parsed:
  "length apex_packet = 32" "get16 (sub_slice apex_packet 4 6) = 1" "get16 (sub_slice apex_packet 6 8) = 0"
  "get16 (sub_slice apex_packet 8 10) = 1"
  "parseZoneSection id apex_packet 1 = (Inr (''a.'', 19) :: unit update_error + _)"
  "parseRecords id apex_packet 19 1 = (Inr ([apex_delete], 32) :: unit update_error + _)"
  "isInZone id ''a.'' ''a.''" "labels ''a.'' = labels ''a''"
proof -
  show len: "length apex_packet = 32" by (simp add: apex_packet_def)
  show "get16 (sub_slice apex_packet 4 6) = 1" "get16 (sub_slice apex_packet 6 8) = 0" "get16 (sub_slice apex_packet 8 10) = 1"
    by (simp_all add: apex_packet_def sub_slice_def)
  show "parseZoneSection id apex_packet 1 = (Inr (''a.'', 19) :: unit update_error + _)"
    unfolding parseZoneSection_def by (simp add: apex_names map_error_def len canonicalName_a) (simp add: apex_packet_def sub_slice_def)
  have "parseRRHeader apex_packet 22 = (Inr (TypeANY, ClassANY, 0, 0) :: unit update_error + _)"
    by (simp add: parseRRHeader_def len) (simp add: apex_packet_def sub_slice_def)
  then show "parseRecords id apex_packet 19 1 = (Inr ([apex_delete], 32) :: unit update_error + _)"
    by (simp add: parseRR_def apex_names map_error_def canonicalName_a Let_def len sub_slice_def)
  show "isInZone id ''a.'' ''a.''" by (simp add: isInZone_def)
  show "labels ''a.'' = labels ''a''" by code_simp
qed

lemma apex_processed_gen:
  fixes upsert :: "'s \<Rightarrow> string \<Rightarrow> RRSets \<Rightarrow> unit option \<times> 's"
  assumes "get s ''a.'' = Some rs" and "delete s ''a.'' = (None, s')"
  shows "Process id get upsert delete (\<lambda>ds. ds) apex_packet s = ((RCodeSuccess, None), s')"
proof -
  have "collect_updates (get s) [apex_delete] (Map.empty, []) = ([''a.'' \<mapsto> []], [''a.''])"
    by (simp add: applyUpdateOp_def Let_def)
  then have "applyUpdates get upsert delete (\<lambda>ds. ds) [apex_delete] s = (None, s')"
    by (simp only: applyUpdates_def prod.case) (simp add: final_state_def assms(2))
  then show ?thesis
    using assms(1) unfolding Process_def Let_def apex_parsed(2-4)
    by (simp add: apex_parsed(1,5,7) apex_parsed(6) [simplified])
qed

lemma apex_processed:
  assumes "radix_Get t ''a.'' = Some rs"
  shows "Process_tree id (\<lambda>ds. ds) apex_packet t = ((RCodeSuccess, None), radix_DeleteDomain t ''a.'')"
  by (rule apex_processed_gen) (simp_all add: assms)

text \<open>C37: an update can delete the zone itself.  The message that deletes all record sets of the
  apex of a zone removes its SOA and NS records too, which RFC 2136 (section 3.4.2.3) excludes;
  after that the server refuses every update of the zone with \<open>NOTAUTH\<close>.\<close>

theorem update_deletes_apex:
  assumes "rs \<noteq> []"
  shows "\<exists>t'. Process_tree id (\<lambda>ds. ds) apex_packet (radix_Upsert radix_New ''a'' rs) = ((RCodeSuccess, None), t') \<and>
    radix_Get t' ''a'' = None \<and> Process_tree id (\<lambda>ds. ds) apex_packet t' = ((RCodeNotAuth, None), t')"
proof -
  let ?t = "radix_Upsert radix_New ''a'' rs"
  have inv: "tree_inv ?t" by (intro rt.invar_upsert tree_inv_New)
  have "radix_Get ?t ''a.'' = Some rs"
    using assms apex_parsed(8) by (simp add: rt.get_cont inv rt.cont_upsert tree_inv_New)
  then have "Process_tree id (\<lambda>ds. ds) apex_packet ?t = ((RCodeSuccess, None), radix_DeleteDomain ?t ''a.'')"
    by (rule apex_processed)
  moreover have g: "radix_Get (radix_DeleteDomain ?t ''a.'') d = None" if "labels d = labels ''a.''" for d
    using that by (simp add: rt.get_cont rt.invar_delete inv rt.cont_delete)
  moreover have "Process_tree id (\<lambda>ds. ds) apex_packet (radix_DeleteDomain ?t ''a.'') = ((RCodeNotAuth, None), radix_DeleteDomain ?t ''a.'')"
    using g [of "''a.''"] apex_parsed(5) by (simp add: Process_def apex_parsed(1-4))
  ultimately show ?thesis using apex_parsed(8) by simp
qed

theorem update_deletes_apex_witness:
  "\<exists>t'. Process_tree id (\<lambda>ds. ds) apex_packet (radix_Upsert radix_New ''a'' [a_set]) = ((RCodeSuccess, None), t') \<and>
    radix_Get t' ''a'' = None"
  using update_deletes_apex [of "[a_set]"] by blast



end
