(* ===== verification/Dnssec.thy ===== *)
theory Dnssec
  imports RadixResolve Domain "HOL-Library.AList" "HOL-Library.Multiset"
begin

text \<open>
  \<open>internal/dnssec\<close>: signing keys (\<open>key.go\<close>), signatures over record sets (\<open>signer.go\<close>), type
  bitmaps of denial records (\<open>nsec.go\<close>) and the manager that decorates the result of a query
  (\<open>manager.go\<close>).  The signature schemes and SHA-256 are parameters.  Shown: signing terminates
  in the search for a key and picks the closest zone, a signature made with a key verifies under
  its public half, the signed data determine the record set, and the bitmaps say exactly which
  types are present.
\<close>

section \<open>Keys (key.go)\<close>

abbreviation ECDSAP256 :: byte where "ECDSAP256 \<equiv> 13"
abbreviation ED25519 :: byte where "ED25519 \<equiv> 15"
abbreviation FlagZSK :: u16 where "FlagZSK \<equiv> 256"
abbreviation FlagKSK :: u16 where "FlagKSK \<equiv> 257"
abbreviation DigestSHA256 :: byte where "DigestSHA256 \<equiv> 2"
abbreviation protocolDNSSEC :: byte where "protocolDNSSEC \<equiv> 3"

datatype dnssec_error =
  ErrUnsupportedAlgorithm | ErrInvalidSignature | ErrMalformedRRSIG
| ErrEmptyRRSet | ErrNotECDSA | ErrNotEd25519 | ErrCrypto

text \<open>The dynamic type of a \<open>crypto.Signer\<close>.\<close>

datatype 'p Signer = EcdsaPrivate 'p | Ed25519Private 'p | OtherSigner

text \<open>What the code calls of the \<open>crypto\<close> packages.  A key generator or signer that draws random
  bytes is the function of its other arguments that those bytes select.  The two halves of a
  P-256 signature are below the order of the curve, hence 256-bit words; \<open>None\<close> of \<open>ecdsaVerify\<close>
  is a public key that does not parse.\<close>

record 'p crypto =
  sha256 :: "bytes \<Rightarrow> bytes"
  ecdsaGenerate :: "'p option"
  ecdhBytes :: "'p \<Rightarrow> bytes option"
  ecdsaSign :: "'p \<Rightarrow> bytes \<Rightarrow> (256 word \<times> 256 word) option"
  ecdsaVerify :: "bytes \<Rightarrow> bytes \<Rightarrow> 256 word \<Rightarrow> 256 word \<Rightarrow> bool option"
  ed25519Generate :: "(bytes \<times> 'p) option"
  ed25519Sign :: "'p \<Rightarrow> bytes \<Rightarrow> bytes"
  ed25519Verify :: "bytes \<Rightarrow> bytes \<Rightarrow> bytes \<Rightarrow> bool"

record 'p signing_key =
  Zone :: string
  PrivateKey :: "'p Signer"
  PublicKey :: bytes
  DNSKEYWire :: bytes
  key_Flags :: u16
  key_Tag :: u16
  Algorithm :: byte
  Protocol :: byte

text \<open>The checksum of RFC 4034, appendix B: \<open>i\<close> is the index of the next byte.\<close>

fun key_tag_sum :: "nat \<Rightarrow> u32 \<Rightarrow> bytes \<Rightarrow> u32" where
  "key_tag_sum i ac [] = ac"
| "key_tag_sum i ac (b # rest) =
     (if odd i then key_tag_sum (Suc i) (ac + ucast b) rest
      else key_tag_sum (Suc i) (ac + push_bit 8 (ucast b)) rest)"

definition KeyTag :: "bytes \<Rightarrow> u16" where
  "KeyTag rdata =
     (let ac = key_tag_sum 0 0 rdata;
          ac = ac + (drop_bit 16 ac AND 0xFFFF)
      in ucast (ac AND 0xFFFF))"

definition canonicalZone :: "(string \<Rightarrow> string) \<Rightarrow> string \<Rightarrow> string" where
  "canonicalZone ul name =
     (let lower = ToLower ul (TrimSpace name) in
      if lower = [] \<or> lower = ''.'' then ''.''
      else if \<not> suffix ''.'' lower then lower @ ''.'' else lower)"

definition newKey ::
  "(string \<Rightarrow> string) \<Rightarrow> string \<Rightarrow> u16 \<Rightarrow> byte \<Rightarrow> bytes \<Rightarrow> 'p Signer \<Rightarrow> 'p signing_key" where
  "newKey ul zone flags algo pub priv =
     (let wire = put16 flags @ [protocolDNSSEC, algo] @ pub in
      \<lparr>Zone = canonicalZone ul zone, PrivateKey = priv, PublicKey = pub, DNSKEYWire = wire,
       key_Flags = flags, key_Tag = KeyTag wire, Algorithm = algo, Protocol = protocolDNSSEC\<rparr>)"

definition NewECDSAKey ::
  "(string \<Rightarrow> string) \<Rightarrow> 'p crypto \<Rightarrow> string \<Rightarrow> u16 \<Rightarrow> dnssec_error + 'p signing_key" where
  "NewECDSAKey ul C zone flags =
     (case ecdsaGenerate C of
        None \<Rightarrow> Inl ErrCrypto
      | Some priv \<Rightarrow>
          (case ecdhBytes C priv of
             None \<Rightarrow> Inl ErrCrypto
           | Some ecdhKey \<Rightarrow> Inr (newKey ul zone flags ECDSAP256 (drop 1 ecdhKey) (EcdsaPrivate priv))))"

definition NewEd25519Key ::
  "(string \<Rightarrow> string) \<Rightarrow> 'p crypto \<Rightarrow> string \<Rightarrow> u16 \<Rightarrow> dnssec_error + 'p signing_key" where
  "NewEd25519Key ul C zone flags =
     (case ed25519Generate C of
        None \<Rightarrow> Inl ErrCrypto
      | Some (pub, priv) \<Rightarrow> Inr (newKey ul zone flags ED25519 pub (Ed25519Private priv)))"

definition Key_DS :: "(string \<Rightarrow> string) \<Rightarrow> 'p crypto \<Rightarrow> 'p signing_key \<Rightarrow> bytes" where
  "Key_DS ul C k =
     (let digest = sha256 C (EncodeDomainName ul (Zone k) @ DNSKEYWire k) in
      put16 (key_Tag k) @ [Algorithm k, DigestSHA256] @ digest)"

text \<open>\<open>big.Int.FillBytes\<close> and \<open>big.Int.SetBytes\<close> on the halves of a signature.\<close>

fun FillBytes :: "nat \<Rightarrow> 256 word \<Rightarrow> bytes" where
  "FillBytes 0 x = []"
| "FillBytes (Suc n) x = FillBytes n (drop_bit 8 x) @ [ucast x]"

definition SetBytes :: "bytes \<Rightarrow> 256 word" where
  "SetBytes bs = foldl (\<lambda>x b. push_bit 8 x OR ucast b) 0 bs"

definition Key_Sign :: "'p crypto \<Rightarrow> 'p signing_key \<Rightarrow> bytes \<Rightarrow> dnssec_error + bytes" where
  "Key_Sign C k data =
     (if Algorithm k = ECDSAP256 then
        (case PrivateKey k of
           EcdsaPrivate priv \<Rightarrow>
             (case ecdsaSign C priv (sha256 C data) of
                None \<Rightarrow> Inl ErrCrypto
              | Some (r, s) \<Rightarrow> Inr (FillBytes 32 r @ FillBytes 32 s))
         | _ \<Rightarrow> Inl ErrNotECDSA)
      else if Algorithm k = ED25519 then
        (case PrivateKey k of
           Ed25519Private priv \<Rightarrow> Inr (ed25519Sign C priv data)
         | _ \<Rightarrow> Inl ErrNotEd25519)
      else Inl ErrUnsupportedAlgorithm)"

section \<open>Signatures (signer.go)\<close>

abbreviation rrsigHeaderFixedSize :: nat where "rrsigHeaderFixedSize \<equiv> 18"

definition countLabels :: "(string \<Rightarrow> string) \<Rightarrow> string \<Rightarrow> nat" where
  "countLabels ul name =
     (let canonical = TrimSuffix (canonicalZone ul name) ''.'' in
      if canonical = [] then 0 else length (split_on CHR ''.'' canonical))"

text \<open>\<open>bytes.Compare\<close> is the lexicographic order on byte lists.  Equal payloads are
  indistinguishable, so every sort by it gives the list \<open>sort\<close> gives.\<close>

definition buildSignBuffer :: "(string \<Rightarrow> string) \<Rightarrow> bytes \<Rightarrow> string \<Rightarrow> RRSet \<Rightarrow> bytes" where
  "buildSignBuffer ul hdr owner record =
     hdr @ concat (map (\<lambda>rdata.
        EncodeDomainName ul owner @ put16 (rr_Type record) @ put16 (rr_Class record) @
        put32 (TTL record) @ put16 (word_of_nat (min (length rdata) 65535)) @ rdata)
       (sort (RData record)))"

definition rrsig_header ::
  "(string \<Rightarrow> string) \<Rightarrow> string \<Rightarrow> RRSet \<Rightarrow> 'p signing_key \<Rightarrow> int \<Rightarrow> int \<Rightarrow> bytes" where
  "rrsig_header ul owner record k inception expiration =
     put16 (rr_Type record) @ [Algorithm k, word_of_nat (min (countLabels ul owner) 255)] @
     put32 (TTL record) @ put32 (word_of_int (max 0 expiration)) @
     put32 (word_of_int (max 0 inception)) @ put16 (key_Tag k) @
     EncodeDomainName ul (canonicalZone ul (Zone k))"

definition dnssec_Sign ::
  "(string \<Rightarrow> string) \<Rightarrow> 'p crypto \<Rightarrow> string \<Rightarrow> RRSet \<Rightarrow> 'p signing_key \<Rightarrow> int \<Rightarrow> int \<Rightarrow>
   dnssec_error + RRSet" where
  "dnssec_Sign ul C owner record k inception expiration =
     (if RData record = [] then Inl ErrEmptyRRSet
      else
        (let owner = canonicalZone ul owner;
             hdr = rrsig_header ul owner record k inception expiration
         in res_bind (Key_Sign C k (buildSignBuffer ul hdr owner record)) (\<lambda>sig.
              Inr \<lparr>RData = [hdr @ sig], TTL = TTL record, rr_Type = TypeRRSIG, rr_Class = ClassIN\<rparr>)))"

text \<open>The loop of \<open>Verify\<close> that looks for the end of the signer's name.\<close>

function signer_end :: "bytes \<Rightarrow> nat \<Rightarrow> nat option" where
  "signer_end rdata pos =
     (if pos \<ge> length rdata then None
      else if rdata ! pos = 0 then Some (pos + 1)
      else signer_end rdata (pos + 1 + unat (rdata ! pos)))"
  by pat_completeness auto
termination by (relation "measure (\<lambda>(rdata, pos). length rdata - pos)") auto

declare signer_end.simps [simp del]

text \<open>\<open>Verify\<close> returns nil (\<open>None\<close>) or an error.\<close>

definition dnssec_Verify ::
  "(string \<Rightarrow> string) \<Rightarrow> 'p crypto \<Rightarrow> string \<Rightarrow> RRSet \<Rightarrow> bytes \<Rightarrow> bytes \<Rightarrow> byte \<Rightarrow> dnssec_error option" where
  "dnssec_Verify ul C owner record rrsigRData pubKey algorithm =
     (if length rrsigRData < rrsigHeaderFixedSize then Some ErrMalformedRRSIG
      else case signer_end rrsigRData rrsigHeaderFixedSize of
        None \<Rightarrow> Some ErrMalformedRRSIG
      | Some signerWireEnd \<Rightarrow>
          (let hdr = take signerWireEnd rrsigRData;
               sig = drop signerWireEnd rrsigRData;
               verifyBuf = buildSignBuffer ul hdr owner record
           in if algorithm = ECDSAP256 then
                (if length pubKey \<noteq> 64 \<or> length sig \<noteq> 64 then Some ErrInvalidSignature
                 else case ecdsaVerify C (4 # pubKey) (sha256 C verifyBuf)
                          (SetBytes (take 32 sig)) (SetBytes (drop 32 sig)) of
                        Some True \<Rightarrow> None
                      | _ \<Rightarrow> Some ErrInvalidSignature)
              else if algorithm = ED25519 then
                (if length pubKey \<noteq> 32 \<or> length sig \<noteq> 64 then Some ErrInvalidSignature
                 else if \<not> ed25519Verify C pubKey verifyBuf sig then Some ErrInvalidSignature
                 else None)
              else Some ErrUnsupportedAlgorithm))"

section \<open>Denial of existence (nsec.go)\<close>

text \<open>One round of the loop that collects the windows, a map from the high byte of a type to a
  bitmap over the low one.\<close>

definition window_insert :: "dns_type \<Rightarrow> (byte \<times> bytes) list \<Rightarrow> (byte \<times> bytes) list" where
  "window_insert t windows =
     (let window = ucast (drop_bit 8 t) :: byte;
          typeLow = ucast (t AND 0xFF) :: byte;
          byteIndex = typeLow div 8;
          bitIndex = 7 - (typeLow mod 8);
          bm = (case map_of windows window of Some bm \<Rightarrow> bm | None \<Rightarrow> []);
          bm = (if unat byteIndex \<ge> length bm
                then copy_at (replicate (unat (byteIndex + 1)) 0) 0 bm else bm);
          bm = bm[unat byteIndex := (bm ! unat byteIndex) OR push_bit (unat bitIndex) 1]
      in AList.update window bm windows)"

text \<open>The window numbers are sorted before they are written, so the order in which Go ranges over
  the map does not matter.\<close>

definition encodeWindowedBitmaps :: "dns_type list \<Rightarrow> bytes" where
  "encodeWindowedBitmaps types =
     (let windows = fold window_insert types [];
          windowNums = sort (map fst windows)
      in concat (map (\<lambda>w. let bm = the (map_of windows w) in
           [w, word_of_nat (length bm)] @ bm) windowNums))"

definition NSEC :: "(string \<Rightarrow> string) \<Rightarrow> string \<Rightarrow> string \<Rightarrow> dns_type list \<Rightarrow> u32 \<Rightarrow> RRSet" where
  "NSEC ul owner nextOwner types ttl =
     (let nextWire = EncodeDomainName ul nextOwner;
          allTypes = types;
          allTypes = (if TypeRRSIG \<notin> set allTypes then allTypes @ [TypeRRSIG] else allTypes);
          allTypes = (if TypeNSEC \<notin> set allTypes then allTypes @ [TypeNSEC] else allTypes)
      in \<lparr>RData = [nextWire @ encodeWindowedBitmaps allTypes], TTL = ttl,
          rr_Type = TypeNSEC, rr_Class = ClassIN\<rparr>)"

section \<open>The manager (manager.go)\<close>

abbreviation hour :: int where "hour \<equiv> 3600"
abbreviation defaultNSECTTL :: u32 where "defaultNSECTTL \<equiv> 300"
abbreviation defaultDNSKEYTTL :: u32 where "defaultDNSKEYTTL \<equiv> 3600"

text \<open>The keys of a zone that the Go map lacks are the nil slice.\<close>

record 'p Manager =
  keys :: "string \<Rightarrow> 'p signing_key list"

definition NewManager :: "'p Manager" where
  "NewManager = \<lparr>keys = (\<lambda>_. [])\<rparr>"

definition manager_Add ::
  "(string \<Rightarrow> string) \<Rightarrow> 'p Manager \<Rightarrow> 'p signing_key option \<Rightarrow> 'p Manager" where
  "manager_Add ul m k =
     (case k of
        None \<Rightarrow> m
      | Some k \<Rightarrow>
          (let zone = canonicalZone ul (Zone k) in
           m\<lparr>keys := (keys m)(zone := keys m zone @ [k])\<rparr>))"

definition HasKeys :: "(string \<Rightarrow> string) \<Rightarrow> 'p Manager \<Rightarrow> string \<Rightarrow> bool" where
  "HasKeys ul m zone \<longleftrightarrow> length (keys m (canonicalZone ul zone)) > 0"

definition Keys :: "(string \<Rightarrow> string) \<Rightarrow> 'p Manager \<Rightarrow> string \<Rightarrow> 'p signing_key list" where
  "Keys ul m zone = keys m (canonicalZone ul zone)"

text \<open>The loop of \<open>KeysForZone\<close>, which \<open>findMatchingKeys\<close> repeats word for word: an endless loop
  left by \<open>return\<close> and \<open>break\<close>, so not returning is the value \<open>None\<close>.\<close>

partial_function (option) keys_loop ::
  "(string \<Rightarrow> string) \<Rightarrow> 'p Manager \<Rightarrow> string \<Rightarrow> 'p signing_key list option" where
  [code]: "keys_loop ul m cur =
     (if Keys ul m cur \<noteq> [] then Some (Keys ul m cur)
      else if cur = ''.'' then Some []
      else (case IndexByte cur CHR ''.'' of
              None \<Rightarrow> keys_loop ul m ''.''
            | Some dotIdx \<Rightarrow> keys_loop ul m (drop (dotIdx + 1) cur)))"

definition KeysForZone ::
  "(string \<Rightarrow> string) \<Rightarrow> 'p Manager \<Rightarrow> string \<Rightarrow> 'p signing_key list option" where
  "KeysForZone ul m name = keys_loop ul m (canonicalZone ul name)"

definition findMatchingKeys ::
  "(string \<Rightarrow> string) \<Rightarrow> 'p Manager \<Rightarrow> string \<Rightarrow> 'p signing_key list option" where
  "findMatchingKeys ul m domain = keys_loop ul m (canonicalZone ul domain)"

definition manager_DNSKEY ::
  "(string \<Rightarrow> string) \<Rightarrow> 'p Manager \<Rightarrow> string \<Rightarrow> u32 \<Rightarrow> RRSet option" where
  "manager_DNSKEY ul m zone ttl =
     (let ks = Keys ul m zone in
      if ks = [] then None
      else Some \<lparr>RData = map DNSKEYWire ks, TTL = ttl, rr_Type = TypeDNSKEY, rr_Class = ClassIN\<rparr>)"

definition manager_DS ::
  "(string \<Rightarrow> string) \<Rightarrow> 'p crypto \<Rightarrow> string \<Rightarrow> 'p signing_key \<Rightarrow> RRSet" where
  "manager_DS ul C zone ksk =
     (let digest = sha256 C (EncodeDomainName ul zone @ DNSKEYWire ksk) in
      \<lparr>RData = [put16 (key_Tag ksk) @ [Algorithm ksk, DigestSHA256] @ digest], TTL = 300,
       rr_Type = TypeDS, rr_Class = ClassIN\<rparr>)"

text \<open>\<open>now\<close> is in seconds of Unix time: only whole hours are added to it and only seconds are read.
  The boolean is the function's result, whether a key set was found.\<close>

definition synthesizeDNSKEY ::
  "(string \<Rightarrow> string) \<Rightarrow> 'p crypto \<Rightarrow> 'p Manager \<Rightarrow> string \<Rightarrow> Result \<Rightarrow> int \<Rightarrow> bool \<times> Result" where
  "synthesizeDNSKEY ul C m canonicalQName res now =
     (case manager_DNSKEY ul m canonicalQName defaultDNSKEYTTL of
        None \<Rightarrow> (False, res)
      | Some dnsKeySet \<Rightarrow>
          (let res = res\<lparr>RCode := RCodeSuccess, Answer := dnsKeySet\<rparr> in
           (True,
            case Keys ul m canonicalQName of
              [] \<Rightarrow> res
            | key # _ \<Rightarrow>
                (case dnssec_Sign ul C canonicalQName dnsKeySet key (now - hour) (now + 24 * hour) of
                   Inl _ \<Rightarrow> res
                 | Inr rrSig \<Rightarrow> res\<lparr>AnswerRRSIG := rrSig\<rparr>))))"

text \<open>The body the two denial branches share: an NSEC record owned by the query name, signed.\<close>

definition deny ::
  "(string \<Rightarrow> string) \<Rightarrow> 'p crypto \<Rightarrow> 'p signing_key \<Rightarrow> string \<Rightarrow> dns_type list \<Rightarrow> Result \<Rightarrow> int \<Rightarrow> Result" where
  "deny ul C key canonicalQName types res now =
     (let apex = canonicalZone ul (Zone key);
          nsecRecord = NSEC ul canonicalQName apex types defaultNSECTTL
      in case dnssec_Sign ul C canonicalQName nsecRecord key (now - hour) (now + 24 * hour) of
           Inl _ \<Rightarrow> res
         | Inr sig \<Rightarrow> res\<lparr>Authority := nsecRecord, AuthorityRRSIG := sig, AuthorityName := canonicalQName\<rparr>)"

text \<open>\<open>None\<close> on the outside is a call that does not return.\<close>

definition SignResult ::
  "(string \<Rightarrow> string) \<Rightarrow> 'p crypto \<Rightarrow> 'p Manager option \<Rightarrow> string \<Rightarrow> dns_type \<Rightarrow> Result \<Rightarrow> int \<Rightarrow> Result option" where
  "SignResult ul C mgr qName qType res now =
     (case mgr of
        None \<Rightarrow> Some res
      | Some m \<Rightarrow>
          (let canonicalQName = canonicalZone ul qName;
               synth = (if qType = TypeDNSKEY \<and> (\<not> HasAnswer res \<or> rr_Type (Answer res) \<noteq> TypeDNSKEY)
                        then synthesizeDNSKEY ul C m canonicalQName res now else (False, res))
           in if fst synth then Some (snd synth)
              else (case findMatchingKeys ul m canonicalQName of
                 None \<Rightarrow> None
               | Some [] \<Rightarrow> Some res
               | Some (key # _) \<Rightarrow>
                   if RCode res = RCodeSuccess \<and> HasAnswer res then
                     Some (if rr_Type (Answer res) \<noteq> TypeRRSIG
                           then (case dnssec_Sign ul C canonicalQName (Answer res) key (now - hour) (now + 24 * hour) of
                                   Inl _ \<Rightarrow> res
                                 | Inr rrSig \<Rightarrow> res\<lparr>AnswerRRSIG := rrSig\<rparr>)
                           else res)
                   else if RCode res = RCodeNameError then Some (deny ul C key canonicalQName [] res now)
                   else if RCode res = RCodeSuccess
                     then Some (deny ul C key canonicalQName [TypeSOA, TypeNS] res now)
                   else Some res)))"

section \<open>The search for a key\<close>

text \<open>The names the loop looks up: the name itself, what follows each of its dots, the root.\<close>

definition enclosing :: "string \<Rightarrow> string list" where
  "enclosing name =
     (let ls = split_on CHR ''.'' name in map (\<lambda>j. join_with CHR ''.'' (drop j ls)) [0..<length ls] @ [''.''])"

definition closest_keys :: "(string \<Rightarrow> string) \<Rightarrow> 'p Manager \<Rightarrow> string list \<Rightarrow> 'p signing_key list" where
  "closest_keys ul m zones =
     (case find (\<lambda>z. Keys ul m z \<noteq> []) zones of Some z \<Rightarrow> Keys ul m z | None \<Rightarrow> [])"

lemma enclosing_no_dot: "CHR ''.'' \<notin> set s \<Longrightarrow> enclosing s = [s, ''.'']"
  by (simp add: enclosing_def split_on_no_sep)

lemma enclosing_dot:
  assumes "CHR ''.'' \<notin> set s"
  shows "enclosing (s @ CHR ''.'' # t) = (s @ CHR ''.'' # t) # enclosing t"
proof -
  let ?n = "length (split_on CHR ''.'' t)"
  have sp: "split_on CHR ''.'' (s @ CHR ''.'' # t) = s # split_on CHR ''.'' t"
    using assms by (simp add: split_on_append_sep split_on_no_sep)
  have "join_with CHR ''.'' (s # split_on CHR ''.'' t) = s @ CHR ''.'' # t"
    by (simp add: join_with_Cons)
  moreover have "[0..<Suc ?n] = 0 # map Suc [0..<?n]" by (simp only: map_Suc_upt upt_conv_Cons [of 0 "Suc ?n"] zero_less_Suc)
  ultimately show ?thesis by (simp add: enclosing_def Let_def sp comp_def del: upt_Suc)
qed

lemma canonicalZone_Nil [simp]: "canonicalZone ul [] = ''.''"
  and canonicalZone_root [simp]: "canonicalZone ul ''.'' = ''.''"
  by (simp_all add: canonicalZone_def TrimSpace_host ToLower_def is_ascii_def lower_ascii_def host_char_def)

lemma closest_keys_root: "closest_keys ul m [''.''] = Keys ul m ''.''"
  by (simp add: closest_keys_def)

lemma enclosing_root: "enclosing ''.'' = [''.'', [], ''.'']"
  using enclosing_dot [of "[]" "[]"] by (simp add: enclosing_no_dot)

lemma keys_loop_root: "keys_loop ul m ''.'' = Some (Keys ul m ''.'')"
  by (subst keys_loop.simps) simp

lemma enclosing_first: "\<exists>r. enclosing s = s # r"
  by (simp add: enclosing_def Let_def upt_conv_Cons [of 0])

lemma keys_loop_found: "Keys ul m s \<noteq> [] \<Longrightarrow> keys_loop ul m s = Some (closest_keys ul m (enclosing s))"
  using enclosing_first [of s] by (auto simp: keys_loop.simps [of ul m s] closest_keys_def)

lemma closest_keys_skip: "Keys ul m z = [] \<Longrightarrow> closest_keys ul m (z # zs) = closest_keys ul m zs"
  by (simp add: closest_keys_def)

lemma keys_loop_closest: "keys_loop ul m s = Some (closest_keys ul m (enclosing s))"
proof (induction s rule: length_induct)
  case (1 s)
  consider "Keys ul m s \<noteq> []" | "Keys ul m s = []" "s = ''.''"
    | "Keys ul m s = []" "s \<noteq> ''.''" "IndexByte s CHR ''.'' = None"
    | i where "Keys ul m s = []" "s \<noteq> ''.''" "IndexByte s CHR ''.'' = Some i"
    by fastforce
  then show ?case
  proof cases
    case 2
    then have "Keys ul m [] = []" by (simp add: Keys_def)
    with 2 show ?thesis by (simp add: keys_loop_root enclosing_root closest_keys_def)
  next
    case 3
    then have "enclosing s = [s, ''.'']" by (simp add: IndexByte_None enclosing_no_dot)
    with 3 show ?thesis
      by (simp add: keys_loop.simps [of ul m s] keys_loop_root closest_keys_skip closest_keys_root)
  next
    case (4 i)
    note i = IndexByte_Some [OF 4(3)]
    have s: "take i s @ CHR ''.'' # drop (Suc i) s = s"
      using i id_take_nth_drop [of i s, symmetric] by simp
    have e: "enclosing s = s # enclosing (drop (Suc i) s)"
      using enclosing_dot [of "take i s" "drop (Suc i) s"] i by (simp only: s simp_thms)
    have "keys_loop ul m (drop (Suc i) s) = Some (closest_keys ul m (enclosing (drop (Suc i) s)))"
      using "1" [rule_format, of "drop (Suc i) s"] conjunct1 [OF i] by simp
    with 4 show ?thesis by (simp add: keys_loop.simps [of ul m s] e closest_keys_skip)
  qed (rule keys_loop_found)
qed

section \<open>Signing and verifying\<close>

lemma length_FillBytes [simp]: "length (FillBytes n x) = n"
  by (induction n arbitrary: x) auto

lemma SetBytes_snoc: "SetBytes (bs @ [b]) = push_bit 8 (SetBytes bs) OR ucast b"
  by (simp add: SetBytes_def)

lemma SetBytes_FillBytes: "SetBytes (FillBytes n x) = take_bit (8 * n) x"
proof (induction n arbitrary: x)
  case (Suc n)
  have "push_bit 8 (take_bit (8 * n) (drop_bit 8 x)) OR ucast (ucast x :: byte) = take_bit (8 * Suc n) x"
    by (rule bit_word_eqI) (auto simp: bit_simps not_less)
  with Suc show ?case by (simp add: SetBytes_snoc)
qed (simp add: SetBytes_def)

lemma SetBytes_FillBytes_32: "SetBytes (FillBytes 32 x) = x"
  by (simp add: SetBytes_FillBytes take_bit_word_eq_self)

text \<open>A name whose labels are all non-empty is self-delimiting: the loop of \<open>Verify\<close> stops at the
  end of its wire form.\<close>

definition full_labels :: "string list \<Rightarrow> bool" where
  "full_labels ls \<longleftrightarrow> [] \<notin> set ls"

lemma length_encode_label: "length (encode_label l) = Suc (min (length l) 63)"
  by (simp add: encode_label_def Let_def)

lemma encode_label_first:
  assumes "l \<noteq> []" shows "encode_label l ! 0 \<noteq> 0" and "unat (encode_label l ! 0) = min (length l) 63"
proof -
  have u: "unat (word_of_nat (min (length l) 63) :: byte) = min (length l) 63"
    by (simp add: unat_of_nat)
  then show "unat (encode_label l ! 0) = min (length l) 63"
    by (simp add: encode_label_def Let_def)
  moreover have "min (length l) 63 \<noteq> 0" using assms by simp
  ultimately show "encode_label l ! 0 \<noteq> 0" by (metis unsigned_0)
qed

lemma signer_end_labels:
  "full_labels ls \<Longrightarrow>
   signer_end (pre @ concat (map encode_label ls) @ 0 # rest) (length pre) =
     Some (length pre + length (concat (map encode_label ls)) + 1)"
proof (induction ls arbitrary: pre)
  case Nil
  then show ?case by (simp add: signer_end.simps [of _ "length pre"])
next
  case (Cons l ls)
  let ?r = "pre @ concat (map encode_label (l # ls)) @ 0 # rest"
  have l: "l \<noteq> []" and ls: "full_labels ls" using Cons.prems by (auto simp: full_labels_def)
  have "?r ! length pre = encode_label l ! 0"
    by (simp add: nth_append length_encode_label)
  then have "signer_end ?r (length pre) = signer_end ?r (length pre + length (encode_label l))"
    using encode_label_first [OF l]
    by (subst signer_end.simps) (simp add: length_encode_label)
  also have "\<dots> = Some (length (pre @ encode_label l) + length (concat (map encode_label ls)) + 1)"
    using Cons.IH [OF ls, of "pre @ encode_label l"] by simp
  finally show ?case by simp
qed

definition full_name :: "(string \<Rightarrow> string) \<Rightarrow> string \<Rightarrow> bool" where
  "full_name ul name \<longleftrightarrow>
     (let c = ToLower ul (TrimSpace name) in
      c = [] \<or> c = ''.'' \<or> full_labels (split_on CHR ''.'' (TrimSuffix c ''.'')))"

lemma Encode_full:
  assumes "full_name ul name"
  obtains ls where "full_labels ls" and "EncodeDomainName ul name = concat (map encode_label ls) @ [0]"
proof (cases "ToLower ul (TrimSpace name) = [] \<or> ToLower ul (TrimSpace name) = ''.''")
  case True
  then show thesis using that [of "[]"] by (auto simp: EncodeDomainName_def full_labels_def)
next
  case False
  then show thesis using assms that by (auto simp: EncodeDomainName_def full_name_def Let_def)
qed

lemma signer_end_Encode:
  assumes "full_name ul name"
  shows "signer_end (pre @ EncodeDomainName ul name @ rest) (length pre) =
    Some (length pre + length (EncodeDomainName ul name))"
proof -
  from assms obtain ls where "full_labels ls"
    and "EncodeDomainName ul name = concat (map encode_label ls) @ [0]" by (rule Encode_full)
  then show ?thesis using signer_end_labels [of ls pre rest] by simp
qed

lemma Encode_prefix_free:
  assumes "full_name ul a" and "full_name ul b"
    and e: "EncodeDomainName ul a @ x = EncodeDomainName ul b @ y"
  shows "EncodeDomainName ul a = EncodeDomainName ul b \<and> x = y"
proof -
  have "length (EncodeDomainName ul a) = length (EncodeDomainName ul b)"
    using signer_end_Encode [OF assms(1), of "[]" x] signer_end_Encode [OF assms(2), of "[]" y] e by simp
  with e show ?thesis by simp
qed

text \<open>What the code relies on of a key: its private half belongs to its algorithm, and what it signs
  verifies under its public half.\<close>

definition key_pair :: "'p crypto \<Rightarrow> 'p signing_key \<Rightarrow> bool" where
  "key_pair C k \<longleftrightarrow>
     Algorithm k = ECDSAP256 \<and> length (PublicKey k) = 64 \<and>
       (\<exists>p. PrivateKey k = EcdsaPrivate p \<and>
         (\<forall>d. \<exists>r s. ecdsaSign C p d = Some (r, s) \<and> ecdsaVerify C (4 # PublicKey k) d r s = Some True)) \<or>
     Algorithm k = ED25519 \<and> length (PublicKey k) = 32 \<and>
       (\<exists>p. PrivateKey k = Ed25519Private p \<and>
         (\<forall>d. length (ed25519Sign C p d) = 64 \<and> ed25519Verify C (PublicKey k) d (ed25519Sign C p d)))"

lemma Verify_split:
  assumes "length fixed = 18" and "full_name ul zone"
  shows "signer_end ((fixed @ EncodeDomainName ul zone) @ sig) 18 = Some (length (fixed @ EncodeDomainName ul zone))"
  using signer_end_Encode [OF assms(2), of fixed sig] assms(1) by simp

lemma Key_Sign_Verify:
  assumes k: "key_pair C k" and f: "length fixed = 18" and z: "full_name ul zone"
    and hdr: "hdr = fixed @ EncodeDomainName ul zone"
  shows "\<exists>sig. Key_Sign C k (buildSignBuffer ul hdr owner record) = Inr sig \<and>
    dnssec_Verify ul C owner record (hdr @ sig) (PublicKey k) (Algorithm k) = None"
proof -
  let ?b = "buildSignBuffer ul hdr owner record"
  note scan = Verify_split [OF f z, folded hdr]
  have len: "\<not> length (hdr @ sig) < 18" for sig using f hdr by simp
  from k consider
      p where "Algorithm k = ECDSAP256" "length (PublicKey k) = 64" "PrivateKey k = EcdsaPrivate p"
        "\<forall>d. \<exists>r s. ecdsaSign C p d = Some (r, s) \<and> ecdsaVerify C (4 # PublicKey k) d r s = Some True"
    | p where "Algorithm k = ED25519" "length (PublicKey k) = 32" "PrivateKey k = Ed25519Private p"
        "\<forall>d. length (ed25519Sign C p d) = 64 \<and> ed25519Verify C (PublicKey k) d (ed25519Sign C p d)"
    unfolding key_pair_def by blast
  then show ?thesis
  proof cases
    case (1 p)
    then obtain r s where rs: "ecdsaSign C p (sha256 C ?b) = Some (r, s)"
      "ecdsaVerify C (4 # PublicKey k) (sha256 C ?b) r s = Some True" by blast
    let ?sig = "FillBytes 32 r @ FillBytes 32 s"
    have "Key_Sign C k ?b = Inr ?sig" using 1 rs by (simp add: Key_Sign_def)
    moreover have "dnssec_Verify ul C owner record (hdr @ ?sig) (PublicKey k) (Algorithm k) = None"
      unfolding dnssec_Verify_def using 1 rs len [of ?sig] scan [of ?sig]
      by (simp add: SetBytes_FillBytes_32 del: FillBytes.simps)
    ultimately show ?thesis by blast
  next
    case (2 p)
    let ?sig = "ed25519Sign C p ?b"
    have "Key_Sign C k ?b = Inr ?sig" using 2 by (simp add: Key_Sign_def)
    moreover have "dnssec_Verify ul C owner record (hdr @ ?sig) (PublicKey k) (Algorithm k) = None"
      unfolding dnssec_Verify_def using 2 len [of ?sig] scan [of ?sig] by simp
    ultimately show ?thesis by blast
  qed
qed

text \<open>On names of host characters the canonical form has the same wire form.\<close>

lemma canonicalZone_host:
  "list_all host_char s \<Longrightarrow> canonicalZone ul s =
     (if s = [] then ''.'' else if last s = CHR ''.'' then lower_ascii s else lower_ascii s @ ''.'')"
  by (auto simp: canonicalZone_def TrimSpace_host ToLower_host suffix_dot lower_ascii_def last_map Let_def)

lemma canonicalZone_host_char: "list_all host_char s \<Longrightarrow> list_all host_char (canonicalZone ul s)"
  using host_lower [of s] by (auto simp: canonicalZone_host host_char_def)

lemma canonicalZone_idem: "list_all host_char s \<Longrightarrow> canonicalZone ul (canonicalZone ul s) = canonicalZone ul s"
  using canonicalZone_host_char [of s ul]
  by (subst canonicalZone_host) (auto simp: canonicalZone_host lower_ascii_def last_map)

lemma Encode_canonicalZone:
  assumes "list_all host_char s"
  shows "EncodeDomainName ul (canonicalZone ul s) = EncodeDomainName ul s"
proof (cases "s = [] \<or> last s = CHR ''.''")
  case True
  then show ?thesis
    using assms host_lower [OF assms]
    by (auto simp: canonicalZone_host Encode_host host_char_def lower_ascii_def comp_def)
next
  case False
  have h: "list_all host_char (lower_ascii s @ ''.'')"
    using host_lower [OF assms] by (simp add: host_char_def)
  have l: "last (lower_ascii s) \<noteq> CHR ''.''" "lower_ascii s \<noteq> []"
    using False by (simp_all add: lower_ascii_def last_map)
  then have "lower_ascii s \<noteq> ''.''" by auto
  moreover have "lower_ascii ''.'' = ''.''" by (simp add: lower_ascii_def)
  ultimately show ?thesis
    using False l assms Encode_host [OF h, of ul]
    by (simp add: canonicalZone_host Encode_host TrimSuffix_dot butlast_append)
qed

section \<open>What a signature covers\<close>

abbreviation sign_entry :: "(string \<Rightarrow> string) \<Rightarrow> string \<Rightarrow> RRSet \<Rightarrow> bytes \<Rightarrow> bytes" where
  "sign_entry ul owner r rdata \<equiv>
     EncodeDomainName ul owner @ put16 (rr_Type r) @ put16 (rr_Class r) @ put32 (TTL r) @
     put16 (word_of_nat (min (length rdata) 65535)) @ rdata"

definition fits :: "RRSet \<Rightarrow> bool" where
  "fits r \<longleftrightarrow> list_all (\<lambda>rdata. length rdata \<le> 65535) (RData r)"

lemma sign_entry_inject:
  assumes "full_name ul a" and "full_name ul b"
    and len: "length d \<le> 65535" "length d' \<le> 65535"
    and e: "sign_entry ul a r d @ x = sign_entry ul b r' d' @ y"
  shows "EncodeDomainName ul a = EncodeDomainName ul b \<and> rr_Type r = rr_Type r' \<and>
    rr_Class r = rr_Class r' \<and> TTL r = TTL r' \<and> d = d' \<and> x = y"
proof -
  from Encode_prefix_free [OF assms(1,2)] e
  have w: "EncodeDomainName ul a = EncodeDomainName ul b" by (metis append_assoc)
  with e have t: "rr_Type r = rr_Type r'" "rr_Class r = rr_Class r'" "TTL r = TTL r'"
    and l: "(word_of_nat (min (length d) 65535) :: u16) = word_of_nat (min (length d') 65535)"
    and r: "d @ x = d' @ y" by simp_all
  have "unat (word_of_nat (min n 65535) :: u16) = min n 65535" for n by (simp add: unat_of_nat)
  with l len have "length d = length d'" by (metis min.absorb1)
  with r w t show ?thesis by simp
qed

lemma sign_entries_inject:
  assumes "full_name ul a" and "full_name ul b"
  shows "list_all (\<lambda>d. length d \<le> 65535) xs \<Longrightarrow> list_all (\<lambda>d. length d \<le> 65535) ys \<Longrightarrow>
    concat (map (sign_entry ul a r) xs) = concat (map (sign_entry ul b r') ys) \<Longrightarrow> xs = ys"
proof (induction xs arbitrary: ys)
  case Nil
  then show ?case by (cases ys) (auto dest: arg_cong [of _ _ length])
next
  case (Cons x xs)
  then obtain y ys' where ys: "ys = y # ys'"
    by (cases ys) (auto dest: arg_cong [of _ _ length])
  have "x = y \<and> concat (map (sign_entry ul a r) xs) = concat (map (sign_entry ul b r') ys')"
    using sign_entry_inject [OF assms, of x y r "concat (map (sign_entry ul a r) xs)" r'
        "concat (map (sign_entry ul b r') ys')"] Cons.prems ys by simp
  with Cons ys show ?case by simp
qed

lemma buildSignBuffer_inject:
  assumes n: "full_name ul a" "full_name ul b" and f: "fits r" "fits r'"
    and ne: "RData r \<noteq> []"
    and e: "buildSignBuffer ul hdr a r = buildSignBuffer ul hdr b r'"
  shows "EncodeDomainName ul a = EncodeDomainName ul b \<and> rr_Type r = rr_Type r' \<and>
    rr_Class r = rr_Class r' \<and> TTL r = TTL r' \<and> mset (RData r) = mset (RData r')"
proof -
  have l: "list_all (\<lambda>d. length d \<le> 65535) (sort (RData r))"
    "list_all (\<lambda>d. length d \<le> 65535) (sort (RData r'))"
    using f by (simp_all add: fits_def list_all_iff)
  have c: "concat (map (sign_entry ul a r) (sort (RData r))) = concat (map (sign_entry ul b r') (sort (RData r')))"
    using e by (simp add: buildSignBuffer_def)
  then have s: "sort (RData r) = sort (RData r')" by (rule sign_entries_inject [OF n l])
  from ne obtain x xs where x: "sort (RData r) = x # xs"
    by (metis length_0_conv length_sort neq_Nil_conv)
  then have "EncodeDomainName ul a = EncodeDomainName ul b \<and> rr_Type r = rr_Type r' \<and>
      rr_Class r = rr_Class r' \<and> TTL r = TTL r'"
    using sign_entry_inject [OF n, of x x r "concat (map (sign_entry ul a r) xs)" r'
        "concat (map (sign_entry ul b r') xs)"] c s l by simp
  moreover have "mset (RData r) = mset (RData r')" using s by (metis mset_sort)
  ultimately show ?thesis by blast
qed

lemma rrsig_header_split:
  "\<exists>fixed. length fixed = 18 \<and>
     rrsig_header ul own r k i e = fixed @ EncodeDomainName ul (canonicalZone ul (Zone k))"
  by (rule exI [of _ "put16 (rr_Type r) @ [Algorithm k, word_of_nat (min (countLabels ul own) 255)] @
     put32 (TTL r) @ put32 (word_of_int (max 0 e)) @ put32 (word_of_int (max 0 i)) @ put16 (key_Tag k)"])
    (simp add: rrsig_header_def)

lemma Sign_Inr:
  assumes k: "key_pair C k" and z: "full_name ul (canonicalZone ul (Zone k))" and ne: "RData r \<noteq> []"
    and own: "list_all host_char own"
  shows "\<exists>sig. dnssec_Sign ul C own r k i e = Inr \<lparr>RData = [sig], TTL = TTL r, rr_Type = TypeRRSIG, rr_Class = ClassIN\<rparr> \<and>
    dnssec_Verify ul C own r sig (PublicKey k) (Algorithm k) = None"
proof -
  let ?o = "canonicalZone ul own" and ?h = "rrsig_header ul (canonicalZone ul own) r k i e"
  obtain fixed where f: "length fixed = 18"
    and h: "?h = fixed @ EncodeDomainName ul (canonicalZone ul (Zone k))"
    using rrsig_header_split by blast
  from Key_Sign_Verify [OF k f z h, of ?o r] obtain sig
    where s: "Key_Sign C k (buildSignBuffer ul ?h ?o r) = Inr sig"
      and v: "dnssec_Verify ul C ?o r (?h @ sig) (PublicKey k) (Algorithm k) = None" by blast
  have b: "buildSignBuffer ul hdr ?o r = buildSignBuffer ul hdr own r" for hdr
    by (simp add: buildSignBuffer_def Encode_canonicalZone [OF own])
  have "dnssec_Verify ul C ?o r x p a = dnssec_Verify ul C own r x p a" for x p a
    unfolding dnssec_Verify_def b ..
  with v have "dnssec_Verify ul C own r (?h @ sig) (PublicKey k) (Algorithm k) = None" by simp
  with s ne show ?thesis by (simp add: dnssec_Sign_def Let_def)
qed

text \<open>A key made by a generator of the package, for a zone of host characters.\<close>

lemma Nil_eq_lower: "[] = lower_ascii s \<longleftrightarrow> s = []"
  by (cases s) (simp_all add: lower_ascii_def)

lemma full_name_host:
  assumes "list_all host_char s" and "s = [] \<or> s = ''.'' \<or> [] \<notin> set (split_on CHR ''.'' (TrimSuffix s ''.''))"
  shows "full_name ul s"
proof -
  have t: "TrimSuffix (lower_ascii s) ''.'' = lower_ascii (TrimSuffix s ''.'')"
    by (auto simp: TrimSuffix_dot lower_ascii_def last_map map_butlast)
  have "lower_ascii s = ''.''" if "s = ''.''" using that by (simp add: lower_ascii_def)
  moreover have "full_labels (split_on CHR ''.'' (lower_ascii (TrimSuffix s ''.'')))"
    if "[] \<notin> set (split_on CHR ''.'' (TrimSuffix s ''.''))"
    using that by (auto simp: full_labels_def split_on_lower Nil_eq_lower)
  ultimately show ?thesis
    using assms by (auto simp: full_name_def TrimSpace_host ToLower_host t Let_def)
qed

text \<open>A concrete signature scheme, for the witnesses: the signature repeats the public key.\<close>

definition toy_crypto :: "byte crypto" where
  "toy_crypto = \<lparr>sha256 = (\<lambda>d. take 32 (d @ replicate 32 0)), ecdsaGenerate = Some 7,
     ecdhBytes = (\<lambda>p. Some (4 # replicate 64 p)), ecdsaSign = (\<lambda>p d. Some (ucast p, 1)),
     ecdsaVerify = (\<lambda>pub d r s. Some (r = ucast (pub ! 1))), ed25519Generate = Some (replicate 32 9, 9),
     ed25519Sign = (\<lambda>p d. replicate 64 p), ed25519Verify = (\<lambda>pub d sig. hd sig = hd pub)\<rparr>"

abbreviation toy_key :: "byte signing_key" where
  "toy_key \<equiv> newKey id ''Example.com'' FlagZSK ED25519 (replicate 32 9) (Ed25519Private 9)"

lemma toy_key_made: "NewEd25519Key id toy_crypto ''Example.com'' FlagZSK = Inr toy_key"
  by (simp add: NewEd25519Key_def toy_crypto_def)

lemma toy_key_pair: "key_pair toy_crypto toy_key"
  by (simp add: key_pair_def newKey_def toy_crypto_def Let_def)

section \<open>The type bitmaps\<close>

text \<open>How RFC 4034, section 4.1.2, reads the bitmaps: a window number, a length, that many bytes, of
  which bit 0 is the most significant.\<close>

definition bit_set :: "bytes \<Rightarrow> nat \<Rightarrow> bool" where
  "bit_set bm n \<longleftrightarrow> n div 8 < length bm \<and> bit (bm ! (n div 8)) (7 - n mod 8)"

function bitmap_has :: "bytes \<Rightarrow> dns_type \<Rightarrow> bool" where
  "bitmap_has (w # len # rest) t \<longleftrightarrow>
     unat w = unat t div 256 \<and> bit_set (take (unat len) rest) (unat t mod 256) \<or>
     bitmap_has (drop (unat len) rest) t"
| "bitmap_has [] t \<longleftrightarrow> False"
| "bitmap_has [w] t \<longleftrightarrow> False"
  by pat_completeness auto
termination by (relation "measure (\<lambda>(bs, t). length bs)") auto

lemma window_of: "unat (ucast (drop_bit 8 t) :: byte) = unat (t :: u16) div 256"
proof -
  have "unat t < 65536" using unsigned_less [of t, where ?'a = nat] by simp
  moreover have "unat (drop_bit 8 t) = unat t div 256"
    using calculation unfolding unsigned_drop_bit_eq by (simp add: drop_bit_eq_div take_bit_eq_mod)
  ultimately show ?thesis by (simp only: unsigned_ucast_eq take_bit_eq_mod) simp
qed

lemma low_of: "unat (ucast (t AND 0xFF) :: byte) = unat (t :: u16) mod 256"
proof -
  have "t AND 0xFF = take_bit 8 t" by (simp add: take_bit_eq_mask mask_eq_exp_minus_1)
  moreover have "unat (take_bit 8 t) = unat t mod 256"
    unfolding unsigned_take_bit_eq by (simp add: take_bit_eq_mod)
  ultimately show ?thesis by (simp only: unsigned_ucast_eq take_bit_eq_mod) simp
qed

abbreviation window :: "dns_type \<Rightarrow> byte" where "window t \<equiv> ucast (drop_bit 8 t)"

text \<open>The update of one bitmap, over natural numbers.\<close>

definition grow :: "nat \<Rightarrow> bytes \<Rightarrow> bytes" where
  "grow i bm = (if i \<ge> length bm then copy_at (replicate (Suc i) 0) 0 bm else bm)"

definition mark :: "nat \<Rightarrow> bytes \<Rightarrow> bytes" where
  "mark n bm = (grow (n div 8) bm)[n div 8 := (grow (n div 8) bm ! (n div 8)) OR push_bit (7 - n mod 8) 1]"

lemma window_insert_mark:
  "window_insert t ws =
     AList.update (window t) (mark (unat t mod 256) (case map_of ws (window t) of Some bm \<Rightarrow> bm | None \<Rightarrow> [])) ws"
proof -
  let ?l = "ucast (t AND 0xFF) :: byte" and ?n = "unat t mod 256"
  have d: "unat (?l div 8) = ?n div 8" and m: "unat (?l mod 8) = ?n mod 8"
    using low_of [of t] by (simp_all add: unat_div unat_mod)
  have s: "unat (?l div 8 + 1) = Suc (?n div 8)"
    using d by (simp add: unat_word_ariths)
  have "?l mod 8 \<le> 7" using m by (simp add: word_le_nat_alt)
  then have b: "unat (7 - ?l mod 8) = 7 - ?n mod 8" by (simp add: unat_sub m)
  show ?thesis unfolding window_insert_def Let_def mark_def grow_def d s b ..
qed

lemma length_grow: "length (grow i bm) = max (length bm) (Suc i)"
  by (simp add: grow_def)

lemma nth_grow: "j < length (grow i bm) \<Longrightarrow> grow i bm ! j = (if j < length bm then bm ! j else 0)"
  by (auto simp: grow_def nth_copy_at simp del: replicate_Suc)

lemma bit_set_grow: "bit_set (grow i bm) m \<longleftrightarrow> bit_set bm m"
  by (cases "m div 8 < length (grow i bm)") (auto simp: bit_set_def nth_grow length_grow)

lemma length_mark: "length (mark n bm) = max (length bm) (Suc (n div 8))"
  by (simp add: mark_def length_grow)

lemma div_mod_8: "(7 :: nat) - m mod 8 = 7 - n mod 8 \<Longrightarrow> m div 8 = n div 8 \<Longrightarrow> m = n"
proof -
  assume "7 - m mod 8 = 7 - n mod 8" and d: "m div 8 = n div 8"
  moreover have "m mod 8 < 8" "n mod 8 < 8" by simp_all
  ultimately have "m mod 8 = n mod 8" by linarith
  with d show ?thesis by (metis mult_div_mod_eq)
qed

lemma bit_set_mark: "bit_set (mark n bm) m \<longleftrightarrow> m = n \<or> bit_set bm m"
proof (cases "m div 8 = n div 8")
  case True
  let ?g = "grow (n div 8) bm"
  have "bit_set (mark n bm) m \<longleftrightarrow> bit (?g ! (n div 8) OR push_bit (7 - n mod 8) 1) (7 - m mod 8)"
    using True by (simp add: bit_set_def mark_def length_grow less_max_iff_disj)
  also have "\<dots> \<longleftrightarrow> bit (?g ! (n div 8)) (7 - m mod 8) \<or> 7 - m mod 8 = 7 - n mod 8"
    by (auto simp: bit_or_iff bit_exp_iff)
  also have "\<dots> \<longleftrightarrow> bit_set ?g m \<or> m = n"
    using True div_mod_8 [of m n] by (auto simp: bit_set_def length_grow)
  finally show ?thesis by (auto simp: bit_set_grow)
next
  case False
  then have "bit_set (mark n bm) m \<longleftrightarrow> bit_set (grow (n div 8) bm) m"
    by (simp add: bit_set_def mark_def)
  with False show ?thesis by (auto simp: bit_set_grow)
qed

text \<open>The windows collected so far: distinct, of 1 to 32 bytes, and containing exactly the types
  seen.\<close>

definition windows_ok :: "(byte \<times> bytes) list \<Rightarrow> bool" where
  "windows_ok ws \<longleftrightarrow> distinct (map fst ws) \<and> list_all (\<lambda>(w, bm). 0 < length bm \<and> length bm \<le> 32) ws"

definition windows_have :: "(byte \<times> bytes) list \<Rightarrow> dns_type \<Rightarrow> bool" where
  "windows_have ws t \<longleftrightarrow> (\<exists>bm. map_of ws (window t) = Some bm \<and> bit_set bm (unat t mod 256))"

lemma same_type: "window t = window t' \<Longrightarrow> unat t mod 256 = unat t' mod 256 \<Longrightarrow> t = t'"
  using window_of [of t] window_of [of t'] by (metis div_mult_mod_eq word_unat_eq_iff)

lemma windows_have_insert: "windows_have (window_insert t ws) t' \<longleftrightarrow> t' = t \<or> windows_have ws t'"
proof (cases "window t' = window t")
  case True
  have "\<not> bit_set [] n" for n by (simp add: bit_set_def)
  with True show ?thesis
    using same_type [OF True]
    by (auto simp: windows_have_def window_insert_mark update_conv' bit_set_mark split: option.splits)
next
  case False
  then show ?thesis by (auto simp: windows_have_def window_insert_mark update_conv')
qed

lemma windows_ok_insert:
  assumes "windows_ok ws" shows "windows_ok (window_insert t ws)"
proof -
  let ?bm = "case map_of ws (window t) of Some bm \<Rightarrow> bm | None \<Rightarrow> []"
  have b: "\<forall>w bm. map_of ws w = Some bm \<longrightarrow> 0 < length bm \<and> length bm \<le> 32"
    using assms by (auto simp: windows_ok_def list_all_iff dest: map_of_SomeD)
  then have "length ?bm \<le> 32" by (auto split: option.splits)
  moreover have "unat t mod 256 div 8 < 32" by (simp add: less_mult_imp_div_less)
  ultimately have m: "0 < length (mark (unat t mod 256) ?bm) \<and> length (mark (unat t mod 256) ?bm) \<le> 32"
    by (simp add: length_mark)
  have d: "distinct (map fst (window_insert t ws))"
    using assms by (simp add: windows_ok_def window_insert_mark distinct_update)
  moreover have "0 < length bm \<and> length bm \<le> 32" if "(w, bm) \<in> set (window_insert t ws)" for w bm
  proof -
    have "map_of (window_insert t ws) w = Some bm" using that d by (simp add: map_of_is_SomeI)
    then show ?thesis using b m by (auto simp: window_insert_mark update_conv' split: if_splits)
  qed
  ultimately show ?thesis by (auto simp: windows_ok_def list_all_iff)
qed

lemma windows_fold:
  "windows_ok ws \<Longrightarrow> windows_ok (fold window_insert ts ws) \<and>
   (windows_have (fold window_insert ts ws) t \<longleftrightarrow> t \<in> set ts \<or> windows_have ws t)"
  by (induction ts arbitrary: ws) (auto simp: windows_ok_insert windows_have_insert)

text \<open>Reading back what is written for a list of windows.\<close>

definition write_windows :: "(byte \<times> bytes) list \<Rightarrow> byte list \<Rightarrow> bytes" where
  "write_windows ws ns = concat (map (\<lambda>w. let bm = the (map_of ws w) in [w, word_of_nat (length bm)] @ bm) ns)"

lemma bitmap_has_write:
  assumes ok: "windows_ok ws"
  shows "set ns \<subseteq> fst ` set ws \<Longrightarrow>
    bitmap_has (write_windows ws ns) t \<longleftrightarrow> window t \<in> set ns \<and> windows_have ws t"
proof (induction ns)
  case (Cons w ns)
  then obtain bm where bm: "map_of ws w = Some bm" and "(w, bm) \<in> set ws"
    by (metis list.set_intros(1) map_of_SomeD map_of_eq_None_iff not_None_eq subsetD)
  then have "length bm \<le> 32" using ok by (auto simp: windows_ok_def list_all_iff)
  then have u: "unat (word_of_nat (length bm) :: byte) = length bm" by (simp add: unat_of_nat)
  have w: "unat w = unat t div 256 \<longleftrightarrow> w = window t"
    using window_of [of t] by (metis word_unat_eq_iff)
  have "write_windows ws (w # ns) = w # word_of_nat (length bm) # bm @ write_windows ws ns"
    by (simp add: write_windows_def bm Let_def)
  then have "bitmap_has (write_windows ws (w # ns)) t \<longleftrightarrow>
      w = window t \<and> bit_set bm (unat t mod 256) \<or> bitmap_has (write_windows ws ns) t"
    by (simp add: u w)
  moreover have "w = window t \<Longrightarrow> bit_set bm (unat t mod 256) \<longleftrightarrow> windows_have ws t"
    using bm by (simp add: windows_have_def)
  ultimately show ?case using Cons by auto
qed (simp add: write_windows_def)

lemma bitmap_has_encode: "bitmap_has (encodeWindowedBitmaps types) t \<longleftrightarrow> t \<in> set types"
proof -
  let ?ws = "fold window_insert types []"
  have "windows_ok []" and "\<not> windows_have [] t" by (simp_all add: windows_ok_def windows_have_def)
  then have ok: "windows_ok ?ws" and h: "windows_have ?ws t \<longleftrightarrow> t \<in> set types"
    using windows_fold [of "[]" types t] by simp_all
  have "encodeWindowedBitmaps types = write_windows ?ws (sort (map fst ?ws))"
    by (simp add: encodeWindowedBitmaps_def write_windows_def Let_def)
  then have "bitmap_has (encodeWindowedBitmaps types) t \<longleftrightarrow> window t \<in> fst ` set ?ws \<and> windows_have ?ws t"
    using bitmap_has_write [OF ok, of "sort (map fst ?ws)" t] by simp
  moreover have "windows_have ?ws t \<Longrightarrow> window t \<in> fst ` set ?ws"
    by (auto simp: windows_have_def dest!: map_of_SomeD intro: rev_image_eqI)
  ultimately show ?thesis using h by blast
qed

lemma bitmap_of_denial:
  "RData (NSEC ul own next [TypeSOA, TypeNS] ttl) =
     [EncodeDomainName ul next @ encodeWindowedBitmaps [TypeSOA, TypeNS, TypeRRSIG, TypeNSEC]]"
  by (simp add: NSEC_def)

section \<open>Decorated results\<close>

lemma findMatchingKeys_closest:
  "list_all host_char q \<Longrightarrow> findMatchingKeys ul m (canonicalZone ul q) =
     Some (closest_keys ul m (enclosing (canonicalZone ul q)))"
  by (simp add: findMatchingKeys_def canonicalZone_idem keys_loop_closest)

lemma SignResult_key:
  assumes "list_all host_char q" and "closest_keys ul m (enclosing (canonicalZone ul q)) = k # ks"
    and "qType = TypeDNSKEY \<longrightarrow> HasAnswer res \<and> rr_Type (Answer res) = TypeDNSKEY"
  shows "SignResult ul C (Some m) q qType res now =
    (if RCode res = RCodeSuccess \<and> HasAnswer res then
       Some (if rr_Type (Answer res) \<noteq> TypeRRSIG
             then (case dnssec_Sign ul C (canonicalZone ul q) (Answer res) k (now - hour) (now + 24 * hour) of
                     Inl _ \<Rightarrow> res | Inr rrSig \<Rightarrow> res\<lparr>AnswerRRSIG := rrSig\<rparr>)
             else res)
     else if RCode res = RCodeNameError then Some (deny ul C k (canonicalZone ul q) [] res now)
     else if RCode res = RCodeSuccess then Some (deny ul C k (canonicalZone ul q) [TypeSOA, TypeNS] res now)
     else Some res)"
proof -
  have "\<not> (qType = TypeDNSKEY \<and> (\<not> HasAnswer res \<or> rr_Type (Answer res) \<noteq> TypeDNSKEY))"
    using assms(3) by blast
  moreover have "findMatchingKeys ul m (canonicalZone ul q) = Some (k # ks)"
    using assms(1,2) by (simp add: findMatchingKeys_closest)
  ultimately show ?thesis by (simp add: SignResult_def Let_def del: de_Morgan_conj)
qed

lemma Verify_canonical:
  assumes "list_all host_char q"
  shows "dnssec_Verify ul C (canonicalZone ul q) r x p a = dnssec_Verify ul C q r x p a"
proof -
  have b: "buildSignBuffer ul hdr (canonicalZone ul q) r = buildSignBuffer ul hdr q r" for hdr
    by (simp add: buildSignBuffer_def Encode_canonicalZone [OF assms])
  show ?thesis unfolding dnssec_Verify_def b ..
qed

lemma toy_zones:
  "canonicalZone id ''Example.com'' = ''example.com.''"
  "canonicalZone id ''example.com.'' = ''example.com.''"
  "canonicalZone id ''www.example.com'' = ''www.example.com.''"
  "canonicalZone id ''www.example.com.'' = ''www.example.com.''"
  "canonicalZone id ''sub.example.com'' = ''sub.example.com.''"
  "canonicalZone id ''sub.example.com.'' = ''sub.example.com.''"
  by (subst canonicalZone_host; code_simp)+

lemma Zone_newKey: "Zone (newKey ul z f a p s) = canonicalZone ul z"
  by (simp add: newKey_def Let_def)

abbreviation toy_manager :: "byte Manager" where
  "toy_manager \<equiv> manager_Add id NewManager (Some toy_key)"

lemma toy_keys: "keys toy_manager z = (if z = ''example.com.'' then [toy_key] else [])"
  by (simp add: manager_Add_def NewManager_def Zone_newKey toy_zones Let_def)

lemma toy_closest:
  "closest_keys id toy_manager (enclosing ''www.example.com.'') = [toy_key]"
  "closest_keys id toy_manager (enclosing ''sub.example.com.'') = [toy_key]"
proof -
  have e: "enclosing ''www.example.com.'' = ''www.example.com.'' # ''example.com.'' # enclosing ''com.''"
    "enclosing ''sub.example.com.'' = ''sub.example.com.'' # ''example.com.'' # enclosing ''com.''"
    using enclosing_dot [of "''www''" "''example.com.''"] enclosing_dot [of "''sub''" "''example.com.''"]
      enclosing_dot [of "''example''" "''com.''"] by simp_all
  show "closest_keys id toy_manager (enclosing ''www.example.com.'') = [toy_key]"
    "closest_keys id toy_manager (enclosing ''sub.example.com.'') = [toy_key]"
    unfolding e closest_keys_def Keys_def toy_keys by (simp_all add: toy_zones)
qed

lemma toy_full: "full_name id (canonicalZone id (Zone toy_key))"
  unfolding Zone_newKey toy_zones by (rule full_name_host) code_simp+

section \<open>Properties\<close>

text \<open>C23: the search for signing keys returns for every name and every set of keys, although it is
  written as an endless loop, and it returns the keys of the closest enclosing zone that has any:
  of the name itself, then of what follows each of its dots, then of the root.\<close>

theorem KeysForZone_closest:
  "KeysForZone ul m name = Some (closest_keys ul m (enclosing (canonicalZone ul name)))"
  by (simp add: KeysForZone_def keys_loop_closest)

text \<open>The windowed type bitmap of a denial record, read as RFC 4034 prescribes, contains exactly
  the types it was made from.\<close>

theorem encodeWindowedBitmaps_exact:
  "bitmap_has (encodeWindowedBitmaps types) t \<longleftrightarrow> t \<in> set types"
  by (rule bitmap_has_encode)

text \<open>C18: when a positive answer is decorated, the first key of the closest enclosing zone signs it,
  the signature verifies over that answer under the public half of the key, and nothing else of
  the result changes.\<close>

theorem SignResult_answer_verifies:
  assumes "list_all host_char q" and "closest_keys ul m (enclosing (canonicalZone ul q)) = k # ks"
    and "key_pair C k" and "full_name ul (canonicalZone ul (Zone k))"
    and "RCode res = RCodeSuccess" and "HasAnswer res" and "rr_Type (Answer res) \<noteq> TypeRRSIG"
    and "qType = TypeDNSKEY \<longrightarrow> rr_Type (Answer res) = TypeDNSKEY"
  shows "\<exists>rrSig sig. SignResult ul C (Some m) q qType res now = Some (res\<lparr>AnswerRRSIG := rrSig\<rparr>) \<and>
    RData rrSig = [sig] \<and> dnssec_Verify ul C q (Answer res) sig (PublicKey k) (Algorithm k) = None"
proof -
  have "RData (Answer res) \<noteq> []" using assms(6) by (simp add: HasAnswer_def HasRecords_def)
  from Sign_Inr [OF assms(3,4) this canonicalZone_host_char [OF assms(1), of ul],
      where i = "now - hour" and e = "now + 24 * hour"]
  obtain sig where "dnssec_Sign ul C (canonicalZone ul q) (Answer res) k (now - hour) (now + 24 * hour) =
      Inr \<lparr>RData = [sig], TTL = TTL (Answer res), rr_Type = TypeRRSIG, rr_Class = ClassIN\<rparr>"
    and "dnssec_Verify ul C q (Answer res) sig (PublicKey k) (Algorithm k) = None"
    unfolding Verify_canonical [OF assms(1)] by blast
  moreover from this(1) have "SignResult ul C (Some m) q qType res now =
      Some (res\<lparr>AnswerRRSIG := \<lparr>RData = [sig], TTL = TTL (Answer res), rr_Type = TypeRRSIG, rr_Class = ClassIN\<rparr>\<rparr>)"
    using assms SignResult_key [OF assms(1,2), of qType res C now] by simp
  ultimately show ?thesis
    by (intro exI [of _ "\<lparr>RData = [sig], TTL = TTL (Answer res), rr_Type = TypeRRSIG, rr_Class = ClassIN\<rparr>"]
        exI [of _ sig]) simp
qed

theorem SignResult_answer_verifies_witness:
  "\<exists>rrSig sig. SignResult id toy_crypto (Some toy_manager) ''www.example.com'' TypeA
      (no_Result\<lparr>Answer := a_set\<rparr>) 0 = Some (no_Result\<lparr>Answer := a_set, AnswerRRSIG := rrSig\<rparr>) \<and>
    RData rrSig = [sig] \<and>
    dnssec_Verify id toy_crypto ''www.example.com'' a_set sig (PublicKey toy_key) ED25519 = None"
proof -
  have h: "list_all host_char ''www.example.com''" by code_simp
  have c: "closest_keys id toy_manager (enclosing (canonicalZone id ''www.example.com'')) = [toy_key]"
    unfolding toy_zones by (rule toy_closest)
  have "Algorithm toy_key = ED25519" by (simp add: newKey_def Let_def)
  moreover have "HasAnswer (no_Result\<lparr>Answer := a_set\<rparr>)" "rr_Type a_set = TypeA"
    "RCode (no_Result\<lparr>Answer := a_set\<rparr>) = RCodeSuccess" by code_simp+
  ultimately show ?thesis
    using SignResult_answer_verifies [OF h c toy_key_pair toy_full, of "no_Result\<lparr>Answer := a_set\<rparr>" TypeA 0]
    by simp
qed

text \<open>C19: a signature is bound to what it was made for.  If the data signed for two record sets are
  the same bytes, the owners and the zones have the same wire form and the sets the same type,
  class, time to live and payloads (in any order), and algorithm, key tag and both times agree.\<close>

theorem signature_covers:
  assumes "full_name ul own" and "full_name ul own'" and "fits r" and "fits r'" and "RData r \<noteq> []"
    and "full_name ul (canonicalZone ul (Zone k))" and "full_name ul (canonicalZone ul (Zone k'))"
    and "buildSignBuffer ul (rrsig_header ul own r k i e) own r =
         buildSignBuffer ul (rrsig_header ul own' r' k' i' e') own' r'"
  shows "EncodeDomainName ul own = EncodeDomainName ul own' \<and> rr_Type r = rr_Type r' \<and>
    rr_Class r = rr_Class r' \<and> TTL r = TTL r' \<and> mset (RData r) = mset (RData r') \<and>
    rrsig_header ul own r k i e = rrsig_header ul own' r' k' i' e' \<and>
    Algorithm k = Algorithm k' \<and> key_Tag k = key_Tag k' \<and>
    EncodeDomainName ul (canonicalZone ul (Zone k)) = EncodeDomainName ul (canonicalZone ul (Zone k'))"
proof -
  let ?h = "rrsig_header ul own r k i e" and ?h' = "rrsig_header ul own' r' k' i' e'"
  let ?z = "EncodeDomainName ul (canonicalZone ul (Zone k))"
    and ?z' = "EncodeDomainName ul (canonicalZone ul (Zone k'))"
  obtain f f' where f: "length f = 18" "?h = f @ ?z" and f': "length f' = 18" "?h' = f' @ ?z'"
    using rrsig_header_split by metis
  obtain x y where "?h @ x = ?h' @ y" using assms(8) by (auto simp: buildSignBuffer_def)
  then have "f = f'" and "?z @ x = ?z' @ y" using f f' by simp_all
  then have z: "?z = ?z'" using Encode_prefix_free [OF assms(6,7)] by blast
  with \<open>f = f'\<close> f f' have h: "?h = ?h'" by simp
  then have "Algorithm k = Algorithm k' \<and> key_Tag k = key_Tag k'" by (simp add: rrsig_header_def z)
  then show ?thesis
    using buildSignBuffer_inject [OF assms(1-5) assms(8) [folded h]] h z by blast
qed

theorem signature_covers_witness:
  "mset [[1], [2 :: byte]] = mset [[2], [1]] \<and>
   buildSignBuffer id (rrsig_header id ''www.example.com.'' (a_set\<lparr>RData := [[1], [2]]\<rparr>) toy_key 0 0)
     ''www.example.com.'' (a_set\<lparr>RData := [[1], [2]]\<rparr>) =
   buildSignBuffer id (rrsig_header id ''www.example.com.'' (a_set\<lparr>RData := [[2], [1]]\<rparr>) toy_key 0 0)
     ''www.example.com.'' (a_set\<lparr>RData := [[2], [1]]\<rparr>)"
proof -
  let ?r = "a_set\<lparr>RData := [[1], [2 :: byte]]\<rparr>" and ?r' = "a_set\<lparr>RData := [[2], [1 :: byte]]\<rparr>"
  have n: "full_name id ''www.example.com.''" by (rule full_name_host) code_simp+
  have "sort [[1], [2 :: byte]] = sort [[2], [1]]" by code_simp
  then have e: "buildSignBuffer id (rrsig_header id ''www.example.com.'' ?r toy_key 0 0) ''www.example.com.'' ?r =
      buildSignBuffer id (rrsig_header id ''www.example.com.'' ?r' toy_key 0 0) ''www.example.com.'' ?r'"
    by (simp add: buildSignBuffer_def rrsig_header_def)
  have "fits ?r" "fits ?r'" "RData ?r \<noteq> []" by (simp_all add: fits_def)
  from signature_covers [OF n n this toy_full toy_full e] e show ?thesis by simp
qed

text \<open>C35: decorating a result without an answer replaces its authority section by a denial record.
  The result of a query below a delegation is such a result, with the name servers of the child
  zone as its authority: a client that asks for signatures is never referred to them.  The record
  it gets instead is owned by the query name and claims that an SOA and an NS set, and nothing
  else, exist there, whatever the zone holds.\<close>

theorem SignResult_drops_referral:
  assumes "list_all host_char q" and "closest_keys ul m (enclosing (canonicalZone ul q)) = k # ks"
    and "key_pair C k" and "full_name ul (canonicalZone ul (Zone k))"
    and "RCode res = RCodeSuccess" and "\<not> HasAnswer res" and "qType \<noteq> TypeDNSKEY"
  shows "\<exists>res' bm. SignResult ul C (Some m) q qType res now = Some res' \<and>
    rr_Type (Authority res') = TypeNSEC \<and> AuthorityName res' = canonicalZone ul q \<and>
    RData (Authority res') = [EncodeDomainName ul (canonicalZone ul (Zone k)) @ bm] \<and>
    (\<forall>t. bitmap_has bm t \<longleftrightarrow> t \<in> {TypeNS, TypeSOA, TypeRRSIG, TypeNSEC})"
proof -
  let ?n = "NSEC ul (canonicalZone ul q) (canonicalZone ul (Zone k)) [TypeSOA, TypeNS] defaultNSECTTL"
  have "RData ?n \<noteq> []" by (simp add: NSEC_def Let_def)
  from Sign_Inr [OF assms(3,4) this canonicalZone_host_char [OF assms(1), of ul],
      where i = "now - hour" and e = "now + 24 * hour"]
  obtain s where "dnssec_Sign ul C (canonicalZone ul q) ?n k (now - hour) (now + 24 * hour) = Inr s" by blast
  moreover have "rr_Type ?n = TypeNSEC" by (simp add: NSEC_def Let_def)
  ultimately show ?thesis
    using assms SignResult_key [OF assms(1,2), of qType res C now]
    by (simp add: deny_def Let_def bitmap_of_denial bitmap_has_encode) blast
qed

definition ns_set :: RRSet where
  "ns_set = \<lparr>RData = [[2, 110, 115, 0]], TTL = 60, rr_Type = TypeNS, rr_Class = ClassIN\<rparr>"

definition delegating_tree :: Tree where
  "delegating_tree = run_mutations radix_Upsert radix_DeleteDomain radix_New
     [Upsert ''example.com'' [soa_set], Upsert ''sub.example.com'' [ns_set]]"

theorem SignResult_drops_referral_witness:
  "radix_Resolve delegating_tree ''sub.example.com'' TypeA =
     no_Result\<lparr>Authority := ns_set, AuthorityName := ''sub.example.com''\<rparr> \<and>
   (\<exists>res'. SignResult id toy_crypto (Some toy_manager) ''sub.example.com'' TypeA
      (radix_Resolve delegating_tree ''sub.example.com'' TypeA) 0 = Some res' \<and>
      rr_Type (Authority res') = TypeNSEC \<and> \<not> HasAnswer res')"
proof -
  let ?r = "no_Result\<lparr>Authority := ns_set, AuthorityName := ''sub.example.com''\<rparr>"
  have r: "radix_Resolve delegating_tree ''sub.example.com'' TypeA = ?r" by code_simp
  have h: "list_all host_char ''sub.example.com''" by code_simp
  have c: "closest_keys id toy_manager (enclosing (canonicalZone id ''sub.example.com'')) = [toy_key]"
    unfolding toy_zones by (rule toy_closest)
  have a: "RCode ?r = RCodeSuccess" "\<not> HasAnswer ?r" by code_simp+
  have "Answer res' = Answer ?r" if "SignResult id toy_crypto (Some toy_manager) ''sub.example.com'' TypeA ?r 0 = Some res'" for res'
    using that SignResult_key [OF h c, of TypeA ?r toy_crypto 0] a
    by (simp add: deny_def Let_def split: sum.splits) auto
  then show ?thesis
    using SignResult_drops_referral [OF h c toy_key_pair toy_full a, of TypeA 0] a unfolding r HasAnswer_def
    by auto
qed

end
