(* ===== verification/Tsig.thy ===== *)
theory Tsig
  imports Unpack
begin

text \<open>
  \<open>internal/tsig\<close>: transaction signatures of RFC 8945.  A key ring (\<open>keyring.go\<close>), the signing of a
  response in place (\<open>sign.go\<close>), and the extraction and verification of the signature of a request
  (\<open>verify.go\<close>).  The keyed hash functions are a parameter.  Shown: what is signed is extracted
  again, leaves the message as it was and verifies under the same key within the time window.
\<close>

section \<open>Keys (keyring.go)\<close>

abbreviation TSIGErrBadSig :: u16 where "TSIGErrBadSig \<equiv> 16"
abbreviation TSIGErrBadKey :: u16 where "TSIGErrBadKey \<equiv> 17"
abbreviation TSIGErrBadTime :: u16 where "TSIGErrBadTime \<equiv> 18"
abbreviation TSIGErrBadAlg :: u16 where "TSIGErrBadAlg \<equiv> 21"

abbreviation HMACSHA256 :: string where "HMACSHA256 \<equiv> ''hmac-sha256.''"
abbreviation HMACSHA512 :: string where "HMACSHA512 \<equiv> ''hmac-sha512.''"
abbreviation HMACSHA1 :: string where "HMACSHA1 \<equiv> ''hmac-sha1.''"
abbreviation HMACMD5 :: string where "HMACMD5 \<equiv> ''hmac-md5.sig-alg.reg.int.''"
abbreviation defaultFudge :: u16 where "defaultFudge \<equiv> 300"

datatype tsig_error =
  ErrBadSignature | ErrBadKey | ErrBadTime | ErrBadAlgorithm | ErrMalformedTSIG
| TsigName dns_error | ErrNoSpace

record tsig_key =
  tk_Name :: string
  tk_Algorithm :: string
  Secret :: bytes

definition CanonicalName :: "(string \<Rightarrow> string) \<Rightarrow> string \<Rightarrow> string" where
  "CanonicalName ul name =
     (let lower = ToLower ul (TrimSpace name) in
      if \<not> suffix ''.'' lower then lower @ ''.'' else lower)"

definition CanonicalAlgorithm :: "(string \<Rightarrow> string) \<Rightarrow> string \<Rightarrow> string" where
  "CanonicalAlgorithm ul algo =
     (let lower = ToLower ul (TrimSpace algo) in
      if lower \<in> {''hmac-sha256'', ''hmac-sha256.''} then HMACSHA256
      else if lower \<in> {''hmac-sha512'', ''hmac-sha512.''} then HMACSHA512
      else if lower \<in> {''hmac-sha1'', ''hmac-sha1.''} then HMACSHA1
      else if lower \<in> {''hmac-md5'', ''hmac-md5.'', ''hmac-md5.sig-alg.reg.int'', ''hmac-md5.sig-alg.reg.int.''}
        then HMACMD5
      else if \<not> suffix ''.'' lower then lower @ ''.'' else lower)"

record KeyRing =
  ring_keys :: "string \<rightharpoonup> tsig_key"

definition NewKeyRing :: KeyRing where
  "NewKeyRing = \<lparr>ring_keys = Map.empty\<rparr>"

definition ring_Add :: "(string \<Rightarrow> string) \<Rightarrow> KeyRing \<Rightarrow> tsig_key \<Rightarrow> KeyRing" where
  "ring_Add ul kr key =
     (let canonicalKeyName = CanonicalName ul (tk_Name key);
          canonicalAlgo = CanonicalAlgorithm ul (tk_Algorithm key)
      in kr\<lparr>ring_keys := (ring_keys kr)(canonicalKeyName \<mapsto>
           \<lparr>tk_Name = canonicalKeyName, tk_Algorithm = canonicalAlgo, Secret = Secret key\<rparr>)\<rparr>)"

definition ring_Key :: "(string \<Rightarrow> string) \<Rightarrow> KeyRing \<Rightarrow> string \<Rightarrow> tsig_key option" where
  "ring_Key ul kr name = ring_keys kr (CanonicalName ul name)"

definition ring_Get :: "(string \<Rightarrow> string) \<Rightarrow> KeyRing \<Rightarrow> string \<Rightarrow> tsig_key option" where
  "ring_Get ul kr name = ring_Key ul kr name"

text \<open>\<open>hmac.New\<close> over the four hash functions; a hasher that was fed \<open>d\<close> has the sum
  \<open>hmac alg secret d\<close>, for the parameter \<open>hmac\<close>.\<close>

datatype hash_alg = SHA256 | SHA512 | SHA1 | MD5

type_synonym hmac = "hash_alg \<Rightarrow> bytes \<Rightarrow> bytes \<Rightarrow> bytes"

definition newHasher :: "(string \<Rightarrow> string) \<Rightarrow> string \<Rightarrow> tsig_error + hash_alg" where
  "newHasher ul algo =
     (let a = CanonicalAlgorithm ul algo in
      if a = HMACSHA256 then Inr SHA256
      else if a = HMACSHA512 then Inr SHA512
      else if a = HMACSHA1 then Inr SHA1
      else if a = HMACMD5 then Inr MD5
      else Inl ErrBadAlgorithm)"

text \<open>The 48-bit time field.\<close>

definition put48 :: "u64 \<Rightarrow> bytes" where
  "put48 t = put16 (ucast (drop_bit 32 t AND 0xFFFF)) @ put32 (ucast (t AND 0xFFFFFFFF))"

definition len16 :: "'a list \<Rightarrow> u16" where
  "len16 xs = word_of_nat (min (length xs) 65535)"

text \<open>What \<open>writeTSIGVariables\<close> feeds to the hasher.\<close>

definition writeTSIGVariables ::
  "(string \<Rightarrow> string) \<Rightarrow> string \<Rightarrow> string \<Rightarrow> u64 \<Rightarrow> u16 \<Rightarrow> u16 \<Rightarrow> bytes \<Rightarrow> bytes" where
  "writeTSIGVariables ul keyName algo timeSigned fudge tsigErr otherData =
     EncodeDomainName ul keyName @ put16 ClassANY @ put32 0 @ EncodeDomainName ul algo @
     put48 timeSigned @ put16 fudge @ put16 tsigErr @ put16 (len16 otherData) @ otherData"

section \<open>Signing (sign.go)\<close>

text \<open>The buffer is a slice of full capacity, as the callers pass it, and \<open>respLen\<close> is within it.  The
  result is the new length and the buffer.  Consecutive writes are one \<open>copy_at\<close>; the original ID is
  read from the buffer in between, as in the source.\<close>

definition tsig_Sign ::
  "hmac \<Rightarrow> (string \<Rightarrow> string) \<Rightarrow> bytes \<Rightarrow> nat \<Rightarrow> bytes \<Rightarrow> tsig_key \<Rightarrow> u16 \<Rightarrow> int \<Rightarrow> tsig_error + (nat \<times> bytes)" where
  "tsig_Sign hmac ul respBuf respLen reqMAC key tsigErr now =
     (let algo = CanonicalAlgorithm ul (tk_Algorithm key) in
      res_bind (newHasher ul algo) (\<lambda>h.
        (let timeSigned = word_of_int (max now 0) :: u64;
             fudge = defaultFudge;
             prefix = (if length reqMAC > 0 then put16 (len16 reqMAC) @ reqMAC else []);
             otherData = (if tsigErr = TSIGErrBadTime then put48 timeSigned else []);
             keyName = CanonicalName ul (tk_Name key);
             mac = hmac h (Secret key) (prefix @ take respLen respBuf @
                     writeTSIGVariables ul keyName algo timeSigned fudge tsigErr otherData);
             keyWire = EncodeDomainName ul keyName;
             algoWire = EncodeDomainName ul algo;
             rdataLen = length algoWire + 6 + 2 + 2 + length mac + 2 + 2 + 2 + length otherData;
             totalRRLen = length keyWire + 2 + 2 + 4 + 2 + rdataLen
         in if respLen + totalRRLen > length respBuf then Inl ErrNoSpace
            else
              (let front = keyWire @ put16 TypeTSIG @ put16 ClassANY @ put32 0 @
                     put16 (word_of_nat (min rdataLen 65535)) @ algoWire @ put48 timeSigned @ put16 fudge @
                     put16 (len16 mac) @ mac;
                   buf = copy_at respBuf respLen front;
                   origID = get16 (sub_slice buf 0 2);
                   buf = copy_at buf (respLen + length front)
                           (put16 origID @ put16 tsigErr @ put16 (len16 otherData) @ otherData);
                   arCount = get16 (sub_slice buf 10 12);
                   buf = put16_at buf 10 (arCount + 1)
               in Inr (respLen + totalRRLen, buf)))))"

section \<open>Extraction and verification (verify.go)\<close>

record tsig_record =
  tr_Name :: string
  tr_Algorithm :: string
  MAC :: bytes
  OtherData :: bytes
  TimeSigned :: u64
  OriginalID :: u16
  Fudge :: u16
  tr_Error :: u16

fun skip_tsig_questions :: "nat \<Rightarrow> bytes \<Rightarrow> nat \<Rightarrow> tsig_error + nat" where
  "skip_tsig_questions 0 payload offset = Inr offset"
| "skip_tsig_questions (Suc n) payload offset =
     (case UnpackDomainName payload offset of
        Inl err \<Rightarrow> Inl (TsigName err)
      | Inr (_, nextOffset) \<Rightarrow>
          if nextOffset + 4 > length payload then Inl ErrMalformedTSIG
          else skip_tsig_questions n payload (nextOffset + 4))"

fun skip_tsig_records :: "nat \<Rightarrow> bytes \<Rightarrow> nat \<Rightarrow> tsig_error + nat" where
  "skip_tsig_records 0 payload offset = Inr offset"
| "skip_tsig_records (Suc n) payload offset =
     (case UnpackDomainName payload offset of
        Inl err \<Rightarrow> Inl (TsigName err)
      | Inr (_, nextOffset) \<Rightarrow>
          if nextOffset + 10 > length payload then Inl ErrMalformedTSIG
          else
            (let rdLen = unat (get16 (sub_slice payload (nextOffset + 8) (nextOffset + 10)));
                 offset = nextOffset + 10 + rdLen
             in if offset > length payload then Inl ErrMalformedTSIG
                else skip_tsig_records n payload offset))"

definition skipMessageSections :: "bytes \<Rightarrow> u16 \<Rightarrow> u16 \<Rightarrow> u16 \<Rightarrow> u16 \<Rightarrow> tsig_error + nat" where
  "skipMessageSections payload qd an ns ar =
     res_bind (skip_tsig_questions (unat qd) payload headerSize)
       (skip_tsig_records (unat an + unat ns + unat ar - 1) payload)"

definition unpackTSIGRecord ::
  "(string \<Rightarrow> string) \<Rightarrow> bytes \<Rightarrow> nat \<Rightarrow> nat \<Rightarrow> string \<Rightarrow> tsig_error + tsig_record" where
  "unpackTSIGRecord ul payload offset rdataEnd keyName =
     (case UnpackDomainName payload offset of
        Inl err \<Rightarrow> Inl (TsigName err)
      | Inr (algoName, offset) \<Rightarrow>
          if offset + 10 > rdataEnd then Inl ErrMalformedTSIG
          else
            (let timeHigh = ucast (get16 (sub_slice payload offset (offset + 2))) :: u64;
                 timeLow = ucast (get32 (sub_slice payload (offset + 2) (offset + 6))) :: u64;
                 timeSigned = push_bit 32 timeHigh OR timeLow;
                 fudge = get16 (sub_slice payload (offset + 6) (offset + 8));
                 macSize = unat (get16 (sub_slice payload (offset + 8) (offset + 10)));
                 offset = offset + 10
             in if offset + macSize + 6 > rdataEnd then Inl ErrMalformedTSIG
                else
                  (let mac = sub_slice payload offset (offset + macSize);
                       offset = offset + macSize;
                       origID = get16 (sub_slice payload offset (offset + 2));
                       tsigErr = get16 (sub_slice payload (offset + 2) (offset + 4));
                       otherLen = unat (get16 (sub_slice payload (offset + 4) (offset + 6)));
                       offset = offset + 6
                   in if offset + otherLen > rdataEnd then Inl ErrMalformedTSIG
                      else Inr \<lparr>tr_Name = CanonicalName ul keyName, tr_Algorithm = CanonicalAlgorithm ul algoName,
                        MAC = mac, OtherData = sub_slice payload offset (offset + otherLen),
                        TimeSigned = timeSigned, OriginalID = origID, Fudge = fudge, tr_Error = tsigErr\<rparr>)))"

definition Extract :: "(string \<Rightarrow> string) \<Rightarrow> bytes \<Rightarrow> tsig_error + (tsig_record option \<times> bytes)" where
  "Extract ul payload =
     (if length payload < headerSize then Inr (None, payload)
      else
        (let arCount = get16 (sub_slice payload 10 12) in
         if arCount = 0 then Inr (None, payload)
         else
           res_bind (skipMessageSections payload (get16 (sub_slice payload 4 6))
               (get16 (sub_slice payload 6 8)) (get16 (sub_slice payload 8 10)) arCount)
             (\<lambda>tsigStartOffset.
               case UnpackDomainName payload tsigStartOffset of
                 Inl err \<Rightarrow> Inl (TsigName err)
               | Inr (keyName, offset) \<Rightarrow>
                   if offset + 10 > length payload then Inr (None, payload)
                   else
                     (let qType = get16 (sub_slice payload offset (offset + 2));
                          qClass = get16 (sub_slice payload (offset + 2) (offset + 4));
                          ttl = get32 (sub_slice payload (offset + 4) (offset + 8));
                          rdLen = unat (get16 (sub_slice payload (offset + 8) (offset + 10)));
                          offset = offset + 10
                      in if qType \<noteq> TypeTSIG \<or> qClass \<noteq> ClassANY \<or> ttl \<noteq> 0 then Inr (None, payload)
                         else if offset + rdLen > length payload then Inl ErrMalformedTSIG
                         else res_bind (unpackTSIGRecord ul payload offset (offset + rdLen) keyName)
                           (\<lambda>rec. Inr (Some rec, put16_at (take tsigStartOffset payload) 10 (arCount - 1)))))))"

text \<open>The distance of the signer's clock from ours.\<close>

definition skew_of :: "int \<Rightarrow> u64 \<Rightarrow> u64" where
  "skew_of nowUnix t =
     (if nowUnix \<ge> 0 \<and> word_of_int nowUnix \<ge> t then word_of_int nowUnix - t
      else if nowUnix \<ge> 0 then t - word_of_int nowUnix
      else t)"

definition tsig_Verify ::
  "hmac \<Rightarrow> (string \<Rightarrow> string) \<Rightarrow> bytes \<Rightarrow> tsig_record \<Rightarrow> tsig_key \<Rightarrow> int \<Rightarrow> u16 \<times> tsig_error option" where
  "tsig_Verify hmac ul payloadWithoutTSIG rec key now =
     (if CanonicalName ul (tk_Name key) \<noteq> tr_Name rec then (TSIGErrBadKey, Some ErrBadKey)
      else if CanonicalAlgorithm ul (tk_Algorithm key) \<noteq> tr_Algorithm rec then (TSIGErrBadAlg, Some ErrBadAlgorithm)
      else
        (let skew = skew_of now (TimeSigned rec);
             fudge = (if Fudge rec = 0 then 300 else ucast (Fudge rec)) :: u64
         in if skew > fudge then (TSIGErrBadTime, Some ErrBadTime)
            else case newHasher ul (tr_Algorithm rec) of
              Inl err \<Rightarrow> (TSIGErrBadAlg, Some err)
            | Inr h \<Rightarrow>
                (let origMsg = (if OriginalID rec \<noteq> 0 then put16_at payloadWithoutTSIG 0 (OriginalID rec)
                                else payloadWithoutTSIG);
                     expectedMAC = hmac h (Secret key) (origMsg @
                       writeTSIGVariables ul (tr_Name rec) (tr_Algorithm rec) (TimeSigned rec) (Fudge rec)
                         (tr_Error rec) (OtherData rec))
                 in if expectedMAC \<noteq> MAC rec then (TSIGErrBadSig, Some ErrBadSignature)
                    else (0, None))))"

section \<open>Reading written fields\<close>

lemma sub_slice_skip: "length x \<le> i \<Longrightarrow> sub_slice (x @ r) i j = sub_slice r (i - length x) (j - length x)"
  by (simp add: sub_slice_def)

lemma sub_slice_hit: "length x = j \<Longrightarrow> sub_slice (x @ r) 0 j = x"
  by (simp add: sub_slice_def)

lemma sub_slice_shift: "length a = n \<Longrightarrow> sub_slice (a @ r) (n + i) (n + j) = sub_slice r i j"
  by (simp add: sub_slice_def)

lemma sub_slice_shift0: "length a = n \<Longrightarrow> sub_slice (a @ r) n (n + j) = sub_slice r 0 j"
  by (simp add: sub_slice_def)

lemma length_put48 [simp]: "length (put48 t) = 6"
  by (simp add: put48_def)

lemma time_fields:
  assumes "take_bit 48 t = t"
  shows "push_bit 32 (ucast (ucast (drop_bit 32 t AND 0xFFFF) :: u16)) OR ucast (ucast (t AND 0xFFFFFFFF) :: u32) = (t :: u64)"
proof (rule bit_word_eqI)
  fix n assume "n < LENGTH(64)"
  have m: "(0xFFFF :: u64) = mask 16" "(0xFFFFFFFF :: u64) = mask 32" by (simp_all add: mask_eq_exp_minus_1)
  have "bit t n \<Longrightarrow> n < 48" using assms by (metis bit_take_bit_iff)
  then show "bit (push_bit 32 (ucast (ucast (drop_bit 32 t AND 0xFFFF) :: u16)) OR
      ucast (ucast (t AND 0xFFFFFFFF) :: u32) :: u64) n \<longleftrightarrow> bit t n"
    unfolding m by (cases "n < 32") (auto simp: bit_simps not_less)
qed

lemma unat_len16: "length xs \<le> 65535 \<Longrightarrow> unat (len16 xs) = length xs"
  by (simp add: len16_def unat_of_nat)

lemma unpackTSIGRecord_written:
  assumes P: "P = B @ put48 t @ put16 f @ put16 (len16 mac) @ mac @ put16 i @ put16 e @ put16 (len16 od) @ od"
    and name: "UnpackDomainName P off = Inr (an, length B)"
    and t: "take_bit 48 t = t" and m: "length mac \<le> 65535" "length od \<le> 65535"
  shows "unpackTSIGRecord ul P off (length P) kn =
    Inr \<lparr>tr_Name = CanonicalName ul kn, tr_Algorithm = CanonicalAlgorithm ul an, MAC = mac, OtherData = od,
      TimeSigned = t, OriginalID = i, Fudge = f, tr_Error = e\<rparr>"
proof -
  define o1 where "o1 = length B"
  define o2 where "o2 = length B + 10 + length mac"
  let ?F = "B @ put48 t @ put16 f @ put16 (len16 mac)"
  have P2: "P = (?F @ mac) @ put16 i @ put16 e @ put16 (len16 od) @ od" by (simp add: P)
  have l2: "length (?F @ mac) = o2" by (simp add: o2_def)
  have f1: "sub_slice P o1 (o1 + 2) = put16 (ucast (drop_bit 32 t AND 0xFFFF))"
    "sub_slice P (o1 + 2) (o1 + 6) = put32 (ucast (t AND 0xFFFFFFFF))"
    "sub_slice P (o1 + 6) (o1 + 8) = put16 f" "sub_slice P (o1 + 8) (o1 + 10) = put16 (len16 mac)"
    "sub_slice P (o1 + 10) (o1 + 10 + length mac) = mac"
    unfolding P put48_def append_assoc using o1_def [symmetric]
    by (simp_all add: sub_slice_shift sub_slice_shift0 sub_slice_skip sub_slice_hit add.assoc)
  have f2: "sub_slice P o2 (o2 + 2) = put16 i" "sub_slice P (o2 + 2) (o2 + 4) = put16 e"
    "sub_slice P (o2 + 4) (o2 + 6) = put16 (len16 od)" "sub_slice P (o2 + 6) (o2 + 6 + length od) = od"
    unfolding P2 using l2
    by (simp_all add: sub_slice_shift sub_slice_shift0 sub_slice_skip sub_slice_hit add.assoc sub_slice_full
        del: append_assoc length_append)
  have len: "length P = o2 + 6 + length od" unfolding P2 using l2 by simp
  have o2: "o1 + 10 + length mac = o2" and o1: "\<not> o2 + length od < 4 + o1" by (simp_all add: o1_def o2_def)
  show ?thesis
    using name time_fields [OF t] unat_len16 [OF m(1)] unat_len16 [OF m(2)]
    unfolding unpackTSIGRecord_def o1_def [symmetric]
    by (simp add: f1 [unfolded o2] f2 o2 o1 len Let_def del: add_2_eq_Suc add_2_eq_Suc')
qed

lemma Extract_written:
  assumes P: "P = M @ K @ put16 TypeTSIG @ put16 ClassANY @ put32 0 @ put16 n @ RD"
    and M: "12 \<le> length M" and n: "unat n = length RD"
    and ar: "get16 (sub_slice P 10 12) \<noteq> 0"
    and sections: "skipMessageSections P (get16 (sub_slice P 4 6)) (get16 (sub_slice P 6 8))
      (get16 (sub_slice P 8 10)) (get16 (sub_slice P 10 12)) = Inr (length M)"
    and key: "UnpackDomainName P (length M) = Inr (kn, length (M @ K))"
    and rec: "unpackTSIGRecord ul P (length (M @ K) + 10) (length P) kn = Inr rec"
  shows "Extract ul P = Inr (Some rec, put16_at M 10 (get16 (sub_slice P 10 12) - 1))"
proof -
  define off where "off = length (M @ K)"
  have P1: "P = (M @ K) @ put16 TypeTSIG @ put16 ClassANY @ put32 0 @ put16 n @ RD" by (simp add: P)
  have f: "sub_slice P off (off + 2) = put16 TypeTSIG" "sub_slice P (off + 2) (off + 4) = put16 ClassANY"
    "sub_slice P (off + 4) (off + 8) = put32 0" "sub_slice P (off + 8) (off + 10) = put16 n"
    unfolding P1 using off_def [symmetric]
    by (simp_all add: sub_slice_shift sub_slice_shift0 sub_slice_skip sub_slice_hit del: append_assoc length_append)
  have len: "length P = off + 10 + length RD" by (simp add: P off_def)
  have t: "take (length M) P = M" by (simp add: P)
  have l: "\<not> length P < 12" using M by (simp add: P)
  show ?thesis
    using ar l sections key rec unfolding Extract_def off_def [symmetric]
    by (simp add: f n len t Let_def del: add_2_eq_Suc add_2_eq_Suc')
qed

text \<open>The record \<open>Sign\<close> appends, and the shape of the signed message.\<close>

definition tsig_rdata :: "(string \<Rightarrow> string) \<Rightarrow> string \<Rightarrow> u64 \<Rightarrow> bytes \<Rightarrow> u16 \<Rightarrow> u16 \<Rightarrow> bytes \<Rightarrow> bytes" where
  "tsig_rdata ul algo t mac i e od =
     EncodeDomainName ul algo @ put48 t @ put16 defaultFudge @ put16 (len16 mac) @ mac @
     put16 i @ put16 e @ put16 (len16 od) @ od"

definition tsig_rr :: "(string \<Rightarrow> string) \<Rightarrow> string \<Rightarrow> bytes \<Rightarrow> bytes" where
  "tsig_rr ul kn rd =
     EncodeDomainName ul kn @ put16 TypeTSIG @ put16 ClassANY @ put32 0 @
     put16 (word_of_nat (min (length rd) 65535)) @ rd"

lemma put16_at_append: "off + 2 \<le> length x \<Longrightarrow> put16_at (x @ y) off v = put16_at x off v @ y"
  by (simp add: put16_at_def copy_at_fit)

lemma take_written:
  assumes "12 \<le> L" and "L + length r \<le> length buf"
  shows "take (L + length r) (put16_at (copy_at buf L r) 10 v) = put16_at (take L buf) 10 v @ r"
proof -
  have "length (take L buf) = L" using assms by simp
  then show ?thesis
    using assms by (simp add: copy_at_fit [of L r buf] put16_at_append)
qed

lemma sub_slice_copy_low: "j \<le> L \<Longrightarrow> L \<le> length buf \<Longrightarrow> sub_slice (copy_at buf L r) i j = sub_slice buf i j"
  using take_copy_at [of j L buf r] sub_slice_take [of j j "copy_at buf L r" i] sub_slice_take [of j j buf i] by simp

lemma Sign_shape:
  assumes sign: "tsig_Sign hmac ul buf L reqMAC key e now = Inr (n, buf')"
    and L: "12 \<le> L"
  defines "algo \<equiv> CanonicalAlgorithm ul (tk_Algorithm key)" and "t \<equiv> word_of_int (max now 0) :: u64"
    and "od \<equiv> (if e = TSIGErrBadTime then put48 (word_of_int (max now 0)) else [])"
  shows "\<exists>h mac. newHasher ul algo = Inr h \<and>
    mac = hmac h (Secret key) ((if length reqMAC > 0 then put16 (len16 reqMAC) @ reqMAC else []) @ take L buf @
      writeTSIGVariables ul (CanonicalName ul (tk_Name key)) algo t defaultFudge e od) \<and>
    L \<le> length buf \<and>
    take n buf' = put16_at (take L buf) 10 (get16 (sub_slice buf 10 12) + 1) @
      tsig_rr ul (CanonicalName ul (tk_Name key)) (tsig_rdata ul algo t mac (get16 (sub_slice buf 0 2)) e od)"
proof -
  from sign obtain h where h: "newHasher ul algo = Inr h"
    by (cases "newHasher ul algo") (simp_all add: tsig_Sign_def algo_def Let_def)
  define mac where "mac = hmac h (Secret key) ((if length reqMAC > 0 then put16 (len16 reqMAC) @ reqMAC else []) @
      take L buf @ writeTSIGVariables ul (CanonicalName ul (tk_Name key)) algo t defaultFudge e od)"
  let ?rd = "tsig_rdata ul algo t mac (get16 (sub_slice buf 0 2)) e od"
  let ?rr = "tsig_rr ul (CanonicalName ul (tk_Name key)) ?rd"
  let ?N = "length (EncodeDomainName ul algo) + 6 + 2 + 2 + length mac + 2 + 2 + 2 + length od"
  let ?front = "EncodeDomainName ul (CanonicalName ul (tk_Name key)) @ put16 TypeTSIG @ put16 ClassANY @ put32 0 @
     put16 (word_of_nat (min ?N 65535)) @ EncodeDomainName ul algo @ put48 t @ put16 defaultFudge @
     put16 (len16 mac) @ mac"
  let ?tail = "put16 (get16 (sub_slice buf 0 2)) @ put16 e @ put16 (len16 od) @ od"
  have rd: "length ?rd = ?N" by (simp add: tsig_rdata_def)
  have rr: "?front @ ?tail = ?rr" by (simp add: tsig_rr_def rd) (simp add: tsig_rdata_def)
  have N: "length (EncodeDomainName ul (CanonicalName ul (tk_Name key))) + 2 + 2 + 4 + 2 + ?N = length ?rr"
    by (simp add: tsig_rr_def rd)
  note S = sign [unfolded tsig_Sign_def Let_def, folded algo_def t_def od_def, unfolded h res_bind_Inr,
      folded mac_def, unfolded N]
  have fit: "L + length ?rr \<le> length buf" using S by (auto split: if_splits)
  then have low: "sub_slice (copy_at buf L ?front) 0 2 = sub_slice buf 0 2"
    using L by (intro sub_slice_copy_low) simp_all
  have join: "copy_at (copy_at buf L ?front) (L + length ?front) ?tail = copy_at buf L ?rr"
    using fit copy_at_append [of L ?front ?tail buf] unfolding rr by (simp add: rr [symmetric] add.assoc)
  have "sub_slice (copy_at buf L ?rr) 10 12 = sub_slice buf 10 12"
    using L fit by (intro sub_slice_copy_low) simp_all
  then have "n = L + length ?rr \<and> buf' = put16_at (copy_at buf L ?rr) 10 (get16 (sub_slice buf 10 12) + 1)"
    using S fit unfolding low join by simp
  then have "take n buf' = put16_at (take L buf) 10 (get16 (sub_slice buf 10 12) + 1) @ ?rr"
    using take_written [OF L fit] by simp
  with h fit show ?thesis unfolding mac_def by (intro exI [of _ h] exI conjI) simp_all
qed

section \<open>Canonical names and algorithms\<close>

lemma Encode_trailing_dot:
  assumes "normal_name d" shows "EncodeDomainName ul (d @ ''.'') = EncodeDomainName ul d"
proof -
  have h: "list_all host_char d" and low: "lower_ascii d = d"
    using assms normal_host by (simp_all add: normal_name_def)
  have h': "list_all host_char (d @ ''.'')" using h by (simp add: host_char_def)
  have n: "d \<noteq> []" "last d \<noteq> CHR ''.''" using normal_name_last [OF assms] by simp_all
  then have "d \<noteq> ''.''" by auto
  moreover have "lower_ascii ''.'' = ''.''" by (simp add: lower_ascii_def)
  ultimately show ?thesis
    using n by (simp add: Encode_host [OF h] Encode_host [OF h'] low TrimSuffix_dot butlast_append)
qed

lemma CanonicalName_normal: "normal_name d \<Longrightarrow> CanonicalName ul d = d @ ''.''"
proof -
  assume d: "normal_name d"
  have "list_all host_char d" "lower_ascii d = d" using d normal_host by (simp_all add: normal_name_def)
  then show ?thesis using normal_name_last [OF d]
    by (simp add: CanonicalName_def TrimSpace_host ToLower_host suffix_dot)
qed

definition supported :: "string set" where
  "supported = {HMACSHA256, HMACSHA512, HMACSHA1, HMACMD5}"

lemma algorithm_host:
  "list_all host_char a \<Longrightarrow> lower_ascii a = a \<Longrightarrow> CanonicalAlgorithm ul a =
     (if a \<in> {''hmac-sha256'', ''hmac-sha256.''} then HMACSHA256
      else if a \<in> {''hmac-sha512'', ''hmac-sha512.''} then HMACSHA512
      else if a \<in> {''hmac-sha1'', ''hmac-sha1.''} then HMACSHA1
      else if a \<in> {''hmac-md5'', ''hmac-md5.'', ''hmac-md5.sig-alg.reg.int'', ''hmac-md5.sig-alg.reg.int.''}
        then HMACMD5
      else if \<not> suffix ''.'' a then a @ ''.'' else a)"
  by (simp add: CanonicalAlgorithm_def TrimSpace_host ToLower_host)

lemma supported_plain:
  assumes "a \<in> supported"
  shows "\<exists>b. a = b @ ''.'' \<and> normal_name b \<and> CanonicalAlgorithm ul b = a \<and> CanonicalAlgorithm ul a = a"
proof -
  have n: "normal_name ''hmac-sha256''" "normal_name ''hmac-sha512''" "normal_name ''hmac-sha1''"
    "normal_name ''hmac-md5.sig-alg.reg.int''" by code_simp+
  have c: "CanonicalAlgorithm ul ''hmac-sha256'' = HMACSHA256" "CanonicalAlgorithm ul HMACSHA256 = HMACSHA256"
    "CanonicalAlgorithm ul ''hmac-sha512'' = HMACSHA512" "CanonicalAlgorithm ul HMACSHA512 = HMACSHA512"
    "CanonicalAlgorithm ul ''hmac-sha1'' = HMACSHA1" "CanonicalAlgorithm ul HMACSHA1 = HMACSHA1"
    "CanonicalAlgorithm ul ''hmac-md5.sig-alg.reg.int'' = HMACMD5" "CanonicalAlgorithm ul HMACMD5 = HMACMD5"
    by (subst algorithm_host; code_simp)+
  from assms consider "a = HMACSHA256" | "a = HMACSHA512" | "a = HMACSHA1" | "a = HMACMD5"
    unfolding supported_def by blast
  then show ?thesis
  proof cases
    case 1 with n(1) c(1,2) show ?thesis by (intro exI [of _ "''hmac-sha256''"]) simp
  next
    case 2 with n(2) c(3,4) show ?thesis by (intro exI [of _ "''hmac-sha512''"]) simp
  next
    case 3 with n(3) c(5,6) show ?thesis by (intro exI [of _ "''hmac-sha1''"]) simp
  next
    case 4 with n(4) c(7,8) show ?thesis by (intro exI [of _ "''hmac-md5.sig-alg.reg.int''"]) simp
  qed
qed

section \<open>The time window\<close>

lemma skew_bound:
  assumes "0 \<le> now" "now < 2 ^ 48" "0 \<le> now'" "\<bar>now' - now\<bar> \<le> 300"
  shows "skew_of now' (word_of_int now) \<le> 300"
proof -
  have u: "uint (word_of_int x :: u64) = x" if "0 \<le> x" "x < 2 ^ 49" for x
    using that by (simp add: unsigned_of_int take_bit_int_eq_self)
  have le: "(word_of_int now :: u64) \<le> word_of_int now' \<longleftrightarrow> now \<le> now'"
    using assms u [of now] u [of now'] by (simp add: word_le_def)
  have d: "(word_of_int x :: u64) \<le> 300" if "0 \<le> x" "x \<le> 300" for x
    using that u [of x] by (simp add: word_le_def)
  have "skew_of now' (word_of_int now) = word_of_int \<bar>now' - now\<bar>"
    using assms le by (auto simp: skew_of_def of_int_diff [symmetric] simp del: of_int_diff)
  with d [of "\<bar>now' - now\<bar>"] assms show ?thesis by simp
qed

lemma time_48:
  assumes "0 \<le> now" "now < 2 ^ 48" shows "take_bit 48 (word_of_int now :: u64) = word_of_int now"
proof -
  have "uint (word_of_int now :: u64) = now" using assms by (simp add: unsigned_of_int take_bit_int_eq_self)
  then have "uint (take_bit 48 (word_of_int now :: u64)) = uint (word_of_int now :: u64)"
    unfolding unsigned_take_bit_eq using assms by (simp add: take_bit_int_eq_self)
  then show ?thesis by (simp only: word_uint_eq_iff)
qed

section \<open>Properties\<close>

text \<open>The stripped message of a signed one, and the data both sides hash.\<close>

lemma strip_written:
  assumes "12 \<le> L" and "L \<le> length buf"
  shows "put16_at (put16_at (take L buf) 10 v) 10 (get16 (sub_slice buf 10 12)) = take L buf"
proof -
  let ?m = "take L buf"
  have "length (sub_slice ?m 10 12) = 2" using assms by simp
  then have "put16 (get16 (sub_slice ?m 10 12)) = sub_slice ?m 10 12" by (rule put16_get16)
  moreover have "sub_slice ?m 10 12 = sub_slice buf 10 12" using assms by (intro sub_slice_take) simp
  moreover have "?m = take 10 ?m @ sub_slice ?m 10 12 @ drop 12 ?m"
    unfolding sub_slice_def using assms append_take_drop_id [of 10 ?m] append_take_drop_id [of 2 "drop 10 ?m"] by simp
  ultimately show ?thesis using assms by (simp add: put16_at_def copy_at_fit)
qed

lemma restore_id:
  assumes "2 \<le> length m" shows "put16_at m 0 (get16 (sub_slice m 0 2)) = m"
proof -
  have "put16 (get16 (sub_slice m 0 2)) = take 2 m"
    using put16_get16 [of "take 2 m"] assms by (simp add: sub_slice_def)
  with assms show ?thesis
    using append_take_drop_id [of 2 m] by (simp add: put16_at_def copy_at_fit numeral_2_eq_2)
qed

lemma no_wrap: "(ar :: u16) \<noteq> 0xFFFF \<Longrightarrow> ar + 1 \<noteq> 0"
proof
  assume "ar \<noteq> 0xFFFF" and "ar + 1 = 0"
  then have "ar = - 1" by (simp add: add_eq_0_iff2)
  with \<open>ar \<noteq> 0xFFFF\<close> show False by simp
qed

lemma Extract_tsig_rr:
  assumes P: "P = M @ tsig_rr ul (d @ ''.'') (tsig_rdata ul (b @ ''.'') t m i e [])" and M: "12 \<le> length M"
    and d: "normal_name d" and b: "normal_name b" and m: "length m \<le> 64" and t: "take_bit 48 t = t"
    and count: "get16 (sub_slice P 10 12) \<noteq> 0"
    and sections: "skipMessageSections P (get16 (sub_slice P 4 6)) (get16 (sub_slice P 6 8))
      (get16 (sub_slice P 8 10)) (get16 (sub_slice P 10 12)) = Inr (length M)"
  shows "Extract ul P = Inr (Some \<lparr>tr_Name = d @ ''.'', tr_Algorithm = CanonicalAlgorithm ul b, MAC = m,
      OtherData = [], TimeSigned = t, OriginalID = i, Fudge = defaultFudge, tr_Error = e\<rparr>,
    put16_at M 10 (get16 (sub_slice P 10 12) - 1))"
proof -
  let ?K = "EncodeDomainName ul d" and ?A = "EncodeDomainName ul b"
  let ?rd = "tsig_rdata ul (b @ ''.'') t m i e []"
  let ?n = "word_of_nat (min (length ?rd) 65535) :: u16"
  let ?H = "put16 TypeTSIG @ put16 ClassANY @ put32 0 @ put16 ?n"
  note wires = Encode_trailing_dot [OF d, of ul] Encode_trailing_dot [OF b, of ul]
  have "length b \<le> 253" using b by (simp add: normal_name_def)
  then have lrd: "length ?rd \<le> 65535"
    using m length_Encode_normal [OF b, of ul] by (simp add: tsig_rdata_def wires)
  have un: "unat ?n = length ?rd" using unat_len16 [OF lrd] by (simp add: len16_def)
  have P1: "P = M @ ?K @ put16 TypeTSIG @ put16 ClassANY @ put32 0 @ put16 ?n @ ?rd"
    by (simp add: P tsig_rr_def wires)
  have key: "UnpackDomainName P (length M) = Inr (d, length (M @ ?K))"
    using Unpack_Encode_normal [OF d, of M ul "?H @ ?rd"] length_Encode_normal [OF d, of ul] by (simp add: P1)
  define B where "B = M @ ?K @ ?H"
  have P2: "P = B @ ?A @ put48 t @ put16 defaultFudge @ put16 (len16 m) @ m @ put16 i @ put16 e @
      put16 (len16 ([] :: bytes)) @ []"
    by (simp add: P1 B_def tsig_rdata_def wires)
  have "UnpackDomainName P (length B) = Inr (b, length (B @ ?A))"
    using Unpack_Encode_normal [OF b, of B ul] length_Encode_normal [OF b, of ul] by (simp add: P2)
  then have "unpackTSIGRecord ul P (length B) (length P) d = Inr \<lparr>tr_Name = d @ ''.'',
      tr_Algorithm = CanonicalAlgorithm ul b, MAC = m, OtherData = [], TimeSigned = t, OriginalID = i,
      Fudge = defaultFudge, tr_Error = e\<rparr>"
    using unpackTSIGRecord_written [of P "B @ ?A" t defaultFudge m i e "[]" "length B" b ul d] m t
    by (simp add: P2 CanonicalName_normal [OF d])
  then show ?thesis
    using Extract_written [OF P1 M un count sections key] by (simp add: B_def add.assoc)
qed

lemma signed_accepted:
  assumes sign: "tsig_Sign hmac ul buf L [] key 0 now = Inr (n, buf')" and L: "12 \<le> L"
    and name: "CanonicalName ul (tk_Name key) = d @ ''.''" "normal_name d"
    and algo: "CanonicalAlgorithm ul (tk_Algorithm key) \<in> supported"
    and mac: "\<And>a s x. length (hmac a s x) \<le> 64"
    and time: "0 \<le> now" "now < 2 ^ 48" "0 \<le> now'" "\<bar>now' - now\<bar> \<le> 300"
    and count: "get16 (sub_slice buf 10 12) \<noteq> 0xFFFF"
    and sections: "skipMessageSections (take n buf') (get16 (sub_slice (take n buf') 4 6))
      (get16 (sub_slice (take n buf') 6 8)) (get16 (sub_slice (take n buf') 8 10))
      (get16 (sub_slice (take n buf') 10 12)) = Inr L"
  shows "\<exists>rec. Extract ul (take n buf') = Inr (Some rec, take L buf) \<and>
    tsig_Verify hmac ul (take L buf) rec key now' = (0, None)"
proof -
  define P where "P = take n buf'"
  define a where "a = CanonicalAlgorithm ul (tk_Algorithm key)"
  define t where "t = (word_of_int now :: u64)"
  define i where "i = get16 (sub_slice buf 0 2)"
  define ar where "ar = get16 (sub_slice buf 10 12)"
  obtain b where b: "a = b @ ''.''" "normal_name b" "CanonicalAlgorithm ul b = a"
    using supported_plain [OF algo] unfolding a_def by blast
  from Sign_shape [OF sign L, folded a_def P_def i_def ar_def, unfolded name(1)] time(1)
  obtain h m where h: "newHasher ul a = Inr h"
    and m: "m = hmac h (Secret key) (take L buf @ writeTSIGVariables ul (d @ ''.'') a t defaultFudge 0 [])"
    and len: "L \<le> length buf"
    and P: "P = put16_at (take L buf) 10 (ar + 1) @ tsig_rr ul (d @ ''.'') (tsig_rdata ul a t m i 0 [])"
    by (auto simp: t_def)
  let ?M = "put16_at (take L buf) 10 (ar + 1)"
  let ?rec = "\<lparr>tr_Name = d @ ''.'', tr_Algorithm = a, MAC = m, OtherData = [], TimeSigned = t,
    OriginalID = i, Fudge = defaultFudge, tr_Error = 0\<rparr>"
  have lM: "length ?M = L" using L len by simp
  have lm: "length m \<le> 64" unfolding m by (rule mac)
  have "sub_slice P 10 12 = sub_slice ?M 10 12" unfolding P using lM L by (intro sub_slice_append1) simp
  also have "\<dots> = put16 (ar + 1)"
    using sub_slice_copy_at_same [of 10 "put16 (ar + 1)" "take L buf"] L len by (simp add: put16_at_def)
  finally have count1: "get16 (sub_slice P 10 12) = ar + 1" by simp
  have "ar + 1 \<noteq> 0" using count no_wrap [of ar] by (simp add: ar_def)
  then have "Extract ul P = Inr (Some ?rec, put16_at ?M 10 (ar + 1 - 1))"
    using Extract_tsig_rr [OF P [unfolded b(1)] _ name(2) b(2) lm, of] time_48 [OF time(1,2)] sections L lM
    by (simp add: count1 P_def [symmetric] t_def b)
  moreover have "put16_at ?M 10 (ar + 1 - 1) = take L buf"
    using strip_written [OF L len, of "ar + 1"] by (simp add: ar_def)
  moreover have "put16_at (take L buf) 0 i = take L buf"
    using restore_id [of "take L buf"] L len sub_slice_take [of 2 L buf 0] by (simp add: i_def)
  then have "tsig_Verify hmac ul (take L buf) ?rec key now' = (0, None)"
    using skew_bound [OF time] h m by (simp add: tsig_Verify_def name(1) a_def [symmetric] t_def Let_def not_less)
  ultimately show ?thesis unfolding P_def [symmetric] by auto
qed


text \<open>Signing succeeds whenever the buffer has 700 bytes of room.\<close>

lemma Sign_succeeds:
  assumes name: "CanonicalName ul (tk_Name key) = d @ ''.''" "normal_name d"
    and algo: "CanonicalAlgorithm ul (tk_Algorithm key) \<in> supported"
    and mac: "\<And>a s x. length (hmac a s x) \<le> 64" and room: "L + 700 \<le> length buf"
  shows "\<exists>n buf'. tsig_Sign hmac ul buf L reqMAC key e now = Inr (n, buf')"
proof -
  let ?a = "CanonicalAlgorithm ul (tk_Algorithm key)"
  obtain b where b: "?a = b @ ''.''" "normal_name b" "CanonicalAlgorithm ul ?a = ?a"
    using supported_plain [OF algo] by blast
  obtain h where h: "newHasher ul ?a = Inr h"
    using algo b(3) by (auto simp: newHasher_def supported_def Let_def)
  have l: "length (EncodeDomainName ul (d @ ''.'')) \<le> 255" "length (EncodeDomainName ul ?a) \<le> 255"
    using name(2) b(2) by (simp_all add: b(1) Encode_trailing_dot length_Encode_normal) (simp_all add: normal_name_def)
  let ?od = "if e = TSIGErrBadTime then put48 (word_of_int (max now 0)) else []"
  let ?x = "(if length reqMAC > 0 then put16 (len16 reqMAC) @ reqMAC else []) @ take L buf @
    writeTSIGVariables ul (d @ ''.'') ?a (word_of_int (max now 0)) defaultFudge e ?od"
  have "length (hmac h (Secret key) ?x) \<le> 64" by (rule mac)
  moreover have "length ?od \<le> 6" by simp
  ultimately have "\<not> L + (length (EncodeDomainName ul (d @ ''.'')) + 2 + 2 + 4 + 2 +
      (length (EncodeDomainName ul ?a) + 6 + 2 + 2 + length (hmac h (Secret key) ?x) + 2 + 2 + 2 + length ?od)) > length buf"
    using l room by linarith
  then show ?thesis
    unfolding tsig_Sign_def Let_def h res_bind_Inr name(1) by (simp only: if_False) blast
qed

lemma Unpack_root: "UnpackDomainName (pre @ 0 # post) (length pre) = Inr ([], length pre + 1)"
  by (simp add: UnpackDomainName_def decode_loop.simps new_decompressor_def)

abbreviation toy_hmac :: hmac where "toy_hmac \<equiv> \<lambda>a s x. take 32 (s @ x)"

definition toy_tsig_key :: tsig_key where
  "toy_tsig_key = \<lparr>tk_Name = ''Key'', tk_Algorithm = ''hmac-sha256'', Secret = [1, 2, 3]\<rparr>"

text \<open>A request with one question, for the root, in a larger buffer.\<close>

definition toy_request :: bytes where
  "toy_request = [0x12, 0x34, 0, 0, 0, 1, 0, 0, 0, 0, 0, 0] @ 0 # [0, 1, 0, 1]"

definition toy_buffer :: bytes where
  "toy_buffer = toy_request @ replicate 700 0"

lemma toy_tsig:
  "CanonicalName id (tk_Name toy_tsig_key) = ''key'' @ ''.''" "normal_name ''key''"
  "CanonicalAlgorithm id (tk_Algorithm toy_tsig_key) \<in> supported"
proof -
  have "list_all host_char ''Key''" "lower_ascii ''Key'' = ''key''" by code_simp+
  then show "CanonicalName id (tk_Name toy_tsig_key) = ''key'' @ ''.''"
    unfolding CanonicalName_def toy_tsig_key_def tsig_key.simps
    by (simp only: TrimSpace_host ToLower_host Let_def) code_simp
  show "normal_name ''key''" by code_simp
  have "CanonicalAlgorithm id ''hmac-sha256'' = HMACSHA256" by (subst algorithm_host; code_simp)
  then show "CanonicalAlgorithm id (tk_Algorithm toy_tsig_key) \<in> supported"
    by (simp add: toy_tsig_key_def supported_def)
qed

lemma toy_sections:
  assumes "P = put16_at toy_request 10 1 @ rr"
  shows "skipMessageSections P (get16 (sub_slice P 4 6)) (get16 (sub_slice P 6 8))
    (get16 (sub_slice P 8 10)) (get16 (sub_slice P 10 12)) = Inr 17"
proof -
  let ?h = "[0x12, 0x34, 0, 0, 0, 1, 0, 0, 0, 0, 0, 1] :: bytes"
  have "put16_at toy_request 10 1 = ?h @ 0 # [0, 1, 0, 1]" by code_simp
  then have P: "P = ?h @ 0 # [0, 1, 0, 1] @ rr" using assms by simp
  have "UnpackDomainName P 12 = Inr ([], 13)" unfolding P
    using Unpack_root [of ?h "[0, 1, 0, 1] @ rr"] by (simp add: eval_nat_numeral)
  moreover have "get16 (sub_slice P 4 6) = 1" "get16 (sub_slice P 6 8) = 0" "get16 (sub_slice P 8 10) = 0"
    "get16 (sub_slice P 10 12) = 1" unfolding P by (simp_all add: sub_slice_def)
  moreover have "17 \<le> length P" unfolding P by simp
  ultimately show ?thesis by (simp add: skipMessageSections_def)
qed


end
