(* ===== verification/DnsServer.thy ===== *)
theory DnsServer
  imports Pack Rrl Rfc2136 Dnssec Tsig
begin

text \<open>
  \<open>internal/dnsserver\<close>: the pipeline from the bytes of a request to the bytes of a response
  (\<open>resolve.go\<close>, \<open>chaos.go\<close>) and the handling of datagrams and of a connection (\<open>transport.go\<close>).  It
  composes the signature check, the message reader, the resolver, DNSSEC, dynamic updates, the
  message writer and the rate limiter.  The locale \<open>backend\<close> is what the server relies on of the
  data behind it; it is interpreted on the zone state.  Shown: the records change only for a
  request with a valid signature, a query is answered with what the tree holds, and the responses
  on a connection are framed one by one.
\<close>

section \<open>The server (server.go)\<close>

abbreviation MaxTCPSize :: int where "MaxTCPSize \<equiv> 65535"
abbreviation udpBufferSize :: nat where "udpBufferSize \<equiv> 4096"

datatype server_error = ErrNilResolver | ErrMalformedQuery | ErrResponsePacket | ErrSerialization | ErrSocketWrite

text \<open>The resolver, the getter it may also be and the optional writer are functions over the state
  \<open>'s\<close> of the data behind them; \<open>None\<close> of the resolver is a panic.\<close>

record ('s, 'e, 'p) Server =
  srv_res :: "'s \<Rightarrow> string \<Rightarrow> dns_type \<Rightarrow> (Result \<times> 's) option"
  getter :: "('s \<Rightarrow> string \<Rightarrow> RRSets option) option"
  upsertDeleter :: "(('s \<Rightarrow> string \<Rightarrow> RRSets \<Rightarrow> 'e option \<times> 's) \<times> ('s \<Rightarrow> string \<Rightarrow> 'e option \<times> 's)) option"
  tsigKeys :: "KeyRing option"
  dnssecMgr :: "'p Manager option"
  versionWire :: "bytes list"
  identityWire :: "bytes list"
  authorsWire :: "bytes list"

text \<open>What a call depends on besides the server: the parameters of the components and the readings of
  the clock at the signature check, at the DNSSEC signing and at the signing of the response.\<close>

record 'p Env =
  env_lower :: "string \<Rightarrow> string"
  env_hmac :: hmac
  env_crypto :: "'p crypto"
  env_order :: "string list \<Rightarrow> string list"
  clk_verify :: int
  clk_dnssec :: int
  clk_sign :: int

definition canUpdate :: "('s, 'e, 'p) Server \<Rightarrow> bool" where
  "canUpdate srv \<longleftrightarrow> getter srv \<noteq> None \<and> upsertDeleter srv \<noteq> None \<and> tsigKeys srv \<noteq> None"

definition canSign :: "('s, 'e, 'p) Server \<Rightarrow> bool" where
  "canSign srv \<longleftrightarrow> dnssecMgr srv \<noteq> None"

section \<open>Server identification (chaos.go)\<close>

definition chaos_answer :: "bytes list \<Rightarrow> dns_type \<Rightarrow> Result" where
  "chaos_answer wire qType =
     (if qType = TypeTXT \<or> qType = TypeANY
      then no_Result\<lparr>RCode := RCodeSuccess,
             Answer := \<lparr>RData = wire, TTL = 0, rr_Type = TypeTXT, rr_Class = ClassCH\<rparr>\<rparr>
      else no_Result\<lparr>RCode := RCodeSuccess\<rparr>)"

definition resolveCHAOS :: "'p Env \<Rightarrow> ('s, 'e, 'p) Server \<Rightarrow> string \<Rightarrow> dns_type \<Rightarrow> Result" where
  "resolveCHAOS env srv name qType =
     (let lower = ToLower (env_lower env) (TrimSuffix name ''.'') in
      if lower \<in> {''version.bind'', ''version.server''} then chaos_answer (versionWire srv) qType
      else if lower \<in> {''hostname.bind'', ''id.server''} then chaos_answer (identityWire srv) qType
      else if lower = ''authors.bind'' then chaos_answer (authorsWire srv) qType
      else no_Result\<lparr>RCode := RCodeNameError\<rparr>)"

section \<open>The pipeline (resolve.go)\<close>

record tsigAuthResult =
  auth_rec :: "tsig_record option"
  auth_payload :: bytes
  auth_key :: "tsig_key option"
  errCode :: u16
  present :: bool
  keyFound :: bool

definition authenticateTSIG :: "'p Env \<Rightarrow> ('s, 'e, 'p) Server \<Rightarrow> bytes \<Rightarrow> tsig_error + tsigAuthResult" where
  "authenticateTSIG env srv queryBytes =
     res_bind (Extract (env_lower env) queryBytes) (\<lambda>(rec, payloadWithoutTSIG).
       case rec of
         None \<Rightarrow> Inr \<lparr>auth_rec = None, auth_payload = payloadWithoutTSIG, auth_key = None, errCode = 0,
                   present = False, keyFound = False\<rparr>
       | Some r \<Rightarrow>
           (let res = \<lparr>auth_rec = Some r, auth_payload = payloadWithoutTSIG, auth_key = None,
                       errCode = TSIGErrBadKey, present = True, keyFound = False\<rparr>
            in case tsigKeys srv of
                 None \<Rightarrow> Inr res
               | Some ring \<Rightarrow>
                   (case ring_Key (env_lower env) ring (tr_Name r) of
                      None \<Rightarrow> Inr res
                    | Some k \<Rightarrow>
                        (let res = res\<lparr>auth_key := Some k, keyFound := True, errCode := 0\<rparr> in
                         case tsig_Verify (env_hmac env) (env_lower env) payloadWithoutTSIG r k (clk_verify env) of
                           (code, Some _) \<Rightarrow> Inr (res\<lparr>errCode := code\<rparr>)
                         | (_, None) \<Rightarrow> Inr res))))"

text \<open>The label under which \<open>recordTSIGMetrics\<close> counts a signature check.\<close>

definition recordTSIGMetrics :: "u16 \<Rightarrow> string" where
  "recordTSIGMetrics code =
     (if code = 0 then ''ok'' else if code = TSIGErrBadSig then ''badsig''
      else if code = TSIGErrBadKey then ''badkey'' else if code = TSIGErrBadTime then ''badtime''
      else if code = 22 then ''badalgo'' else ''other'')"

definition signDNSSEC :: "'p Env \<Rightarrow> ('s, 'e, 'p) Server \<Rightarrow> string \<Rightarrow> dns_type \<Rightarrow> Result \<Rightarrow> Result option" where
  "signDNSSEC env srv name qType res =
     SignResult (env_lower env) (env_crypto env) (dnssecMgr srv) name qType res (clk_dnssec env)"

definition handleQuery ::
  "'p Env \<Rightarrow> ('s, 'e, 'p) Server \<Rightarrow> string \<Rightarrow> dns_type \<Rightarrow> dns_class \<Rightarrow> bool \<Rightarrow> 's \<Rightarrow> (Result \<times> 's) option" where
  "handleQuery env srv name qType qClass do s =
     (if qClass = ClassCH then Some (resolveCHAOS env srv name qType, s)
      else case srv_res srv s name qType of
        None \<Rightarrow> None
      | Some (res, s) \<Rightarrow>
          if do \<and> canSign srv then map_option (\<lambda>res. (res, s)) (signDNSSEC env srv name qType res)
          else Some (res, s))"

text \<open>The left value is the error of the update.  A server without a getter or a writer cannot update, so
  the last case is the first test of the source as well.\<close>

definition handleUpdate ::
  "'p Env \<Rightarrow> ('s, 'e, 'p) Server \<Rightarrow> bytes \<Rightarrow> bool \<Rightarrow> u16 \<Rightarrow> 's \<Rightarrow> ('e update_error + Result) \<times> 's" where
  "handleUpdate env srv wire hasTSIG tsigErr s =
     (case (getter srv, upsertDeleter srv) of
        (Some get, Some (upsert, delete)) \<Rightarrow>
          if \<not> canUpdate srv then (Inr (no_Result\<lparr>RCode := RCodeRefused\<rparr>), s)
          else if \<not> hasTSIG \<or> tsigErr \<noteq> 0 then (Inr (no_Result\<lparr>RCode := RCodeNotAuth\<rparr>), s)
          else
            (case Process (env_lower env) get upsert delete (env_order env) wire s of
               ((_, Some err), s) \<Rightarrow> (Inl err, s)
             | ((rCode, None), s) \<Rightarrow> (Inr (no_Result\<lparr>RCode := rCode\<rparr>), s))
      | _ \<Rightarrow> (Inr (no_Result\<lparr>RCode := RCodeRefused\<rparr>), s))"

definition handleMultipleOPT :: "Message \<Rightarrow> bytes \<Rightarrow> server_error + (nat \<times> bytes)" where
  "handleMultipleOPT msg respBuf =
     (case PackResponse msg respBuf (no_Result\<lparr>RCode := RCodeFormatError\<rparr>) MaxUDPSize of
        Inl _ \<Rightarrow> Inl ErrSerialization
      | Inr out \<Rightarrow> Inr out)"

text \<open>The result of \<open>resolve\<close>: the error or the written bytes with the buffer, and the query name and
  response code that are returned in both cases.\<close>

record resolved =
  out :: "server_error + (nat \<times> bytes)"
  out_name :: string
  out_rcode :: rcode

text \<open>The switch over the operation; the left value is a failed update.\<close>

definition dispatch ::
  "'p Env \<Rightarrow> ('s, 'e, 'p) Server \<Rightarrow> tsigAuthResult \<Rightarrow> Message \<Rightarrow> Question \<Rightarrow> 's \<Rightarrow> (('e update_error + Result) \<times> 's) option" where
  "dispatch env srv auth msg q s =
     (if present auth \<and> errCode auth \<noteq> 0 then Some (Inr (no_Result\<lparr>RCode := RCodeNotAuth\<rparr>), s)
      else if Header_Opcode (msg_Header msg) = OpcodeQuery then
        map_option (\<lambda>(res, s). (Inr res, s)) (handleQuery env srv (q_Name q) (q_Type q) (q_Class q) (DO msg) s)
      else if Header_Opcode (msg_Header msg) = OpcodeUpdate then
        Some (handleUpdate env srv (auth_payload auth) (present auth) (errCode auth) s)
      else Some (Inr (no_Result\<lparr>RCode := RCodeNotImplemented\<rparr>), s))"

definition sign_response :: "'p Env \<Rightarrow> tsigAuthResult \<Rightarrow> nat \<Rightarrow> bytes \<Rightarrow> nat \<times> bytes" where
  "sign_response env auth written respBuf =
     (case (auth_rec auth, auth_key auth) of
        (Some r, Some k) \<Rightarrow>
          if present auth \<and> keyFound auth then
            (case tsig_Sign (env_hmac env) (env_lower env) respBuf written (MAC r) k (errCode auth) (clk_sign env) of
               Inl _ \<Rightarrow> (written, respBuf)
             | Inr sg \<Rightarrow> sg)
          else (written, respBuf)
      | _ \<Rightarrow> (written, respBuf))"

definition pack_result ::
  "'p Env \<Rightarrow> tsigAuthResult \<Rightarrow> Message \<Rightarrow> string \<Rightarrow> bytes \<Rightarrow> int \<Rightarrow> Result \<Rightarrow> resolved" where
  "pack_result env auth msg qName respBuf transportSize res =
     (let maxSize = MaxPayloadSize transportSize (int (EDNS0Size msg)) in
      \<lparr>out = (case PackResponse msg respBuf res maxSize of
                Inl _ \<Rightarrow> Inl ErrSerialization
              | Inr (written, respBuf) \<Rightarrow>
                  if written = 0 then Inl ErrSerialization
                  else Inr (sign_response env auth written respBuf)),
       out_name = qName, out_rcode = RCode res\<rparr>)"

definition srv_resolve ::
  "'p Env \<Rightarrow> ('s, 'e, 'p) Server \<Rightarrow> bytes \<Rightarrow> bytes \<Rightarrow> int \<Rightarrow> 's \<Rightarrow> (resolved \<times> 's) option" where
  "srv_resolve env srv queryBytes respBuf transportSize s =
     (case authenticateTSIG env srv queryBytes of
        Inl _ \<Rightarrow> Some (\<lparr>out = Inl ErrMalformedQuery, out_name = [], out_rcode = RCodeFormatError\<rparr>, s)
      | Inr auth \<Rightarrow>
          (case Message_Unpack empty_message (auth_payload auth) of
             (Some unpackErr, msg) \<Rightarrow>
               Some (\<lparr>out = (if unpackErr = ErrMultipleOPT then handleMultipleOPT msg respBuf
                             else Inl ErrMalformedQuery), out_name = [], out_rcode = RCodeFormatError\<rparr>, s)
           | (None, msg) \<Rightarrow>
               if IsResponse (msg_Header msg) then
                 Some (\<lparr>out = Inl ErrResponsePacket, out_name = [], out_rcode = 0\<rparr>, s)
               else (case Questions msg of
                  [] \<Rightarrow> Some (\<lparr>out = Inl ErrMalformedQuery, out_name = [], out_rcode = RCodeFormatError\<rparr>, s)
                | q # _ \<Rightarrow>
                    (case dispatch env srv auth msg q s of
                       None \<Rightarrow> None
                     | Some (Inl _, s) \<Rightarrow>
                         Some (\<lparr>out = Inl ErrMalformedQuery, out_name = q_Name q, out_rcode = RCodeFormatError\<rparr>, s)
                     | Some (Inr res, s) \<Rightarrow>
                         Some (pack_result env auth msg (q_Name q) respBuf transportSize res, s)))))"

section \<open>Transports (transport.go)\<close>

text \<open>A datagram: what is sent back, if anything, and the error of the handler.  \<open>buf\<close> is the response
  buffer of the pool, \<open>clientIP\<close> the address \<open>extractIP\<close> finds.  The socket takes every datagram.\<close>

definition handleUDPQuery ::
  "'p Env \<Rightarrow> ('s, 'e, 'p) Server \<Rightarrow> bytes \<Rightarrow> Addr \<Rightarrow> int \<Rightarrow> bytes \<Rightarrow> Limiter option \<Rightarrow> 's \<Rightarrow>
   (bytes option \<times> server_error option \<times> Limiter option \<times> 's) option" where
  "handleUDPQuery env srv queryBytes clientIP unixTime buf rrl s =
     (case srv_resolve env srv queryBytes buf MaxUDPSize s of
        None \<Rightarrow> None
      | Some (r, s) \<Rightarrow>
          (case out r of
             Inl err \<Rightarrow>
               Some (None, if err = ErrResponsePacket \<or> err = ErrMalformedQuery then None else Some err, rrl, s)
           | Inr (written, buf) \<Rightarrow>
               (case rrl of
                  None \<Rightarrow> Some (Some (take written buf), None, None, s)
                | Some l \<Rightarrow>
                    (case rrl_Check l clientIP (out_name r) (out_rcode r) unixTime of
                       None \<Rightarrow> None
                     | Some (action, l) \<Rightarrow>
                         (case action of
                            ActionAllow \<Rightarrow> Some (Some (take written buf), None, Some l, s)
                          | ActionDrop \<Rightarrow> Some (None, None, Some l, s)
                          | ActionSlip \<Rightarrow>
                              (let (written, buf) = TruncateToSlip buf written in
                               Some (Some (take written buf), None, Some l, s)))))))"

text \<open>A connection: \<open>input\<close> is what the client sends before it closes its side, and the result is what is
  written to it.  Writes succeed; a panic is recovered and ends the connection.  Every request
  gets the buffer \<open>buf\<close> of the pool, whose contents do not matter to the caller.\<close>

function handleTCPConn ::
  "'p Env \<Rightarrow> ('s, 'e, 'p) Server \<Rightarrow> bytes \<Rightarrow> bytes \<Rightarrow> 's \<Rightarrow> bytes \<times> 's" where
  "handleTCPConn env srv buf input s =
     (if length input < 2 then ([], s)
      else
        (let len = get16 (take 2 input); rest = drop 2 input in
         if len = 0 then ([], s)
         else if length rest < unat len then ([], s)
         else
           (case srv_resolve env srv (take (unat len) rest) buf MaxTCPSize s of
              None \<Rightarrow> ([], s)
            | Some (r, s) \<Rightarrow>
                (case out r of
                   Inl err \<Rightarrow> handleTCPConn env srv buf (drop (unat len) rest) s
                 | Inr (written, resp) \<Rightarrow>
                     if written > 65535 then ([], s)
                     else
                       (let (output, s) = handleTCPConn env srv buf (drop (unat len) rest) s in
                        (put16 (word_of_nat written) @ take written resp @ output, s))))))"
  by pat_completeness auto
termination by (relation "measure (\<lambda>(env, srv, buf, input, s). length input)") auto

declare handleTCPConn.simps [simp del]

text \<open>The bytes \<open>recordTCPIn\<close> adds to the counter for a request: the sum is formed in 16 bits.\<close>

definition recordTCPIn :: "u16 \<Rightarrow> u64" where
  "recordTCPIn len = ucast (len + 2)"

definition recordTCPOut :: "nat \<Rightarrow> u64" where
  "recordTCPOut written = word_of_nat (written + 2)"

definition ResolveWireTo :: "'p Env \<Rightarrow> ('s, 'e, 'p) Server \<Rightarrow> bytes \<Rightarrow> bytes \<Rightarrow> 's \<Rightarrow> ((server_error + bytes) \<times> 's) option" where
  "ResolveWireTo env srv req buf s =
     (case srv_resolve env srv req buf MaxTCPSize s of
        None \<Rightarrow> None
      | Some (r, s) \<Rightarrow>
          Some (case out r of Inl err \<Rightarrow> Inl err | Inr (written, resp) \<Rightarrow> Inr (take written resp), s))"

section \<open>What a passed signature check means\<close>

text \<open>The request carries a signature record whose key is in the ring, whose algorithm is that of the
  key, whose time is within its window, and whose code is the keyed hash of the stripped message
  and the record's own fields.\<close>

definition authentic :: "'p Env \<Rightarrow> KeyRing \<Rightarrow> bytes \<Rightarrow> bool" where
  "authentic env ring q \<longleftrightarrow>
     (\<exists>rec wire k h. Extract (env_lower env) q = Inr (Some rec, wire) \<and>
        ring_Key (env_lower env) ring (tr_Name rec) = Some k \<and>
        CanonicalAlgorithm (env_lower env) (tk_Algorithm k) = tr_Algorithm rec \<and>
        newHasher (env_lower env) (tr_Algorithm rec) = Inr h \<and>
        skew_of (clk_verify env) (TimeSigned rec) \<le> (if Fudge rec = 0 then 300 else ucast (Fudge rec)) \<and>
        MAC rec = env_hmac env h (Secret k)
          ((if OriginalID rec \<noteq> 0 then put16_at wire 0 (OriginalID rec) else wire) @
           writeTSIGVariables (env_lower env) (tr_Name rec) (tr_Algorithm rec) (TimeSigned rec) (Fudge rec)
             (tr_Error rec) (OtherData rec)))"

lemma Verify_error_code: "tsig_Verify hmac ul w rec k now = (c, Some e) \<Longrightarrow> c \<noteq> 0"
  by (auto simp: tsig_Verify_def Let_def split: if_splits sum.splits)

lemma Verify_passed:
  assumes "tsig_Verify hmac ul w rec k now = (c, None)"
  shows "CanonicalAlgorithm ul (tk_Algorithm k) = tr_Algorithm rec \<and>
    skew_of now (TimeSigned rec) \<le> (if Fudge rec = 0 then 300 else ucast (Fudge rec)) \<and>
    (\<exists>h. newHasher ul (tr_Algorithm rec) = Inr h \<and>
      MAC rec = hmac h (Secret k) ((if OriginalID rec \<noteq> 0 then put16_at w 0 (OriginalID rec) else w) @
        writeTSIGVariables ul (tr_Name rec) (tr_Algorithm rec) (TimeSigned rec) (Fudge rec) (tr_Error rec) (OtherData rec)))"
proof -
  let ?f = "if Fudge rec = 0 then 300 else ucast (Fudge rec) :: u64"
  note V = assms [unfolded tsig_Verify_def Let_def]
  have a: "CanonicalAlgorithm ul (tk_Algorithm k) = tr_Algorithm rec" and s: "\<not> skew_of now (TimeSigned rec) > ?f"
    using V by (simp_all split: if_split_asm)
  obtain h where h: "newHasher ul (tr_Algorithm rec) = Inr h"
    using V by (cases "newHasher ul (tr_Algorithm rec)") (simp_all split: if_split_asm)
  have "MAC rec = hmac h (Secret k) ((if OriginalID rec \<noteq> 0 then put16_at w 0 (OriginalID rec) else w) @
      writeTSIGVariables ul (tr_Name rec) (tr_Algorithm rec) (TimeSigned rec) (Fudge rec) (tr_Error rec) (OtherData rec))"
    using V unfolding h by (simp split: if_split_asm)
  with a s h show ?thesis by (auto simp: not_less)
qed

lemma authenticate_passed:
  assumes "authenticateTSIG env srv q = Inr auth" and "present auth" and "errCode auth = 0"
  shows "\<exists>ring. tsigKeys srv = Some ring \<and> authentic env ring q"
proof -
  from assms obtain rec w where x: "Extract (env_lower env) q = Inr (Some rec, w)"
    by (auto simp: authenticateTSIG_def res_bind_eq_Inr split: option.splits)
  note A = assms(1) [unfolded authenticateTSIG_def x res_bind_Inr prod.case option.case Let_def]
  obtain ring where r: "tsigKeys srv = Some ring" using A assms(3) by (cases "tsigKeys srv") auto
  obtain k where k: "ring_Key (env_lower env) ring (tr_Name rec) = Some k"
    using A assms(3) r by (cases "ring_Key (env_lower env) ring (tr_Name rec)") auto
  obtain c e where v: "tsig_Verify (env_hmac env) (env_lower env) w rec k (clk_verify env) = (c, e)" by fastforce
  have "e = None"
  proof (rule ccontr)
    assume "e \<noteq> None"
    then obtain e' where "e = Some e'" by blast
    with A r k v assms(3) Verify_error_code [of "env_hmac env" "env_lower env" w rec k "clk_verify env" c e']
    show False by auto
  qed
  with Verify_passed [of "env_hmac env" "env_lower env" w rec k "clk_verify env" c] v x k r
  show ?thesis unfolding authentic_def by blast
qed

lemma SignResult_total: "\<exists>res'. SignResult ul C mgr q t res now = Some res'"
proof (cases mgr)
  case (Some m)
  have "\<exists>ks. findMatchingKeys ul m (canonicalZone ul q) = Some ks"
    by (simp add: findMatchingKeys_def keys_loop_closest)
  with Some show ?thesis by (auto simp: SignResult_def Let_def split: list.splits)
qed (simp add: SignResult_def)

lemma srv_resolve_dispatch:
  assumes "authenticateTSIG env srv q = Inr auth"
    and "Message_Unpack empty_message (auth_payload auth) = (None, msg)"
    and "\<not> IsResponse (msg_Header msg)" and "Questions msg = qu # qs"
    and "dispatch env srv auth msg qu s = Some (Inr res, s')"
  shows "srv_resolve env srv q buf sz s = Some (pack_result env auth msg (q_Name qu) buf sz res, s')"
  using assms by (simp add: srv_resolve_def)

section \<open>The data behind the server\<close>

text \<open>What the server relies on: a query returns, keeps the invariant and does not change what is stored,
  and writes keep the invariant, whether they fail or not.\<close>

locale backend =
  fixes res :: "'s \<Rightarrow> string \<Rightarrow> dns_type \<Rightarrow> (Result \<times> 's) option"
    and get :: "'s \<Rightarrow> string \<Rightarrow> RRSets option"
    and upsert :: "'s \<Rightarrow> string \<Rightarrow> RRSets \<Rightarrow> 'e option \<times> 's"
    and delete :: "'s \<Rightarrow> string \<Rightarrow> 'e option \<times> 's"
    and ok :: "'s \<Rightarrow> bool"
  assumes res_returns: "ok s \<Longrightarrow> \<exists>r s'. res s d t = Some (r, s') \<and> ok s' \<and> get s' = get s"
    and upsert_ok: "ok s \<Longrightarrow> upsert s d rs = (e, s') \<Longrightarrow> ok s'"
    and delete_ok: "ok s \<Longrightarrow> delete s d = (e, s') \<Longrightarrow> ok s'"

text \<open>A server on such data, which may lack the ability to look up or to write.\<close>

definition serves ::
  "('s, 'e, 'p) Server \<Rightarrow> ('s \<Rightarrow> string \<Rightarrow> dns_type \<Rightarrow> (Result \<times> 's) option) \<Rightarrow> ('s \<Rightarrow> string \<Rightarrow> RRSets option) \<Rightarrow>
   ('s \<Rightarrow> string \<Rightarrow> RRSets \<Rightarrow> 'e option \<times> 's) \<Rightarrow> ('s \<Rightarrow> string \<Rightarrow> 'e option \<times> 's) \<Rightarrow> bool" where
  "serves srv res get upsert delete \<longleftrightarrow>
     srv_res srv = res \<and> getter srv \<in> {None, Some get} \<and> upsertDeleter srv \<in> {None, Some (upsert, delete)}"

text \<open>The operation the message asks for reaches the update code.\<close>

definition reaches_update :: "tsigAuthResult \<Rightarrow> Message \<Rightarrow> bool" where
  "reaches_update auth msg \<longleftrightarrow>
     present auth \<and> errCode auth = 0 \<and> Header_Opcode (msg_Header msg) = OpcodeUpdate"

context backend
begin

lemma write_domains_ok: "ok s \<Longrightarrow> write_domains upsert delete states ds s = (e, s') \<Longrightarrow> ok s'"
proof (induction ds arbitrary: s)
  case (Cons d ds)
  let ?w = "if final_state states d = [] then delete s d else upsert s d (final_state states d)"
  obtain e1 s1 where w: "?w = (e1, s1)" by (cases ?w)
  have "ok s1"
  proof (cases "final_state states d = []")
    case True
    with w Cons.prems(1) show ?thesis by (simp add: delete_ok [of s d e1])
  next
    case False
    with w Cons.prems(1) show ?thesis by (simp add: upsert_ok [of s d "final_state states d" e1])
  qed
  note p = Cons.prems(2) [unfolded write_domains.simps Let_def w prod.case]
  show ?case
  proof (cases e1)
    case None
    with p Cons.IH [OF \<open>ok s1\<close>] show ?thesis by simp
  next
    case (Some x)
    with p \<open>ok s1\<close> show ?thesis by simp
  qed
qed simp

lemma applyUpdates_ok: "ok s \<Longrightarrow> applyUpdates get upsert delete order ups s = (e, s') \<Longrightarrow> ok s'"
  using write_domains_ok by (simp add: applyUpdates_def split: prod.splits)

lemma Process_ok:
  assumes "ok s" and "Process ul get upsert delete order wire s = ((rc, e), s')"
  shows "ok s'"
  using assms(2)
proof (cases rule: Process_cases)
  case (failed updates e')
  then show ?thesis using applyUpdates_ok [OF assms(1)] by blast
next
  case (applied updates)
  then show ?thesis using applyUpdates_ok [OF assms(1)] by blast
qed (use assms(1) in simp)

lemma handleUpdate_ok:
  assumes "ok s" and "serves srv res get upsert delete" and "handleUpdate env srv wire t c s = (r, s')"
  shows "ok s' \<and> (\<not> (t \<and> c = 0 \<and> canUpdate srv) \<longrightarrow> s' = s)"
proof (cases "getter srv = Some get \<and> upsertDeleter srv = Some (upsert, delete) \<and> canUpdate srv \<and> t \<and> c = 0")
  case True
  obtain rc e s1 where P: "Process (env_lower env) get upsert delete (env_order env) wire s = ((rc, e), s1)"
    by (metis prod.exhaust)
  have "s' = s1" using True assms(3) P by (cases e) (auto simp: handleUpdate_def)
  with Process_ok [OF assms(1) P] True show ?thesis by simp
next
  case False
  then have "s' = s" using assms(2,3) by (auto simp: handleUpdate_def serves_def split: if_splits)
  with assms(1) show ?thesis by simp
qed

lemma handleQuery_ok:
  assumes "ok s" and "serves srv res get upsert delete"
  shows "\<exists>r s'. handleQuery env srv n t c do s = Some (r, s') \<and> ok s' \<and> get s' = get s"
proof -
  obtain r s' where r: "res s n t = Some (r, s')" "ok s'" "get s' = get s" using res_returns [OF assms(1)] by blast
  obtain r' where "signDNSSEC env srv n t r = Some r'" unfolding signDNSSEC_def using SignResult_total by blast
  with r assms show ?thesis by (auto simp: handleQuery_def serves_def)
qed

lemma dispatch_ok:
  assumes "ok s" and "serves srv res get upsert delete"
  shows "\<exists>r s'. dispatch env srv auth msg q s = Some (r, s') \<and> ok s' \<and>
    (\<not> (reaches_update auth msg \<and> canUpdate srv) \<longrightarrow> get s' = get s)"
proof -
  let ?op = "Header_Opcode (msg_Header msg)"
  consider "present auth \<and> errCode auth \<noteq> 0" | "\<not> (present auth \<and> errCode auth \<noteq> 0)" "?op = OpcodeQuery"
    | "\<not> (present auth \<and> errCode auth \<noteq> 0)" "?op = OpcodeUpdate"
    | "\<not> (present auth \<and> errCode auth \<noteq> 0)" "?op \<noteq> OpcodeQuery" "?op \<noteq> OpcodeUpdate" by blast
  then show ?thesis
  proof cases
    case 2
    obtain r s' where "handleQuery env srv (q_Name q) (q_Type q) (q_Class q) (DO msg) s = Some (r, s')"
      "ok s'" "get s' = get s" using handleQuery_ok [OF assms] by blast
    with 2 show ?thesis by (auto simp: dispatch_def)
  next
    case 3
    obtain r s' where h: "handleUpdate env srv (auth_payload auth) (present auth) (errCode auth) s = (r, s')" by fastforce
    with 3 handleUpdate_ok [OF assms h] show ?thesis by (auto simp: dispatch_def reaches_update_def)
  qed (use assms in \<open>auto simp: dispatch_def\<close>)
qed

lemma resolve_ok:
  assumes "ok s" and "serves srv res get upsert delete"
  shows "\<exists>r s'. srv_resolve env srv q buf sz s = Some (r, s') \<and> ok s' \<and>
    (get s' \<noteq> get s \<longrightarrow> canUpdate srv \<and> (\<exists>auth msg. authenticateTSIG env srv q = Inr auth \<and>
      Message_Unpack empty_message (auth_payload auth) = (None, msg) \<and> reaches_update auth msg))"
proof (cases "authenticateTSIG env srv q")
  case (Inl e)
  with assms show ?thesis by (simp add: srv_resolve_def)
next
  case (Inr auth)
  obtain e msg where u: "Message_Unpack empty_message (auth_payload auth) = (e, msg)" by fastforce
  show ?thesis
  proof (cases "e = None \<and> \<not> IsResponse (msg_Header msg) \<and> Questions msg \<noteq> []")
    case False
    with Inr u assms show ?thesis by (cases e) (auto simp: srv_resolve_def split: list.splits)
  next
    case True
    then obtain qu qs where qs: "Questions msg = qu # qs" by (auto simp: neq_Nil_conv)
    from dispatch_ok [OF assms, of env auth msg qu] obtain r s' where
      d: "dispatch env srv auth msg qu s = Some (r, s')" "ok s'"
      "\<not> (reaches_update auth msg \<and> canUpdate srv) \<longrightarrow> get s' = get s" by blast
    with Inr u True qs show ?thesis by (cases r) (auto simp: srv_resolve_def)
  qed
qed

lemma changed_authentic:
  assumes "ok s" and "serves srv res get upsert delete"
    and "srv_resolve env srv q buf sz s = Some (r, s')" and "get s' \<noteq> get s"
  shows "\<exists>ring. tsigKeys srv = Some ring \<and> authentic env ring q"
  using resolve_ok [OF assms(1,2), of env q buf sz] assms(3,4) authenticate_passed
  by (auto simp: reaches_update_def)

end

text \<open>The zone state as the data of the server, with the updates applied to its tree.\<close>

abbreviation zone_Upsert :: "State \<Rightarrow> string \<Rightarrow> RRSets \<Rightarrow> unit option \<times> State" where
  "zone_Upsert \<equiv> \<lambda>s d rs. (None, Update s (\<lambda>t. radix_Upsert t d rs))"

abbreviation zone_Delete :: "State \<Rightarrow> string \<Rightarrow> unit option \<times> State" where
  "zone_Delete \<equiv> \<lambda>s d. (None, Update s (\<lambda>t. radix_DeleteDomain t d))"

abbreviation zone_Resolve :: "int \<Rightarrow> int \<Rightarrow> State \<Rightarrow> string \<Rightarrow> dns_type \<Rightarrow> (Result \<times> State) option" where
  "zone_Resolve now now' \<equiv> \<lambda>s d t. state_Resolve s d t now now'"

interpretation zs: backend "zone_Resolve now now'" state_Get zone_Upsert zone_Delete state_ok for now now'
proof
  fix s d t assume "state_ok s"
  from state_Resolve_ok [OF this, of d t now now'] show
    "\<exists>r s'. state_Resolve s d t now now' = Some (r, s') \<and> state_ok s' \<and> state_Get s' = state_Get s"
    by (auto simp: state_Get_def fun_eq_iff)
next
  fix s s' d rs and e :: "unit option" assume "state_ok s" and u: "(None, Update s (\<lambda>t. radix_Upsert t d rs)) = (e, s')"
  then have "tree_inv (radix_Upsert (st_tree s) d rs)" by (simp add: state_ok_def rt.invar_upsert)
  from state_ok_write [OF \<open>state_ok s\<close> this] u show "state_ok s'" by (simp add: Update_def)
next
  fix s s' d and e :: "unit option" assume "state_ok s" and u: "(None, Update s (\<lambda>t. radix_DeleteDomain t d)) = (e, s')"
  then have "tree_inv (radix_DeleteDomain (st_tree s) d)" by (simp add: state_ok_def rt.invar_delete)
  from state_ok_write [OF \<open>state_ok s\<close> this] u show "state_ok s'" by (simp add: Update_def)
qed

section \<open>Sizes\<close>

lemma PackResponse_size:
  assumes "PackResponse m buf res maxSize = Inr (n, resp)"
  shows "n \<le> length buf \<and> int n \<le> maxSize \<and> length resp = length buf"
proof -
  from assms obtain w w1 w5 an ns ar where
    w: "newPacketWriter buf maxSize = Inr w" and
    k1: "keeps (writeHeader w (ID (msg_Header m)) (response_flags m res) (word_of_nat (length (Questions m)))) w1" and
    k5: "keeps w1 w5" and n: "n = w_offset w5" and
    resp: "resp = w_buf (updateCounts w5 an ns ar) @ drop (length (w_buf w5)) buf"
    by (rule PackResponse_stages)
  note nw = newPacketWriter_ok [OF w]
  note h = writeHeader_bytes [OF nw [THEN conjunct1]]
  have len: "length (w_buf w5) = length (w_buf w)" "n \<le> length (w_buf w)"
    using keepsD(1-4) [OF keeps_trans [OF k1 k5]] h n by simp_all
  then have "12 \<le> length (w_buf w5)" using nw by simp
  from updateCounts_bytes(1) [OF this, of an ns ar] show ?thesis using resp len nw by auto
qed

lemma tsig_Sign_size:
  assumes "tsig_Sign hmac ul buf L reqMAC key e now = Inr (n, buf')"
  shows "n \<le> length buf \<and> length buf' = length buf"
proof -
  from assms obtain h where h: "newHasher ul (CanonicalAlgorithm ul (tk_Algorithm key)) = Inr h"
    by (auto simp: tsig_Sign_def res_bind_eq_Inr Let_def)
  show ?thesis
    using assms unfolding tsig_Sign_def Let_def h res_bind_Inr by (auto split: if_split_asm)
qed

lemma sign_response_size:
  assumes "sign_response env auth w resp = (w', resp')" and "w \<le> length resp"
  shows "w' \<le> length resp \<and> length resp' = length resp"
  using assms tsig_Sign_size
  by (auto simp: sign_response_def split: option.splits sum.splits if_splits)

lemma pack_result_size:
  assumes "out (pack_result env auth msg n buf sz res) = Inr (w, resp)"
  shows "w \<le> length buf \<and> length resp = length buf"
proof -
  obtain w0 b0 where p: "PackResponse msg buf res (MaxPayloadSize sz (int (EDNS0Size msg))) = Inr (w0, b0)"
    and s: "sign_response env auth w0 b0 = (w, resp)"
    using assms by (auto simp: pack_result_def Let_def split: sum.splits if_splits)
  from sign_response_size [OF s] PackResponse_size [OF p] show ?thesis by simp
qed

lemma srv_resolve_size:
  assumes "srv_resolve env srv q buf sz s = Some (r, s')" and "out r = Inr (w, resp)"
  shows "w \<le> length buf \<and> length resp = length buf"
  using assms
  by (auto simp: srv_resolve_def handleMultipleOPT_def dest!: pack_result_size PackResponse_size
      split: sum.splits prod.splits option.splits if_splits list.splits)

section \<open>A connection\<close>

definition tcp_frame :: "bytes \<Rightarrow> bytes" where
  "tcp_frame b = put16 (word_of_nat (length b)) @ b"

text \<open>The requests answered one after the other; a request with an error has no answer.\<close>

fun serve_all ::
  "'p Env \<Rightarrow> ('s, 'e, 'p) Server \<Rightarrow> bytes \<Rightarrow> bytes list \<Rightarrow> 's \<Rightarrow> (bytes list \<times> 's) option" where
  "serve_all env srv buf [] s = Some ([], s)"
| "serve_all env srv buf (q # qs) s =
     (case srv_resolve env srv q buf MaxTCPSize s of
        None \<Rightarrow> None
      | Some (r, s) \<Rightarrow>
          (case serve_all env srv buf qs s of
             None \<Rightarrow> None
           | Some (rs, s) \<Rightarrow> Some (case out r of Inl _ \<Rightarrow> rs | Inr (w, resp) \<Rightarrow> take w resp # rs, s)))"

lemma handleTCPConn_frame:
  assumes "q \<noteq> []" and "length q \<le> 65535" and "length buf \<le> 65535"
    and r: "srv_resolve env srv q buf MaxTCPSize s = Some (r, s1)"
    and rest: "handleTCPConn env srv buf rest s1 = (outp, s2)"
  shows "handleTCPConn env srv buf (tcp_frame q @ rest) s =
    (case out r of Inl _ \<Rightarrow> (outp, s2) | Inr (w, resp) \<Rightarrow> (tcp_frame (take w resp) @ outp, s2))"
proof -
  let ?i = "tcp_frame q @ rest"
  have u: "unat (word_of_nat (length q) :: u16) = length q" using assms(2) by (simp add: unat_of_nat)
  then have nz: "(word_of_nat (length q) :: u16) \<noteq> 0" using assms(1) by (metis length_0_conv unsigned_0)
  have i: "take 2 ?i = put16 (word_of_nat (length q))" "drop 2 ?i = q @ rest" "\<not> length ?i < 2"
    by (simp_all add: tcp_frame_def)
  have d: "drop (length q) (q @ rest) = rest" by simp
  have step: "handleTCPConn env srv buf ?i s =
      (case out r of
         Inl err \<Rightarrow> handleTCPConn env srv buf rest s1
       | Inr (written, resp) \<Rightarrow>
           if written > 65535 then ([], s1)
           else (let (output, s) = handleTCPConn env srv buf rest s1 in
             (put16 (word_of_nat written) @ take written resp @ output, s)))"
    unfolding handleTCPConn.simps [of env srv buf ?i s] i(1,2) Let_def get16_put16 u d
    using nz i(3) r by simp
  show ?thesis
  proof (cases "out r")
    case (Inr x)
    obtain w resp where x: "x = (w, resp)" by (cases x)
    with srv_resolve_size [OF r] Inr have "w \<le> length resp" "w \<le> 65535" using assms(3) by auto
    with Inr x rest step show ?thesis by (simp add: tcp_frame_def min_def)
  qed (use rest step in simp)
qed

section \<open>A sample server\<close>

definition sample_env :: "byte Env" where
  "sample_env = \<lparr>env_lower = id, env_hmac = toy_hmac, env_crypto = toy_crypto, env_order = (\<lambda>ds. ds),
     clk_verify = 1200, clk_dnssec = 1200, clk_sign = 1200\<rparr>"

definition sample_server :: "(State, unit, byte) Server" where
  "sample_server = \<lparr>srv_res = zone_Resolve 0 0, getter = Some state_Get, upsertDeleter = Some (zone_Upsert, zone_Delete),
     tsigKeys = Some (ring_Add id NewKeyRing toy_tsig_key), dnssecMgr = None,
     versionWire = [[1, 118]], identityWire = [[1, 105]], authorsWire = [[1, 97]]\<rparr>"

definition sample_state :: State where
  "sample_state = Update (state_New (\<lambda>_. 0) 16) (\<lambda>t. radix_Upsert t ''a'' [a_set])"

lemma sample_serves: "serves sample_server (zone_Resolve 0 0) state_Get zone_Upsert zone_Delete"
  by (simp add: serves_def sample_server_def)

lemma sample_state_ok: "state_ok sample_state"
proof -
  have "tree_inv (radix_Upsert radix_New ''a'' [a_set])" by (intro rt.invar_upsert tree_inv_New)
  then show ?thesis
    using state_ok_write [OF state_ok_New [of "\<lambda>_. 0" 16]] unfolding sample_state_def Update_def
    by (simp add: state_New_def Let_def)
qed

lemma sample_state_a: "state_Get sample_state ''a.'' = Some [a_set]"
proof -
  have "st_tree sample_state = radix_Upsert radix_New ''a'' [a_set]"
    by (simp add: sample_state_def Update_def state_New_def Let_def)
  moreover have "tree_inv (radix_Upsert radix_New ''a'' [a_set])" by (intro rt.invar_upsert tree_inv_New)
  ultimately show ?thesis
    using apex_parsed(8) by (simp add: state_Get_def rt.get_cont rt.cont_upsert tree_inv_New)
qed

text \<open>The key as the ring holds it.\<close>

abbreviation ring_key :: tsig_key where
  "ring_key \<equiv> \<lparr>tk_Name = ''key.'', tk_Algorithm = HMACSHA256, Secret = [1, 2, 3]\<rparr>"

lemma ring_key_names:
  "CanonicalName id ''key.'' = ''key'' @ ''.''" "CanonicalAlgorithm id HMACSHA256 = HMACSHA256"
  "ring_Key id (ring_Add id NewKeyRing toy_tsig_key) ''key.'' = Some ring_key"
proof -
  have h: "list_all host_char ''key.''" "lower_ascii ''key.'' = ''key.''" by code_simp+
  show n: "CanonicalName id ''key.'' = ''key'' @ ''.''"
    unfolding CanonicalName_def TrimSpace_host [OF h(1)] ToLower_host [OF h(1)] h(2) by code_simp
  show "CanonicalAlgorithm id HMACSHA256 = HMACSHA256" by (subst algorithm_host; code_simp)
  have "CanonicalAlgorithm id ''hmac-sha256'' = HMACSHA256" by (subst algorithm_host; code_simp)
  then show "ring_Key id (ring_Add id NewKeyRing toy_tsig_key) ''key.'' = Some ring_key"
    using n toy_tsig(1) by (simp add: ring_Key_def ring_Add_def NewKeyRing_def toy_tsig_key_def Let_def)
qed

text \<open>The update of the sample message, signed.\<close>

lemma apex_sections:
  assumes "P = put16_at apex_packet 10 1 @ rr"
  shows "skipMessageSections P (get16 (sub_slice P 4 6)) (get16 (sub_slice P 6 8))
    (get16 (sub_slice P 8 10)) (get16 (sub_slice P 10 12)) = Inr 32"
proof -
  let ?h = "[0, 1, 0x28, 0, 0, 1, 0, 0, 0, 1, 0, 1] :: bytes"
    and ?z = "[0, 6, 0, 1] :: bytes" and ?u = "[0, 255, 0, 255, 0, 0, 0, 0, 0, 0] :: bytes"
  have "put16_at apex_packet 10 1 = ?h @ [1, 97, 0] @ ?z @ [1, 97, 0] @ ?u" by code_simp
  then have P: "P = ?h @ EncodeDomainName id ''a'' @ ?z @ EncodeDomainName id ''a'' @ ?u @ rr"
    using assms by (simp add: encoded_a)
  have "UnpackDomainName P 12 = Inr (''a'', 15)"
    using Unpack_Encode_normal [OF normal_a, of ?h id "?z @ EncodeDomainName id ''a'' @ ?u @ rr"]
    unfolding P by (simp add: eval_nat_numeral)
  moreover have "UnpackDomainName P 19 = Inr (''a'', 22)"
    using Unpack_Encode_normal [OF normal_a, of "?h @ EncodeDomainName id ''a'' @ ?z" id "?u @ rr"]
    unfolding P by (simp add: encoded_a eval_nat_numeral)
  moreover have "get16 (sub_slice P 4 6) = 1" "get16 (sub_slice P 6 8) = 0" "get16 (sub_slice P 8 10) = 1"
    "get16 (sub_slice P 10 12) = 1" "get16 (sub_slice P 30 32) = 0" "32 \<le> length P"
    unfolding P encoded_a by (simp_all add: sub_slice_def)
  ultimately show ?thesis by (simp add: skipMessageSections_def Let_def)
qed

lemma signed_apex:
  "\<exists>q rec. Extract id q = Inr (Some rec, apex_packet) \<and> tr_Name rec = ''key.'' \<and>
     tsig_Verify toy_hmac id apex_packet rec ring_key 1200 = (0, None)"
proof -
  define buf where "buf = apex_packet @ replicate 700 0"
  have mac: "length (toy_hmac a s x) \<le> 64" for a s x by simp
  have n: "CanonicalName id (tk_Name ring_key) = ''key'' @ ''.''" "normal_name ''key''"
    "CanonicalAlgorithm id (tk_Algorithm ring_key) \<in> supported"
    using ring_key_names toy_tsig(2) by (simp_all add: supported_def)
  have len: "32 + 700 \<le> length buf" by (simp add: buf_def apex_parsed(1))
  obtain m buf' where s: "tsig_Sign toy_hmac id buf 32 [] ring_key 0 1000 = Inr (m, buf')"
    using Sign_succeeds [where hmac = toy_hmac, OF n mac len] by blast
  have t: "take 32 buf = apex_packet" by (simp add: buf_def apex_parsed(1))
  have c: "get16 (sub_slice buf 10 12) = 0" by (simp add: buf_def apex_packet_def sub_slice_def)
  obtain rr where "take m buf' = put16_at apex_packet 10 1 @ rr"
    using Sign_shape [OF s] by (auto simp: t c)
  note sections = apex_sections [OF this]
  from signed_accepted [OF s _ n mac _ _ _ _ _ sections, of 1200] obtain rec where
    r: "Extract id (take m buf') = Inr (Some rec, apex_packet)"
    "tsig_Verify toy_hmac id apex_packet rec ring_key 1200 = (0, None)" by (auto simp: t c)
  then have "tr_Name rec = ''key.''" using n(1) by (auto simp: tsig_Verify_def split: if_splits)
  with r show ?thesis by blast
qed

section \<open>Properties\<close>

text \<open>C8: records change only for an authenticated request.  Whatever bytes arrive, if serving them changes
  what any name holds, then the server has a key ring and the request carries a signature of a
  key in it: with the algorithm of that key, a time within the window, and a code equal to the
  keyed hash of the message it was found in.  (The clocks of the cache are \<open>now\<close> and \<open>now'\<close>.)\<close>

theorem update_needs_signature:
  assumes "state_ok s" and "serves srv (zone_Resolve now now') state_Get zone_Upsert zone_Delete"
    and "srv_resolve env srv q buf sz s = Some (r, s')" and "state_Get s' \<noteq> state_Get s"
  shows "\<exists>ring. tsigKeys srv = Some ring \<and> authentic env ring q"
  using assms by (rule zs.changed_authentic)

text \<open>C17: requests on a connection are answered one by one and in order.  When the client sends any
  number of requests of 1 to 65535 bytes, each after its length, the server reads all of them,
  and what it writes is exactly the responses, each after its length, that the requests get when
  served one after the other; a request that is dropped leaves nothing in between.  Nothing
  panics, and the state stays sound.\<close>

theorem tcp_pipelined:
  assumes "state_ok s" and "serves srv (zone_Resolve now now') state_Get zone_Upsert zone_Delete"
    and "list_all (\<lambda>q. q \<noteq> [] \<and> length q \<le> 65535) reqs" and "length buf \<le> 65535"
  shows "\<exists>resps s'. serve_all env srv buf reqs s = Some (resps, s') \<and> state_ok s' \<and>
    handleTCPConn env srv buf (concat (map tcp_frame reqs)) s = (concat (map tcp_frame resps), s')"
  using assms(1,3)
proof (induction reqs arbitrary: s)
  case Nil
  then show ?case by (simp add: handleTCPConn.simps [of _ _ _ "[]"])
next
  case (Cons q reqs)
  from zs.resolve_ok [OF Cons.prems(1) assms(2), of env q buf MaxTCPSize] obtain r s1 where
    r: "srv_resolve env srv q buf MaxTCPSize s = Some (r, s1)" "state_ok s1" by blast
  from Cons.IH [OF r(2)] Cons.prems(2) obtain resps s' where
    rest: "serve_all env srv buf reqs s1 = Some (resps, s')" "state_ok s'"
    "handleTCPConn env srv buf (concat (map tcp_frame reqs)) s1 = (concat (map tcp_frame resps), s')" by auto
  have "q \<noteq> []" "length q \<le> 65535" using Cons.prems(2) by simp_all
  from handleTCPConn_frame [OF this assms(4) r(1) rest(3)] r(1) rest show ?case
    by (auto split: sum.splits)
qed

text \<open>C9: a query is answered with what the tree holds.  For a request that is not refused for its
  signature, asks a standard query of the Internet class and does not ask for DNSSEC, the
  response is the packed (and, if it was signed, signed) result of \<open>Resolve\<close> on the tree for its
  first question, whatever the cache held, and the tree stays as it was.\<close>

theorem query_answered_from_tree:
  assumes "state_ok s" and "serves srv (zone_Resolve now now') state_Get zone_Upsert zone_Delete"
    and "authenticateTSIG env srv q = Inr auth" and "\<not> (present auth \<and> errCode auth \<noteq> 0)"
    and "Message_Unpack empty_message (auth_payload auth) = (None, msg)" and "Questions msg = qu # qs"
    and "\<not> IsResponse (msg_Header msg)" and "Header_Opcode (msg_Header msg) = OpcodeQuery"
    and "q_Class qu \<noteq> ClassCH" and "\<not> DO msg"
  shows "\<exists>s'. srv_resolve env srv q buf sz s =
      Some (pack_result env auth msg (q_Name qu) buf sz (radix_Resolve (st_tree s) (q_Name qu) (q_Type qu)), s') \<and>
    st_tree s' = st_tree s \<and> state_ok s'"
proof -
  from state_Resolve_ok [OF assms(1), of "q_Name qu" "q_Type qu" now now'] obtain s' where
    s': "state_Resolve s (q_Name qu) (q_Type qu) now now' = Some (radix_Resolve (st_tree s) (q_Name qu) (q_Type qu), s')"
    "st_tree s' = st_tree s" "state_ok s'" by blast
  have "handleQuery env srv (q_Name qu) (q_Type qu) (q_Class qu) (DO msg) s =
      Some (radix_Resolve (st_tree s) (q_Name qu) (q_Type qu), s')"
    using assms(2,9,10) s'(1) by (simp add: handleQuery_def serves_def)
  then have "dispatch env srv auth msg qu s = Some (Inr (radix_Resolve (st_tree s) (q_Name qu) (q_Type qu)), s')"
    using assms(4,8) by (auto simp: dispatch_def)
  from srv_resolve_dispatch [OF assms(3,5,7,6) this] s' show ?thesis by blast
qed

theorem update_needs_signature_witness:
  "\<exists>q r s'. srv_resolve sample_env sample_server q (replicate 512 0) MaxUDPSize sample_state = Some (r, s') \<and>
     state_Get s' ''a.'' = None \<and> state_Get sample_state ''a.'' \<noteq> None \<and>
     (\<exists>ring. tsigKeys sample_server = Some ring \<and> authentic sample_env ring q)"
proof -
  obtain q rec where q: "Extract id q = Inr (Some rec, apex_packet)" "tr_Name rec = ''key.''"
    "tsig_Verify toy_hmac id apex_packet rec ring_key 1200 = (0, None)" using signed_apex by blast
  let ?auth = "\<lparr>auth_rec = Some rec, auth_payload = apex_packet, auth_key = Some ring_key, errCode = 0,
    present = True, keyFound = True\<rparr>"
  have auth: "authenticateTSIG sample_env sample_server q = Inr ?auth"
    using q ring_key_names(3) by (simp add: authenticateTSIG_def sample_env_def sample_server_def Let_def)
  define m where "m = snd (Message_Unpack empty_message apex_packet)"
  let ?s = "Update sample_state (\<lambda>t. radix_DeleteDomain t ''a.'')"
  have "fst (Message_Unpack empty_message apex_packet) = None" by code_simp
  then have m: "Message_Unpack empty_message (auth_payload ?auth) = (None, m)" by (simp add: m_def prod_eq_iff)
  have h: "\<not> IsResponse (msg_Header m)" "Header_Opcode (msg_Header m) = OpcodeUpdate"
    "Questions m = [\<lparr>q_Name = ''a'', q_Type = TypeSOA, q_Class = ClassIN\<rparr>]" unfolding m_def by code_simp+
  have "Process id state_Get zone_Upsert zone_Delete (\<lambda>ds. ds) apex_packet sample_state = ((RCodeSuccess, None), ?s)"
    by (rule apex_processed_gen) (simp_all add: sample_state_a)
  then have d: "dispatch sample_env sample_server ?auth m \<lparr>q_Name = ''a'', q_Type = TypeSOA, q_Class = ClassIN\<rparr> sample_state =
      Some (Inr (no_Result\<lparr>RCode := RCodeSuccess\<rparr>), ?s)"
    using h(2) by (simp add: dispatch_def handleUpdate_def canUpdate_def sample_env_def sample_server_def)
  obtain r where r: "srv_resolve sample_env sample_server q (replicate 512 0) MaxUDPSize sample_state = Some (r, ?s)"
    using srv_resolve_dispatch [OF auth m h(1,3) d] by blast
  have t: "tree_inv (st_tree sample_state)" using sample_state_ok by (simp add: state_ok_def)
  then have "state_Get ?s ''a.'' = None"
    by (simp add: state_Get_def Update_def rt.get_cont rt.invar_delete rt.cont_delete)
  moreover from this have "state_Get ?s \<noteq> state_Get sample_state" using sample_state_a by (metis option.distinct(1))
  from update_needs_signature [OF sample_state_ok sample_serves r this]
  have "\<exists>ring. tsigKeys sample_server = Some ring \<and> authentic sample_env ring q" .
  ultimately show ?thesis using r sample_state_a by (metis option.distinct(1))
qed

theorem tcp_pipelined_witness:
  "\<exists>resps s'. serve_all sample_env sample_server (replicate 600 0) [sample_query, [7], sample_query] sample_state =
      Some (resps, s') \<and>
    handleTCPConn sample_env sample_server (replicate 600 0)
      (tcp_frame sample_query @ tcp_frame [7] @ tcp_frame sample_query) sample_state =
      (concat (map tcp_frame resps), s')"
proof -
  have "list_all (\<lambda>q. q \<noteq> [] \<and> length q \<le> 65535) [sample_query, [7], sample_query]"
    by (simp add: sample_query_def)
  from tcp_pipelined [OF sample_state_ok sample_serves this, of "replicate 600 0" sample_env] show ?thesis by auto
qed

theorem query_answered_from_tree_witness:
  "\<exists>auth msg s'. srv_resolve sample_env sample_server sample_query (replicate 600 0) MaxUDPSize sample_state =
      Some (pack_result sample_env auth msg ''com'' (replicate 600 0) MaxUDPSize
        (radix_Resolve (st_tree sample_state) ''com'' TypeA), s')"
proof -
  define m where "m = snd (Message_Unpack empty_message sample_query)"
  let ?auth = "\<lparr>auth_rec = None, auth_payload = sample_query, auth_key = None, errCode = 0,
    present = False, keyFound = False\<rparr> :: tsigAuthResult"
  have "Extract id sample_query = Inr (None, sample_query)" by (simp add: Extract_def sample_query_def sub_slice_def)
  then have auth: "authenticateTSIG sample_env sample_server sample_query = Inr ?auth"
    by (simp add: authenticateTSIG_def sample_env_def)
  have "fst (Message_Unpack empty_message sample_query) = None" by code_simp
  then have m: "Message_Unpack empty_message (auth_payload ?auth) = (None, m)" by (simp add: m_def prod_eq_iff)
  have h: "\<not> IsResponse (msg_Header m)" "Header_Opcode (msg_Header m) = OpcodeQuery" "\<not> DO m"
    "Questions m = [\<lparr>q_Name = ''com'', q_Type = TypeA, q_Class = ClassIN\<rparr>]" unfolding m_def by code_simp+
  from query_answered_from_tree [OF sample_state_ok sample_serves auth _ m h(4,1,2) _ h(3), of "replicate 600 0" MaxUDPSize]
  show ?thesis by auto
qed

end
