(* ===== verification/GoText.thy ===== *)
theory GoText
  imports Rrl
begin

text \<open>The text routines of Go's standard library that the presentation format of record data uses:
  \<open>strings.Fields\<close>, \<open>strings.SplitN\<close> at a space, \<open>strings.Trim\<close> of quotes, \<open>strconv.Quote\<close>,
  \<open>encoding/hex\<close>, the standard encoding of \<open>encoding/base64\<close>, \<open>netip.ParseAddr\<close> and
  \<open>netip.Addr.String\<close>, and \<open>time.Parse\<close> for the one layout the sources use.\<close>

section \<open>Splitting and trimming\<close>

text \<open>\<open>Fields\<close> cuts a string at every run of white space.  A white-space rune starts with an ASCII
  byte or a UTF-8 lead byte, so no match starts inside another rune.\<close>

definition space_at :: "string \<Rightarrow> nat option" where
  "space_at s = map_option length (find (\<lambda>w. w \<noteq> [] \<and> prefix w s) white_space)"

lemma space_at_pos [simp]: "space_at s = Some n \<Longrightarrow> 0 < n"
  unfolding space_at_def by (auto simp: find_Some_iff)

function fields_from :: "string \<Rightarrow> string \<Rightarrow> string list" where
  "fields_from field [] = (if field = [] then [] else [field])"
| "fields_from field (c # s) =
     (case space_at (c # s) of
        Some n \<Rightarrow> (if field = [] then [] else [field]) @ fields_from [] (drop n (c # s))
      | None \<Rightarrow> fields_from (field @ [c]) s)"
  by pat_completeness auto
termination
  by (relation "measure (\<lambda>(field, s). length s)") (auto dest: space_at_pos)

declare fields_from.simps(2) [simp del]

definition Fields :: "string \<Rightarrow> string list" where
  "Fields s = fields_from [] s"

text \<open>\<open>strings.SplitN(s, " ", 3)\<close>: at most three parts, the last one unsplit.\<close>

fun SplitN_space :: "nat \<Rightarrow> string \<Rightarrow> string list" where
  "SplitN_space 0 s = []"
| "SplitN_space (Suc 0) s = [s]"
| "SplitN_space (Suc (Suc n)) s =
     (case IndexByte s CHR '' '' of
        None \<Rightarrow> [s]
      | Some i \<Rightarrow> take i s # SplitN_space (Suc n) (drop (i + 1) s))"

definition Trim_quotes :: "string \<Rightarrow> string" where
  "Trim_quotes s = rev (dropWhile (\<lambda>c. c = CHR 0x22) (rev (dropWhile (\<lambda>c. c = CHR 0x22) s)))"

section \<open>Hexadecimal\<close>

definition hex_char :: "nat \<Rightarrow> char" where
  "hex_char n = (if n < 10 then char_of (48 + n) else char_of (87 + n))"

definition hex_byte :: "byte \<Rightarrow> string" where
  "hex_byte b = [hex_char (unat b div 16), hex_char (unat b mod 16)]"

definition hex_EncodeToString :: "bytes \<Rightarrow> string" where
  "hex_EncodeToString bs = concat (map hex_byte bs)"

definition hex_val :: "char \<Rightarrow> nat option" where
  "hex_val c =
     (let n = of_char c :: nat in
      if 48 \<le> n \<and> n \<le> 57 then Some (n - 48)
      else if 97 \<le> n \<and> n \<le> 102 then Some (n - 87)
      else if 65 \<le> n \<and> n \<le> 70 then Some (n - 55)
      else None)"

text \<open>An odd length and a character outside the alphabet are errors.\<close>

fun hex_DecodeString :: "string \<Rightarrow> bytes option" where
  "hex_DecodeString [] = Some []"
| "hex_DecodeString [c] = None"
| "hex_DecodeString (c # d # s) =
     (case (hex_val c, hex_val d, hex_DecodeString s) of
        (Some h, Some l, Some bs) \<Rightarrow> Some (word_of_nat (16 * h + l) # bs)
      | _ \<Rightarrow> None)"

section \<open>Base 64\<close>

definition b64_char :: "nat \<Rightarrow> char" where
  "b64_char n =
     (if n < 26 then char_of (65 + n)
      else if n < 52 then char_of (71 + n)
      else if n < 62 then char_of (n - 4)
      else if n = 62 then CHR ''+'' else CHR ''/'')"

definition b64_val :: "char \<Rightarrow> nat option" where
  "b64_val c =
     (let n = of_char c :: nat in
      if 65 \<le> n \<and> n \<le> 90 then Some (n - 65)
      else if 97 \<le> n \<and> n \<le> 122 then Some (n - 71)
      else if 48 \<le> n \<and> n \<le> 57 then Some (n + 4)
      else if n = 43 then Some 62
      else if n = 47 then Some 63
      else None)"

fun b64_EncodeToString :: "bytes \<Rightarrow> string" where
  "b64_EncodeToString [] = []"
| "b64_EncodeToString [a] =
     [b64_char (unat a div 4), b64_char (unat a mod 4 * 16), CHR ''='', CHR ''='']"
| "b64_EncodeToString [a, b] =
     [b64_char (unat a div 4), b64_char (unat a mod 4 * 16 + unat b div 16),
      b64_char (unat b mod 16 * 4), CHR ''='']"
| "b64_EncodeToString (a # b # c # bs) =
     [b64_char (unat a div 4), b64_char (unat a mod 4 * 16 + unat b div 16),
      b64_char (unat b mod 16 * 4 + unat c div 64), b64_char (unat c mod 64)]
     @ b64_EncodeToString bs"

text \<open>Decoding takes four characters at a time; padding may only end the last quantum, whose unused
  bits are ignored.  The decoder also skips line breaks, of which its inputs here have none: they
  are concatenated fields.\<close>

definition b64_quantum :: "nat \<Rightarrow> nat \<Rightarrow> nat \<Rightarrow> nat \<Rightarrow> bytes" where
  "b64_quantum p q r s =
     [word_of_nat (4 * p + q div 16), word_of_nat (q mod 16 * 16 + r div 4),
      word_of_nat (r mod 4 * 64 + s)]"

fun b64_DecodeString :: "string \<Rightarrow> bytes option" where
  "b64_DecodeString [] = Some []"
| "b64_DecodeString (p # q # r # s # cs) =
     (case (b64_val p, b64_val q) of
        (Some p', Some q') \<Rightarrow>
          if r = CHR ''='' then
            if s = CHR ''='' \<and> cs = [] then Some (take 1 (b64_quantum p' q' 0 0)) else None
          else (case b64_val r of
              None \<Rightarrow> None
            | Some r' \<Rightarrow>
                if s = CHR ''='' then
                  if cs = [] then Some (take 2 (b64_quantum p' q' r' 0)) else None
                else (case (b64_val s, b64_DecodeString cs) of
                    (Some s', Some bs) \<Rightarrow> Some (b64_quantum p' q' r' s' @ bs)
                  | _ \<Rightarrow> None))
      | _ \<Rightarrow> None)"
| "b64_DecodeString _ = None"

section \<open>Quoting\<close>

text \<open>\<open>strconv.Quote\<close> on ASCII text; runes beyond it are printed after the Unicode tables, which are
  the parameter \<open>uq\<close>.\<close>

definition quote_char :: "char \<Rightarrow> string" where
  "quote_char c =
     (let n = of_char c :: nat in
      if n = 34 \<or> n = 92 then [CHR 0x5C, c]
      else if 32 \<le> n \<and> n < 127 then [c]
      else if n = 7 then [CHR 0x5C, CHR ''a'']
      else if n = 8 then [CHR 0x5C, CHR ''b'']
      else if n = 12 then [CHR 0x5C, CHR ''f'']
      else if n = 10 then [CHR 0x5C, CHR ''n'']
      else if n = 13 then [CHR 0x5C, CHR ''r'']
      else if n = 9 then [CHR 0x5C, CHR ''t'']
      else if n = 11 then [CHR 0x5C, CHR ''v'']
      else [CHR 0x5C, CHR ''x'', hex_char (n div 16), hex_char (n mod 16)])"

definition Quote :: "(string \<Rightarrow> string) \<Rightarrow> string \<Rightarrow> string" where
  "Quote uq s =
     (if list_all is_ascii s then CHR 0x22 # concat (map quote_char s) @ [CHR 0x22] else uq s)"

section \<open>Network addresses\<close>

definition AddrFromSlice :: "bytes \<Rightarrow> Addr" where
  "AddrFromSlice bs =
     (if length bs = 4 then Addr4 (get32 bs)
      else if length bs = 16 then
        Addr6 (push_bit 32 (ucast (get32 (sub_slice bs 0 4))) OR ucast (get32 (sub_slice bs 4 8)))
              (push_bit 32 (ucast (get32 (sub_slice bs 8 12))) OR ucast (get32 (sub_slice bs 12 16)))
      else AddrInvalid)"

fun Addr_Is6 :: "Addr \<Rightarrow> bool" where
  "Addr_Is6 (Addr6 _ _) = True"
| "Addr_Is6 _ = False"

text \<open>Dotted decimal: four decimal octets without leading zeros.\<close>

definition parse_octet :: "string \<Rightarrow> byte option" where
  "parse_octet s =
     (if s = [] \<or> (hd s = CHR ''0'' \<and> length s > 1) then None
      else map_option word_of_nat (ParseUint s 8))"

definition parseIPv4Fields :: "string \<Rightarrow> bytes option" where
  "parseIPv4Fields s =
     (case map parse_octet (split_on CHR ''.'' s) of
        [Some a, Some b, Some c, Some d] \<Rightarrow> Some [a, b, c, d]
      | _ \<Rightarrow> None)"

text \<open>Colon-separated groups of at most four hexadecimal digits.  \<open>parse_groups\<close> is the loop over
  the groups: \<open>ip\<close> holds the bytes so far and \<open>ellipsis\<close> the position of a double colon; the loop
  returns both and what is left of the text.  An IPv4 address may replace the last two groups.\<close>

definition hex_group :: "string \<Rightarrow> string" where
  "hex_group s = takeWhile (\<lambda>c. hex_val c \<noteq> None) s"

definition hex_number :: "string \<Rightarrow> nat" where
  "hex_number s = foldl (\<lambda>n c. 16 * n + the (hex_val c)) 0 s"

function parse_groups :: "bytes \<Rightarrow> nat option \<Rightarrow> string \<Rightarrow> (bytes \<times> nat option \<times> string) option" where
  "parse_groups ip ellipsis s =
     (let digits = hex_group s; rest = drop (length digits) s;
          ip' = ip @ put16 (word_of_nat (hex_number digits)) in
      if length ip \<ge> 16 then Some (ip, ellipsis, s)
      else if digits = [] \<or> length digits > 4 then None
      else if rest \<noteq> [] \<and> hd rest = CHR ''.'' then
        if (ellipsis = None \<and> length ip \<noteq> 12) \<or> length ip + 4 > 16 then None
        else map_option (\<lambda>v4. (ip @ v4, ellipsis, [])) (parseIPv4Fields s)
      else if rest = [] then Some (ip', ellipsis, [])
      else if hd rest \<noteq> CHR '':'' \<or> length rest = 1 then None
      else if rest ! 1 = CHR '':'' then
        if ellipsis \<noteq> None then None
        else if length rest = 2 then Some (ip', Some (length ip'), [])
        else parse_groups ip' (Some (length ip')) (drop 2 rest)
      else parse_groups ip' ellipsis (drop 1 rest))"
  by pat_completeness auto
termination
  by (relation "measure (\<lambda>(ip, ellipsis, s). length s)") auto

declare parse_groups.simps [simp del]

text \<open>The zone behind a percent sign must not be empty and does not enter the sixteen bytes.\<close>

definition parseIPv6 :: "string \<Rightarrow> bytes option" where
  "parseIPv6 addr =
     (let s = (case IndexByte addr CHR ''%'' of None \<Rightarrow> addr | Some i \<Rightarrow> take i addr);
          leading = prefix ''::'' s in
      if IndexByte addr CHR ''%'' = Some (length addr - 1) then None
      else if leading \<and> length s = 2 then Some (replicate 16 0)
      else
        (case parse_groups [] (if leading then Some 0 else None) (if leading then drop 2 s else s) of
           None \<Rightarrow> None
         | Some (ip, ellipsis, rest) \<Rightarrow>
             if rest \<noteq> [] then None
             else
               (case ellipsis of
                  None \<Rightarrow> if length ip < 16 then None else Some ip
                | Some at \<Rightarrow>
                    if length ip < 16
                    then Some (take at ip @ replicate (16 - length ip) 0 @ drop at ip)
                    else None)))"

definition ParseAddr :: "string \<Rightarrow> Addr option" where
  "ParseAddr s =
     (case find (\<lambda>c. c = CHR ''.'' \<or> c = CHR '':'' \<or> c = CHR ''%'') s of
        Some CHR ''.'' \<Rightarrow> map_option AddrFromSlice (parseIPv4Fields s)
      | Some CHR '':'' \<Rightarrow> map_option AddrFromSlice (parseIPv6 s)
      | _ \<Rightarrow> None)"

definition addr4_String :: "bytes \<Rightarrow> string" where
  "addr4_String bs = join_with CHR ''.'' (map (\<lambda>b. FormatUint (unat b)) bs)"

fun FormatHex :: "nat \<Rightarrow> string" where
  "FormatHex n = (if n < 16 then [hex_char n] else FormatHex (n div 16) @ [hex_char (n mod 16)])"

declare FormatHex.simps [simp del]

definition addr_groups :: "bytes \<Rightarrow> u16 list" where
  "addr_groups bs = map (\<lambda>i. get16 (sub_slice bs (2 * i) (2 * i + 2))) [0..<8]"

text \<open>The longest run of at least two zero groups, the first among equals, is printed as a double
  colon.\<close>

definition zero_run :: "u16 list \<Rightarrow> nat \<Rightarrow> nat" where
  "zero_run gs i = length (takeWhile (\<lambda>g. g = 0) (drop i gs))"

definition longest_zeros :: "u16 list \<Rightarrow> (nat \<times> nat) option" where
  "longest_zeros gs =
     foldl (\<lambda>best i. let l = zero_run gs i in
              if l \<ge> 2 \<and> (case best of None \<Rightarrow> True | Some (from, to) \<Rightarrow> l > to - from)
              then Some (i, i + l) else best)
       None [0..<length gs]"

definition print_groups :: "u16 list \<Rightarrow> string" where
  "print_groups gs = join_with CHR '':'' (map (\<lambda>g. FormatHex (unat g)) gs)"

definition addr6_String :: "bytes \<Rightarrow> string" where
  "addr6_String bs =
     (let gs = addr_groups bs in
      case longest_zeros gs of
        None \<Rightarrow> print_groups gs
      | Some (from, to) \<Rightarrow> print_groups (take from gs) @ ''::'' @ print_groups (drop to gs))"

fun Addr_String :: "Addr \<Rightarrow> string" where
  "Addr_String AddrInvalid = ''invalid IP''"
| "Addr_String (Addr4 a) = addr4_String (put32 a)"
| "Addr_String (Addr6 hi lo) =
     (if Addr_Is4In6 (Addr6 hi lo) then ''::ffff:'' @ addr4_String (put32 (ucast lo))
      else addr6_String (put64 hi @ put64 lo))"

section \<open>Time stamps\<close>

text \<open>\<open>time.Parse("20060102150405", s)\<close> on a string of fourteen characters, and its Unix seconds:
  the fields must be digits in range, and the day must exist in its month.\<close>

definition leap_year :: "int \<Rightarrow> bool" where
  "leap_year y \<longleftrightarrow> y mod 4 = 0 \<and> (y mod 100 \<noteq> 0 \<or> y mod 400 = 0)"

definition days_in :: "int \<Rightarrow> int \<Rightarrow> int" where
  "days_in y m =
     (if m = 2 then (if leap_year y then 29 else 28)
      else if m \<in> {4, 6, 9, 11} then 30 else 31)"

text \<open>Days from the first of January of the year 0 to the start of a year, and within a year.\<close>

definition days_before_year :: "int \<Rightarrow> int" where
  "days_before_year y = 365 * y + (y + 3) div 4 - (y + 99) div 100 + (y + 399) div 400"

definition days_before_month :: "int \<Rightarrow> int \<Rightarrow> int" where
  "days_before_month y m = sum_list (map (days_in y) [1..m - 1])"

definition Unix_date :: "int \<Rightarrow> int \<Rightarrow> int \<Rightarrow> int \<Rightarrow> int \<Rightarrow> int \<Rightarrow> int" where
  "Unix_date y mo d h mi sec =
     (days_before_year y + days_before_month y mo + d - 1 - days_before_year 1970) * 86400
     + h * 3600 + mi * 60 + sec"

definition time_Parse14 :: "string \<Rightarrow> int option" where
  "time_Parse14 s =
     (let field = (\<lambda>i n. foldl (\<lambda>v c. 10 * v + int (digit_val c)) 0 (take n (drop i s)));
          y = field 0 4; mo = field 4 2; d = field 6 2; h = field 8 2; mi = field 10 2; sec = field 12 2 in
      if \<not> list_all is_digit s then None
      else if mo < 1 \<or> mo > 12 \<or> d < 1 \<or> d > days_in y mo \<or> h > 23 \<or> mi > 59 \<or> sec > 59 then None
      else Some (Unix_date y mo d h mi sec))"

section \<open>Fields of a joined text\<close>

definition plain_char :: "char \<Rightarrow> bool" where
  "plain_char c \<longleftrightarrow> (33 :: nat) \<le> of_char c \<and> of_char c \<le> (126 :: nat)"

abbreviation plain_word :: "string \<Rightarrow> bool" where
  "plain_word w \<equiv> w \<noteq> [] \<and> list_all plain_char w"

abbreviation blank :: "char \<Rightarrow> bool" where
  "blank c \<equiv> c = CHR '' '' \<or> c = CHR 0x09"

lemma white_space_heads:
  "list_all (\<lambda>w. w \<noteq> [] \<and> \<not> plain_char (hd w) \<and> \<not> plain_char (last w)) white_space"
  "list_all (\<lambda>w. hd w = CHR '' '' \<longrightarrow> w = '' '') white_space"
  "list_all (\<lambda>w. hd w = CHR 0x09 \<longrightarrow> w = [CHR 0x09]) white_space"
  "'' '' \<in> set white_space" "[CHR 0x09] \<in> set white_space"
  by code_simp+

lemma space_at_plain: "plain_char c \<Longrightarrow> space_at (c # s) = None"
  using white_space_heads(1)
  by (auto simp: space_at_def find_None_iff list_all_iff neq_Nil_conv Cons_prefix_Cons)

lemma space_at_blank:
  assumes "blank c"
  shows "space_at (c # s) = Some 1"
proof -
  have "[c] \<in> set white_space" using assms white_space_heads(4,5) by auto
  then have "find (\<lambda>w. w \<noteq> [] \<and> prefix w (c # s)) white_space \<noteq> None"
    by (simp add: find_None_iff) (intro exI [of _ "[c]"], simp)
  then obtain w where w: "find (\<lambda>w. w \<noteq> [] \<and> prefix w (c # s)) white_space = Some w" by blast
  then have "w \<in> set white_space" by (auto simp: find_Some_iff)
  moreover from w have "hd w = c" by (auto simp: find_Some_iff neq_Nil_conv)
  ultimately have "w = [c]" using white_space_heads(2,3) assms by (auto simp: list_all_iff)
  with w show ?thesis by (simp add: space_at_def)
qed

lemma TrimSpace_plain:
  assumes "s \<noteq> []" "plain_char (hd s)" "plain_char (last s)"
  shows "TrimSpace s = s"
proof -
  have "trim_front white_space s = s"
    using white_space_heads(1) assms by (intro trim_front_id) (auto simp: list_all_iff prefix_def hd_append)
  moreover have "trim_front (map rev white_space) (rev s) = rev s"
    using white_space_heads(1) assms
    by (intro trim_front_id) (auto simp: list_all_iff suffix_to_prefix [symmetric] suffix_def last_append)
  ultimately show ?thesis by (simp add: TrimSpace_def)
qed

lemma fields_from_word:
  "list_all plain_char w \<Longrightarrow> fields_from field (w @ s) = fields_from (field @ w) s"
  by (induction w arbitrary: field) (simp_all add: fields_from.simps(2) space_at_plain)

lemma fields_from_blank:
  "blank c \<Longrightarrow> fields_from field (c # s) = (if field = [] then [] else [field]) @ fields_from [] s"
  by (simp add: fields_from.simps(2) space_at_blank)

lemma Fields_spaced:
  "list_all (\<lambda>w. plain_word w) ws \<Longrightarrow> Fields (join_with CHR '' '' ws) = ws"
proof (induction "CHR '' ''" ws rule: join_with.induct)
  case (2 w)
  then show ?case using fields_from_word [of w "[]" "[]"] by (simp add: Fields_def)
next
  case (3 v w ws)
  then have "Fields (join_with CHR '' '' (w # ws)) = w # ws" by simp
  moreover have "Fields (v @ CHR '' '' # s) = v # Fields s" for s
    using "3.prems" by (simp add: Fields_def fields_from_word fields_from_blank)
  ultimately show ?case by simp
qed (simp add: Fields_def)

section \<open>Decoding inverts encoding\<close>

lemma hex_val_char: "n < 16 \<Longrightarrow> hex_val (hex_char n) = Some n"
  by (simp add: hex_val_def hex_char_def)

lemma hex_val_upper: "n < 16 \<Longrightarrow> hex_val (upper_char (hex_char n)) = Some n"
  by (simp add: hex_val_def hex_char_def upper_char_def)

lemma plain_hex: "n < 16 \<Longrightarrow> plain_char (hex_char n)" "n < 16 \<Longrightarrow> plain_char (upper_char (hex_char n))"
  by (simp_all add: hex_char_def upper_char_def plain_char_def)

lemma hex_decode_upper:
  "hex_DecodeString (ToUpper uu (hex_EncodeToString bs)) = Some bs"
  "list_all plain_char (ToUpper uu (hex_EncodeToString bs))"
proof -
  have h: "unat (b :: byte) div 16 < 16" for b using unsigned_less [of b, where ?'a = nat] by simp
  have c: "n < 16 \<Longrightarrow> is_ascii (hex_char n)" for n by (simp add: is_ascii_def hex_char_def)
  have a: "list_all is_ascii (hex_EncodeToString bs)"
    by (induction bs) (simp_all add: hex_EncodeToString_def hex_byte_def c h)
  show "hex_DecodeString (ToUpper uu (hex_EncodeToString bs)) = Some bs"
    using a by (induction bs) (simp_all add: ToUpper_def hex_EncodeToString_def hex_byte_def hex_val_upper h)
  show "list_all plain_char (ToUpper uu (hex_EncodeToString bs))"
    using a by (induction bs) (simp_all add: ToUpper_def hex_EncodeToString_def hex_byte_def plain_hex h)
qed

lemma b64_val_char:
  assumes "n < 64"
  shows "b64_val (b64_char n) = Some n" "b64_char n \<noteq> CHR ''=''" "plain_char (b64_char n)"
proof -
  show v: "b64_val (b64_char n) = Some n"
    using assms by (auto simp: b64_val_def b64_char_def Let_def)
  show "b64_char n \<noteq> CHR ''=''" using v by (auto simp: b64_val_def)
  show "plain_char (b64_char n)"
    using assms by (auto simp: plain_char_def b64_char_def)
qed

lemma sextets:
  fixes a b c :: nat
  assumes "a < 256" "b < 256" "c < 256"
  shows "a div 4 < 64" "a mod 4 * 16 + b div 16 < 64" "b mod 16 * 4 + c div 64 < 64" "c mod 64 < 64"
    and "4 * (a div 4) + (a mod 4 * 16 + b div 16) div 16 = a"
    and "(a mod 4 * 16 + b div 16) mod 16 * 16 + (b mod 16 * 4 + c div 64) div 4 = b"
    and "(b mod 16 * 4 + c div 64) mod 4 * 64 + c mod 64 = c"
proof -
  have y: "b div 16 < 16" "c div 64 < 4" "a mod 4 < 4" "b mod 16 < 16" using assms by simp_all
  show "a div 4 < 64" "c mod 64 < 64" using assms by simp_all
  show "a mod 4 * 16 + b div 16 < 64" using y(1,3) by linarith
  show "b mod 16 * 4 + c div 64 < 64" using y(2,4) by linarith
  have "(a mod 4 * 16 + b div 16) div 16 = a mod 4" "(a mod 4 * 16 + b div 16) mod 16 = b div 16"
    "(b mod 16 * 4 + c div 64) div 4 = b mod 16" "(b mod 16 * 4 + c div 64) mod 4 = c div 64"
    using y by simp_all
  then show "4 * (a div 4) + (a mod 4 * 16 + b div 16) div 16 = a"
    "(a mod 4 * 16 + b div 16) mod 16 * 16 + (b mod 16 * 4 + c div 64) div 4 = b"
    "(b mod 16 * 4 + c div 64) mod 4 * 64 + c mod 64 = c" by simp_all
qed

lemma quantum_inverse:
  fixes a b c :: byte
  shows "b64_quantum (unat a div 4) (unat a mod 4 * 16 + unat b div 16) (unat b mod 16 * 4 + unat c div 64)
     (unat c mod 64) = [a, b, c]"
  using sextets [of "unat a" "unat b" "unat c"] unsigned_less [of a, where ?'a = nat]
    unsigned_less [of b, where ?'a = nat] unsigned_less [of c, where ?'a = nat]
  by (simp add: b64_quantum_def)

lemma b64_roundtrip:
  "b64_DecodeString (b64_EncodeToString bs) = Some bs \<and> list_all plain_char (b64_EncodeToString bs)"
proof (induction bs rule: b64_EncodeToString.induct)
  case (2 a)
  have "plain_char CHR ''=''" by (simp add: plain_char_def)
  with quantum_inverse [of a 0 0] sextets [of "unat a" 0 0] unsigned_less [of a, where ?'a = nat]
  show ?case by (simp add: b64_val_char b64_quantum_def)
next
  case (3 a b)
  have "plain_char CHR ''=''" by (simp add: plain_char_def)
  with quantum_inverse [of a b 0] sextets [of "unat a" "unat b" 0] unsigned_less [of a, where ?'a = nat]
    unsigned_less [of b, where ?'a = nat]
  show ?case by (simp add: b64_val_char b64_quantum_def)
next
  case (4 a b c bs)
  then show ?case
    using quantum_inverse [of a b c] sextets [of "unat a" "unat b" "unat c"] unsigned_less [of a, where ?'a = nat]
      unsigned_less [of b, where ?'a = nat] unsigned_less [of c, where ?'a = nat]
    by (simp add: b64_val_char)
qed simp

section \<open>IPv4 addresses\<close>

lemma put32_get32: "put32 (get32 [a, b, c, d]) = [a, b, c, d]"
proof -
  let ?v = "ucast d OR push_bit 8 (ucast c) OR push_bit 16 (ucast b) OR push_bit 24 (ucast a) :: u32"
  have "ucast (drop_bit 24 ?v) = a" "ucast (drop_bit 16 ?v) = b" "ucast (drop_bit 8 ?v) = c" "ucast ?v = d"
    by (rule bit_word_eqI; auto simp: bit_simps dest: bit_imp_le_length)+
  then show ?thesis by (simp add: put32_def)
qed

lemma digit_plain: "is_digit c \<Longrightarrow> plain_char c"
  by (simp add: is_digit_def plain_char_def)

lemma FormatUint_plain [simp]: "plain_word (FormatUint n)"
  using FormatUint_props [of n] digit_plain by (auto simp: list_all_iff)

lemma FormatUint_no_zero: "0 < n \<Longrightarrow> hd (FormatUint n) \<noteq> CHR ''0''"
proof (induction n rule: FormatUint.induct)
  case (1 n)
  show ?case
  proof (cases "n < 10")
    case True
    with 1 have "of_char (digit_char n) \<noteq> (48 :: nat)" by (simp add: digit_char_def)
    moreover have "of_char CHR ''0'' = (48 :: nat)" by simp
    ultimately show ?thesis using True by (auto simp: FormatUint.simps [of n])
  next
    case False
    with 1 show ?thesis using FormatUint_props [of "n div 10"] by (simp add: FormatUint.simps [of n])
  qed
qed

lemma parse_octet_FormatUint: "parse_octet (FormatUint (unat b)) = Some b"
proof -
  have "unat b < 2 ^ 8" using unsigned_less [of b, where ?'a = nat] by simp
  then have "ParseUint (FormatUint (unat b)) 8 = Some (unat b)" by (rule ParseUint_FormatUint)
  moreover have "\<not> (hd (FormatUint (unat b)) = CHR ''0'' \<and> length (FormatUint (unat b)) > 1)"
    using FormatUint_no_zero [of "unat b"] by (cases "unat b = 0") (simp_all add: FormatUint.simps [of 0])
  ultimately show ?thesis by (simp add: parse_octet_def)
qed

lemma digits_no_separator:
  assumes "list_all is_digit s" shows "CHR ''.'' \<notin> set s" "CHR '':'' \<notin> set s" "CHR ''%'' \<notin> set s"
  using assms by (auto simp: list_all_iff is_digit_def)

lemma ParseAddr_addr4: "ParseAddr (addr4_String [a, b, c, d]) = Some (Addr4 (get32 [a, b, c, d]))"
proof -
  let ?f = "\<lambda>b :: byte. FormatUint (unat b)" and ?p = "\<lambda>c. c = CHR ''.'' \<or> c = CHR '':'' \<or> c = CHR ''%''"
  have dg: "list_all is_digit (?f x)" for x using FormatUint_props by simp
  have "split_on CHR ''.'' (addr4_String [a, b, c, d]) = map ?f [a, b, c, d]"
    unfolding addr4_String_def
    by (rule split_on_join_with) (use digits_no_separator(1) [OF dg] in auto)
  then have v4: "parseIPv4Fields (addr4_String [a, b, c, d]) = Some [a, b, c, d]"
    by (simp add: parseIPv4Fields_def parse_octet_FormatUint)
  have "find ?p (?f a @ CHR ''.'' # s) = Some CHR ''.''" for s
  proof -
    have "find ?p (w @ CHR ''.'' # s) = Some CHR ''.''" if "list_all is_digit w" for w
      using that by (induction w) (auto simp: is_digit_def)
    then show ?thesis using dg by simp
  qed
  then show ?thesis using v4 by (simp add: ParseAddr_def addr4_String_def AddrFromSlice_def)
qed

end
