(* ===== verification/RData.thy ===== *)
theory RData
  imports GoText Pack Dnssec
begin

text \<open>Record data between its presentation text and its wire format (\<open>dns/rdata.go\<close>): the writers
  of every record type, the decoder, and the type bit maps of the denial records.  The Unicode
  tables behind \<open>ToUpper\<close> and \<open>Quote\<close> and the decoder of \<open>encoding/base32\<close> are parameters.\<close>

section \<open>Errors and the writer\<close>

text \<open>\<open>ErrText\<close> stands for the errors made on the spot with \<open>errors.New\<close>; \<open>ErrWire\<close> is an error of
  the name codec or of the writer, passed on.\<close>

datatype rdata_error = ErrInvalidIPAddress | ErrInvalidRData | ErrText | ErrWire dns_error

text \<open>The guard, the copy and the advance every writer ends with.\<close>

definition put_bytes :: "packetWriter \<Rightarrow> bytes \<Rightarrow> rdata_error + packetWriter" where
  "put_bytes w bs =
     (if w_offset w + length bs > length (w_buf w) then Inl (ErrWire ErrBufferTooSmall)
      else Inr (w\<lparr>w_buf := copy_at (w_buf w) (w_offset w) bs, w_offset := w_offset w + length bs\<rparr>))"

definition put_name :: "dns_error option \<times> packetWriter \<Rightarrow> rdata_error + packetWriter" where
  "put_name r = (case r of (Some err, _) \<Rightarrow> Inl (ErrWire err) | (None, w) \<Rightarrow> Inr w)"

section \<open>Writing presentation text\<close>

definition writeRDataA :: "packetWriter \<Rightarrow> string \<Rightarrow> rdata_error + packetWriter" where
  "writeRDataA w rdata =
     (case ParseAddr rdata of
        None \<Rightarrow> Inl ErrInvalidIPAddress
      | Some addr \<Rightarrow>
          if \<not> Addr_Is4 addr then Inl ErrInvalidIPAddress else put_bytes w (Addr_As4 addr))"

definition writeRDataAAAA :: "packetWriter \<Rightarrow> string \<Rightarrow> rdata_error + packetWriter" where
  "writeRDataAAAA w rdata =
     (case ParseAddr rdata of
        None \<Rightarrow> Inl ErrInvalidIPAddress
      | Some addr \<Rightarrow>
          if \<not> Addr_Is6 addr then Inl ErrInvalidIPAddress else put_bytes w (Addr_As16 addr))"

function txt_chunks :: "packetWriter \<Rightarrow> string \<Rightarrow> rdata_error + packetWriter" where
  "txt_chunks w rdata =
     (if rdata = [] then Inr w
      else
        (let chunkLen = min (length rdata) 255 in
         res_bind (put_bytes w (word_of_nat chunkLen # bytes_of (take chunkLen rdata)))
           (\<lambda>w. txt_chunks w (drop chunkLen rdata))))"
  by pat_completeness auto
termination
  by (relation "measure (\<lambda>(w, rdata). length rdata)") auto

declare txt_chunks.simps [simp del]

definition writeRDataTXT :: "packetWriter \<Rightarrow> string \<Rightarrow> rdata_error + packetWriter" where
  "writeRDataTXT w rdata = (if rdata = [] then put_bytes w [0] else txt_chunks w rdata)"

definition writeRDataSOA :: "packetWriter \<Rightarrow> string \<Rightarrow> rdata_error + packetWriter" where
  "writeRDataSOA w rdata =
     (case Fields rdata of
        [primaryMaster, responsibleMailbox, f2, f3, f4, f5, f6] \<Rightarrow>
          (case (ParseUint f2 32, ParseUint f3 32, ParseUint f4 32, ParseUint f5 32, ParseUint f6 32) of
             (Some serial, Some refresh, Some retry, Some expire, Some minimumTTL) \<Rightarrow>
               res_bind (put_name (writeDomain w primaryMaster)) (\<lambda>w.
               res_bind (put_name (writeDomain w responsibleMailbox)) (\<lambda>w.
                 put_bytes w (put32 (word_of_nat serial) @ put32 (word_of_nat refresh)
                   @ put32 (word_of_nat retry) @ put32 (word_of_nat expire)
                   @ put32 (word_of_nat minimumTTL))))
           | _ \<Rightarrow> Inl ErrInvalidRData)
      | _ \<Rightarrow> Inl ErrInvalidRData)"

definition writeRDataMX :: "packetWriter \<Rightarrow> string \<Rightarrow> rdata_error + packetWriter" where
  "writeRDataMX w rdata =
     (case Fields rdata of
        f0 # f1 # _ \<Rightarrow>
          (case ParseUint f0 16 of
             None \<Rightarrow> Inl ErrText
           | Some preference \<Rightarrow>
               res_bind (put_bytes w (put16 (word_of_nat preference)))
                 (\<lambda>w. put_name (writeDomain w f1)))
      | _ \<Rightarrow> Inl ErrText)"

definition writeRDataSRV :: "packetWriter \<Rightarrow> string \<Rightarrow> rdata_error + packetWriter" where
  "writeRDataSRV w rdata =
     (case Fields rdata of
        f0 # f1 # f2 # f3 # _ \<Rightarrow>
          (case (ParseUint f0 16, ParseUint f1 16, ParseUint f2 16) of
             (Some priority, Some weight, Some port) \<Rightarrow>
               res_bind (put_bytes w (put16 (word_of_nat priority) @ put16 (word_of_nat weight)
                                      @ put16 (word_of_nat port)))
                 (\<lambda>w. put_name (writeDomain w f3))
           | _ \<Rightarrow> Inl ErrText)
      | _ \<Rightarrow> Inl ErrText)"

definition writePrefixedPayload :: "packetWriter \<Rightarrow> u32 \<Rightarrow> bytes \<Rightarrow> rdata_error + packetWriter" where
  "writePrefixedPayload w pre payload' = put_bytes w (put32 pre @ payload')"

definition prefix_word :: "nat \<Rightarrow> nat \<Rightarrow> nat \<Rightarrow> u32" where
  "prefix_word a b c =
     push_bit 16 (word_of_nat a) OR push_bit 8 (word_of_nat b) OR word_of_nat c"

definition writeRDataDNSKEY :: "packetWriter \<Rightarrow> string \<Rightarrow> rdata_error + packetWriter" where
  "writeRDataDNSKEY w rdata =
     (case Fields rdata of
        f0 # f1 # f2 # f3 # fs \<Rightarrow>
          (case (ParseUint f0 16, ParseUint f1 8, ParseUint f2 8) of
             (Some flags, Some protocol, Some algorithm) \<Rightarrow>
               (case b64_DecodeString (concat (f3 # fs)) of
                  None \<Rightarrow> Inl ErrInvalidRData
                | Some publicKeyBytes \<Rightarrow>
                    writePrefixedPayload w (prefix_word flags protocol algorithm) publicKeyBytes)
           | _ \<Rightarrow> Inl ErrInvalidRData)
      | _ \<Rightarrow> Inl ErrInvalidRData)"

definition writeRDataDS :: "packetWriter \<Rightarrow> string \<Rightarrow> rdata_error + packetWriter" where
  "writeRDataDS w rdata =
     (case Fields rdata of
        f0 # f1 # f2 # f3 # fs \<Rightarrow>
          (case (ParseUint f0 16, ParseUint f1 8, ParseUint f2 8) of
             (Some keyTag, Some algorithm, Some digestType) \<Rightarrow>
               (case hex_DecodeString (concat (f3 # fs)) of
                  None \<Rightarrow> Inl ErrInvalidRData
                | Some digestBytes \<Rightarrow>
                    writePrefixedPayload w (prefix_word keyTag algorithm digestType) digestBytes)
           | _ \<Rightarrow> Inl ErrInvalidRData)
      | _ \<Rightarrow> Inl ErrInvalidRData)"

text \<open>A time stamp is fourteen digits of a date, or seconds.\<close>

definition parseRRSIGTimestamp :: "string \<Rightarrow> rdata_error + u32" where
  "parseRRSIGTimestamp timestampStr =
     (case (if length timestampStr = 14 then time_Parse14 timestampStr else None) of
        Some seconds \<Rightarrow>
          if seconds < 0 \<or> seconds > 2 ^ 32 - 1 then Inl ErrInvalidRData
          else Inr (word_of_int seconds)
      | None \<Rightarrow>
          (case ParseUint timestampStr 32 of
             None \<Rightarrow> Inl ErrText
           | Some numericVal \<Rightarrow> Inr (word_of_nat numericVal)))"

definition writeRDataRRSIG ::
  "(string \<Rightarrow> string) \<Rightarrow> packetWriter \<Rightarrow> string \<Rightarrow> rdata_error + packetWriter" where
  "writeRDataRRSIG uu w rdata =
     (case Fields rdata of
        f0 # f1 # f2 # f3 # f4 # f5 # f6 # f7 # f8 # fs \<Rightarrow>
          (case (ParseType uu f0, ParseUint f1 8, ParseUint f2 8, ParseUint f3 32,
                 parseRRSIGTimestamp f4, parseRRSIGTimestamp f5, ParseUint f6 16) of
             (Inr typeCovered, Some algorithm, Some labelCount, Some originalTTL,
              Inr expirationTime, Inr inceptionTime, Some keyTag) \<Rightarrow>
               (case b64_DecodeString (concat (f8 # fs)) of
                  None \<Rightarrow> Inl ErrInvalidRData
                | Some signatureBytes \<Rightarrow>
                    res_bind (put_bytes w (put16 typeCovered
                        @ [word_of_nat algorithm, word_of_nat labelCount]
                        @ put32 (word_of_nat originalTTL) @ put32 expirationTime @ put32 inceptionTime
                        @ put16 (word_of_nat keyTag))) (\<lambda>w.
                    res_bind (put_name (writeUncompressedDomain w f7)) (\<lambda>w.
                      put_bytes w signatureBytes)))
           | _ \<Rightarrow> Inl ErrInvalidRData)
      | _ \<Rightarrow> Inl ErrInvalidRData)"

section \<open>Type bit maps\<close>

fun parse_types :: "(string \<Rightarrow> string) \<Rightarrow> string list \<Rightarrow> rdata_error + u16 list" where
  "parse_types uu [] = Inr []"
| "parse_types uu (typeStr # rest) =
     (case ParseType uu typeStr of
        Inl _ \<Rightarrow> Inl ErrInvalidRData
      | Inr parsedType \<Rightarrow> res_bind (parse_types uu rest) (\<lambda>ts. Inr (parsedType # ts)))"

definition bit_mask :: "nat \<Rightarrow> byte" where
  "bit_mask bitPos = push_bit (7 - bitPos mod 8) 1"

definition or_bit :: "bytes \<Rightarrow> nat \<Rightarrow> nat \<Rightarrow> bytes" where
  "or_bit buf blockStartOffset bitPos =
     (let i = blockStartOffset + 2 + bitPos div 8 in buf[i := (buf ! i) OR bit_mask bitPos])"

text \<open>Closing a block writes its length octet and moves behind it.\<close>

definition close_block :: "bytes \<Rightarrow> nat \<Rightarrow> nat \<Rightarrow> bytes \<times> nat" where
  "close_block buf blockStartOffset maxBitInBlock =
     (let bitmapLen = maxBitInBlock div 8 + 1 in
      (buf[blockStartOffset + 1 := word_of_nat bitmapLen], blockStartOffset + 2 + bitmapLen))"

text \<open>The loop over the sorted types; the current block, if any, is given with its start and its
  highest bit.\<close>

fun bitmap_loop ::
  "bytes \<Rightarrow> nat \<Rightarrow> (nat \<times> nat \<times> nat) option \<Rightarrow> u16 list \<Rightarrow> rdata_error + (bytes \<times> nat)" where
  "bitmap_loop buf offset current [] =
     (case current of
        None \<Rightarrow> Inr (buf, offset)
      | Some (_, blockStartOffset, maxBitInBlock) \<Rightarrow> Inr (close_block buf blockStartOffset maxBitInBlock))"
| "bitmap_loop buf offset current (typeNum # rest) =
     (let block = unat typeNum div 256; bitPos = unat typeNum mod 256 in
      case current of
        Some (currentBlock, blockStartOffset, maxBitInBlock) \<Rightarrow>
          if block = currentBlock then
            bitmap_loop (or_bit buf blockStartOffset bitPos) offset
              (Some (currentBlock, blockStartOffset, max maxBitInBlock bitPos)) rest
          else
            (let (buf, offset) = close_block buf blockStartOffset maxBitInBlock in
             if offset + 34 > length buf then Inl (ErrWire ErrBufferTooSmall)
             else
               bitmap_loop (or_bit (copy_at (buf[offset := word_of_nat block]) (offset + 2) (replicate 32 0))
                   offset bitPos) offset (Some (block, offset, bitPos)) rest)
      | None \<Rightarrow>
          if offset + 34 > length buf then Inl (ErrWire ErrBufferTooSmall)
          else
            bitmap_loop (or_bit (copy_at (buf[offset := word_of_nat block]) (offset + 2) (replicate 32 0))
                offset bitPos) offset (Some (block, offset, bitPos)) rest)"

text \<open>Returns the written buffer and the length of the bit map.\<close>

definition encodeTypeBitMaps ::
  "(string \<Rightarrow> string) \<Rightarrow> bytes \<Rightarrow> nat \<Rightarrow> string list \<Rightarrow> rdata_error + (bytes \<times> nat)" where
  "encodeTypeBitMaps uu buf offset typeStrings =
     (if typeStrings = [] then Inl ErrInvalidRData
      else
        res_bind (parse_types uu typeStrings) (\<lambda>typeNumbers.
        res_bind (bitmap_loop buf offset None (sort typeNumbers)) (\<lambda>(buf, end).
          Inr (buf, end - offset))))"

definition put_bitmap ::
  "(string \<Rightarrow> string) \<Rightarrow> packetWriter \<Rightarrow> string list \<Rightarrow> rdata_error + packetWriter" where
  "put_bitmap uu w typeStrings =
     res_bind (encodeTypeBitMaps uu (w_buf w) (w_offset w) typeStrings) (\<lambda>(buf, bitmapLen).
       Inr (w\<lparr>w_buf := buf, w_offset := w_offset w + bitmapLen\<rparr>))"

definition writeRDataNSEC ::
  "(string \<Rightarrow> string) \<Rightarrow> packetWriter \<Rightarrow> string \<Rightarrow> rdata_error + packetWriter" where
  "writeRDataNSEC uu w rdata =
     (case Fields rdata of
        f0 # f1 # fs \<Rightarrow>
          res_bind (put_name (writeUncompressedDomain w f0)) (\<lambda>w. put_bitmap uu w (f1 # fs))
      | _ \<Rightarrow> Inl ErrInvalidRData)"

text \<open>The parameter \<open>b32\<close> is the unpadded extended-hex decoder of \<open>encoding/base32\<close>.\<close>

definition writeRDataNSEC3 ::
  "(string \<Rightarrow> string) \<Rightarrow> (string \<Rightarrow> bytes option) \<Rightarrow> packetWriter \<Rightarrow> string \<Rightarrow> rdata_error + packetWriter" where
  "writeRDataNSEC3 uu b32 w rdata =
     (case Fields rdata of
        f0 # f1 # f2 # f3 # f4 # f5 # fs \<Rightarrow>
          (case (ParseUint f0 8, ParseUint f1 8, ParseUint f2 16) of
             (Some hashAlgorithm, Some flags, Some iterations) \<Rightarrow>
               (case (if f3 \<noteq> ''-'' then hex_DecodeString f3 else Some []) of
                  None \<Rightarrow> Inl ErrInvalidRData
                | Some saltBytes \<Rightarrow>
                    if length saltBytes > 255 then Inl ErrInvalidRData
                    else
                      (case b32 (ToUpper uu f4) of
                         None \<Rightarrow> Inl ErrInvalidRData
                       | Some nextOwnerBytes \<Rightarrow>
                           if length nextOwnerBytes > 255 then Inl ErrInvalidRData
                           else
                             res_bind (put_bytes w ([word_of_nat hashAlgorithm, word_of_nat flags]
                                 @ put16 (word_of_nat iterations)
                                 @ word_of_nat (length saltBytes) # saltBytes
                                 @ word_of_nat (length nextOwnerBytes) # nextOwnerBytes))
                               (\<lambda>w. put_bitmap uu w (f5 # fs))))
           | _ \<Rightarrow> Inl ErrInvalidRData)
      | _ \<Rightarrow> Inl ErrInvalidRData)"

definition writeRDataZONEMD :: "packetWriter \<Rightarrow> string \<Rightarrow> rdata_error + packetWriter" where
  "writeRDataZONEMD w rdata =
     (case Fields rdata of
        f0 # f1 # f2 # f3 # fs \<Rightarrow>
          (case (ParseUint f0 32, ParseUint f1 8, ParseUint f2 8) of
             (Some serial, Some scheme, Some hashAlgorithm) \<Rightarrow>
               (case hex_DecodeString (concat (f3 # fs)) of
                  None \<Rightarrow> Inl ErrInvalidRData
                | Some digestBytes \<Rightarrow>
                    put_bytes w (put32 (word_of_nat serial)
                      @ [word_of_nat scheme, word_of_nat hashAlgorithm] @ digestBytes))
           | _ \<Rightarrow> Inl ErrInvalidRData)
      | _ \<Rightarrow> Inl ErrInvalidRData)"

definition writeRDataCAA :: "packetWriter \<Rightarrow> string \<Rightarrow> rdata_error + packetWriter" where
  "writeRDataCAA w rdata =
     (case SplitN_space 3 rdata of
        [f0, tag, f2] \<Rightarrow>
          (case ParseUint f0 8 of
             None \<Rightarrow> Inl ErrText
           | Some flags \<Rightarrow>
               if length tag > 255 then Inl ErrText
               else put_bytes w (word_of_nat flags # word_of_nat (length tag) # bytes_of tag
                                 @ bytes_of (Trim_quotes f2)))
      | _ \<Rightarrow> Inl ErrText)"

definition writeRDataRaw :: "packetWriter \<Rightarrow> string \<Rightarrow> rdata_error + packetWriter" where
  "writeRDataRaw w rdata = put_bytes w (bytes_of rdata)"

section \<open>Packing\<close>

definition write_rdata ::
  "(string \<Rightarrow> string) \<Rightarrow> (string \<Rightarrow> bytes option) \<Rightarrow> packetWriter \<Rightarrow> dns_type \<Rightarrow> string
     \<Rightarrow> rdata_error + packetWriter" where
  "write_rdata uu b32 w qType rdata =
     (if qType = TypeA then writeRDataA w rdata
      else if qType = TypeAAAA then writeRDataAAAA w rdata
      else if qType = TypeTXT then writeRDataTXT w rdata
      else if qType \<in> {TypeCNAME, TypeNS, TypePTR} then put_name (writeDomain w rdata)
      else if qType = TypeSOA then writeRDataSOA w rdata
      else if qType = TypeMX then writeRDataMX w rdata
      else if qType = TypeSRV then writeRDataSRV w rdata
      else if qType = TypeDNSKEY then writeRDataDNSKEY w rdata
      else if qType = TypeDS then writeRDataDS w rdata
      else if qType = TypeRRSIG then writeRDataRRSIG uu w rdata
      else if qType = TypeNSEC then writeRDataNSEC uu w rdata
      else if qType = TypeNSEC3 then writeRDataNSEC3 uu b32 w rdata
      else if qType = TypeZONEMD then writeRDataZONEMD w rdata
      else if qType = TypeCAA then writeRDataCAA w rdata
      else writeRDataRaw w rdata)"

definition writeRData ::
  "(string \<Rightarrow> string) \<Rightarrow> (string \<Rightarrow> bytes option) \<Rightarrow> packetWriter \<Rightarrow> dns_type \<Rightarrow> string
     \<Rightarrow> rdata_error + (nat \<times> packetWriter)" where
  "writeRData uu b32 w qType rdata =
     res_bind (write_rdata uu b32 w qType rdata) (\<lambda>w'. Inr (w_offset w' - w_offset w, w'))"

text \<open>The writer works on the whole of a zeroed array of 4096 bytes.\<close>

definition PackRData ::
  "(string \<Rightarrow> string) \<Rightarrow> (string \<Rightarrow> bytes option) \<Rightarrow> dns_type \<Rightarrow> string \<Rightarrow> rdata_error + bytes" where
  "PackRData uu b32 qType rdata =
     (case newPacketWriter (replicate 4096 0) 4096 of
        Inl err \<Rightarrow> Inl (ErrWire err)
      | Inr writer \<Rightarrow>
          res_bind (writeRData uu b32 writer qType rdata) (\<lambda>(rdataLen, writer).
            Inr (take rdataLen (w_buf writer))))"

text \<open>\<open>None\<close> is the panic.\<close>

definition MustPackRData ::
  "(string \<Rightarrow> string) \<Rightarrow> (string \<Rightarrow> bytes option) \<Rightarrow> dns_type \<Rightarrow> string \<Rightarrow> bytes option" where
  "MustPackRData uu b32 qType rdata =
     (case PackRData uu b32 qType rdata of Inl _ \<Rightarrow> None | Inr wire \<Rightarrow> Some wire)"

definition NewRRSet ::
  "(string \<Rightarrow> string) \<Rightarrow> (string \<Rightarrow> bytes option) \<Rightarrow> dns_type \<Rightarrow> u32 \<Rightarrow> string list \<Rightarrow> RRSet option" where
  "NewRRSet uu b32 qType ttl textValues =
     map_option (\<lambda>rdata. \<lparr>RData = rdata, TTL = ttl, rr_Type = qType, rr_Class = ClassIN\<rparr>)
       (those (map (MustPackRData uu b32 qType) textValues))"

section \<open>Unpacking\<close>

text \<open>Names inside record data are decoded with the record data as the packet.\<close>

definition readWireDomain :: "bytes \<Rightarrow> nat \<Rightarrow> rdata_error + (string \<times> nat)" where
  "readWireDomain wire offset =
     (case UnpackDomainName wire offset of
        Inl err \<Rightarrow> Inl (ErrWire err)
      | Inr (name, nextOffset) \<Rightarrow> Inr (if name = [] then ''.'' else name @ ''.'', nextOffset))"

abbreviation u8_at :: "bytes \<Rightarrow> nat \<Rightarrow> nat" where
  "u8_at wire i \<equiv> unat (wire ! i)"

abbreviation u16_at :: "bytes \<Rightarrow> nat \<Rightarrow> nat" where
  "u16_at wire i \<equiv> unat (get16 (sub_slice wire i (i + 2)))"

abbreviation u32_at :: "bytes \<Rightarrow> nat \<Rightarrow> nat" where
  "u32_at wire i \<equiv> unat (get32 (sub_slice wire i (i + 4)))"

text \<open>The \<open>Sprintf\<close> calls separate their arguments by one space each.\<close>

abbreviation spaced :: "string list \<Rightarrow> string" where
  "spaced \<equiv> join_with CHR '' ''"

function txt_unpack :: "bytes \<Rightarrow> nat \<Rightarrow> bytes \<Rightarrow> rdata_error + bytes" where
  "txt_unpack wire offset builder =
     (if offset < length wire then
        (let chunkLen = u8_at wire offset; offset = offset + 1 in
         if offset + chunkLen > length wire then Inl ErrInvalidRData
         else
           txt_unpack wire (offset + chunkLen)
             ((if builder \<noteq> [] then builder @ [32] else builder)
              @ sub_slice wire offset (offset + chunkLen)))
      else Inr builder)"
  by pat_completeness auto
termination
  by (relation "measure (\<lambda>(wire, offset, builder). length wire - offset)") auto

declare txt_unpack.simps [simp del]

definition unpackDNSSECRData :: "(string \<Rightarrow> string) \<Rightarrow> dns_type \<Rightarrow> bytes \<Rightarrow> rdata_error + string" where
  "unpackDNSSECRData uu qType wire =
     (if qType = TypeDS then
        if length wire < 4 then Inl ErrInvalidRData
        else Inr (spaced [FormatUint (u16_at wire 0), FormatUint (u8_at wire 2), FormatUint (u8_at wire 3),
               ToUpper uu (hex_EncodeToString (drop 4 wire))])
      else if qType = TypeDNSKEY then
        if length wire < 4 then Inl ErrInvalidRData
        else Inr (spaced [FormatUint (u16_at wire 0), FormatUint (u8_at wire 2), FormatUint (u8_at wire 3),
               b64_EncodeToString (drop 4 wire)])
      else if qType = TypeRRSIG then
        if length wire < 18 then Inl ErrInvalidRData
        else
          res_bind (readWireDomain wire 18) (\<lambda>(signerName, nextOffset).
            Inr (spaced [Type_String (get16 (sub_slice wire 0 2)), FormatUint (u8_at wire 2),
              FormatUint (u8_at wire 3), FormatUint (u32_at wire 4), FormatUint (u32_at wire 8),
              FormatUint (u32_at wire 12), FormatUint (u16_at wire 16), signerName,
              b64_EncodeToString (drop nextOffset wire)]))
      else if qType = TypeZONEMD then
        if length wire < 6 then Inl ErrInvalidRData
        else Inr (spaced [FormatUint (u32_at wire 0), FormatUint (u8_at wire 4), FormatUint (u8_at wire 5),
               ToUpper uu (hex_EncodeToString (drop 6 wire))])
      else Inr (hex_EncodeToString wire))"

definition UnpackRData ::
  "(string \<Rightarrow> string) \<Rightarrow> (string \<Rightarrow> string) \<Rightarrow> dns_type \<Rightarrow> bytes \<Rightarrow> rdata_error + string" where
  "UnpackRData uu uq qType wire =
     (if qType = TypeA then
        if length wire \<noteq> 4 then Inl ErrInvalidRData else Inr (Addr_String (AddrFromSlice wire))
      else if qType = TypeAAAA then
        if length wire \<noteq> 16 then Inl ErrInvalidRData else Inr (Addr_String (AddrFromSlice wire))
      else if qType \<in> {TypeCNAME, TypeNS, TypePTR} then
        res_bind (readWireDomain wire 0) (\<lambda>(domainName, _). Inr domainName)
      else if qType = TypeTXT then
        res_bind (txt_unpack wire 0 []) (\<lambda>builder. Inr (string_of builder))
      else if qType = TypeMX then
        if length wire < 3 then Inl ErrInvalidRData
        else
          res_bind (readWireDomain wire 2) (\<lambda>(exchange, _).
            Inr (spaced [FormatUint (u16_at wire 0), exchange]))
      else if qType = TypeSRV then
        if length wire < 7 then Inl ErrInvalidRData
        else
          res_bind (readWireDomain wire 6) (\<lambda>(target, _).
            Inr (spaced [FormatUint (u16_at wire 0), FormatUint (u16_at wire 2), FormatUint (u16_at wire 4), target]))
      else if qType = TypeSOA then
        res_bind (readWireDomain wire 0) (\<lambda>(primaryMaster, nextOffset).
        res_bind (readWireDomain wire nextOffset) (\<lambda>(responsibleMailbox, nextOffset).
          if nextOffset + 20 > length wire then Inl ErrInvalidRData
          else
            Inr (spaced [primaryMaster, responsibleMailbox, FormatUint (u32_at wire nextOffset),
              FormatUint (u32_at wire (nextOffset + 4)), FormatUint (u32_at wire (nextOffset + 8)),
              FormatUint (u32_at wire (nextOffset + 12)), FormatUint (u32_at wire (nextOffset + 16))])))
      else if qType = TypeCAA then
        if length wire < 3 then Inl ErrInvalidRData
        else
          (let tagLen = u8_at wire 1 in
           if 2 + tagLen > length wire then Inl ErrInvalidRData
           else
             Inr (spaced [FormatUint (u8_at wire 0), string_of (sub_slice wire 2 (2 + tagLen)),
               Quote uq (string_of (drop (2 + tagLen) wire))]))
      else if qType \<in> {TypeDS, TypeDNSKEY, TypeRRSIG, TypeZONEMD} then unpackDNSSECRData uu qType wire
      else Inr (hex_EncodeToString wire))"

section \<open>What the writers emit\<close>

definition emitted :: "packetWriter \<Rightarrow> bytes \<Rightarrow> packetWriter \<Rightarrow> bool" where
  "emitted w bs w' \<longleftrightarrow>
     length (w_buf w') = length (w_buf w) \<and> w_offset w' = w_offset w + length bs \<and>
     w_offset w' \<le> length (w_buf w) \<and>
     take (w_offset w') (w_buf w') = take (w_offset w) (w_buf w) @ bs"

lemma emitted_trans: "emitted a x b \<Longrightarrow> emitted b y c \<Longrightarrow> emitted a (x @ y) c"
  unfolding emitted_def by (metis add.assoc append.assoc length_append)

lemma put_bytes_emits:
  assumes "w_offset w + length bs \<le> length (w_buf w)"
  shows "\<exists>w'. put_bytes w bs = Inr w' \<and> emitted w bs w' \<and> w_table w' = w_table w"
  using assms by (simp add: put_bytes_def emitted_def copy_at_fit)

lemma table_longer: "\<forall>e \<in> set c. length s < length (fst e) \<Longrightarrow> table_find c s = None"
  by (induction c s rule: table_find.induct) (auto simp: equalFoldASCII_def)

lemma compressor_longer: "\<forall>e \<in> set c. length s < length (fst e) \<Longrightarrow> compressor_lookup c s = None"
  by (simp add: compressor_lookup_def table_longer)

lemma insert_longer:
  "\<forall>e \<in> set c. length s < length (fst e) \<Longrightarrow> length t < length s \<Longrightarrow>
   \<forall>e \<in> set (compressor_insert c s off). length t < length (fst e)"
proof
  fix e assume l: "\<forall>e \<in> set c. length s < length (fst e)" "length t < length s"
    and "e \<in> set (compressor_insert c s off)"
  then have "e \<in> set c \<or> fst e = s" by (auto simp: compressor_insert_def split: if_splits)
  with l show "length t < length (fst e)" by (auto dest!: bspec)
qed

definition dotted_text :: "string list \<Rightarrow> string" where
  "dotted_text ls = concat (map (\<lambda>l. l @ ''.'') ls)"

lemma dotted_text_simps [simp]:
  "dotted_text [] = []" "dotted_text (l # ls) = l @ CHR ''.'' # dotted_text ls"
  by (simp_all add: dotted_text_def)

definition wire_label :: "string \<Rightarrow> bool" where
  "wire_label l \<longleftrightarrow> l \<noteq> [] \<and> length l \<le> MaxLabelLen \<and> CHR ''.'' \<notin> set l"

lemma zero_emits:
  "w_offset w < length (w_buf w) \<Longrightarrow>
   \<exists>w'. write_zero w = Inr w' \<and> emitted w [0] w' \<and> w_table w' = w_table w"
  by (simp add: write_zero_def emitted_def take_Suc_conv_app_nth)

lemma label_emits:
  assumes "wire_label l" and "w_offset w + length (encode_label l) \<le> length (w_buf w)"
  shows "\<exists>w'. writeIntermediateLabel w full l c = Inr w' \<and> emitted w (encode_label l) w' \<and>
    w_table w' = (if c then compressor_insert (w_table w) full (w_offset w) else w_table w)"
proof -
  have l: "l \<noteq> []" "length l \<le> MaxLabelLen" using assms(1) by (simp_all add: wire_label_def)
  note e = encode_label_good(1) [OF l]
  have "\<exists>w'. writeIntermediateLabel w full l c = Inr w'"
    using l assms(2) by (simp add: writeIntermediateLabel_def Let_def e)
  then obtain w' where w': "writeIntermediateLabel w full l c = Inr w'" by blast
  from intermediate_label [OF w' l(1)] show ?thesis
    using w' by (simp add: emitted_def e)
qed

lemma write_suffix_emits:
  "list_all wire_label ls \<Longrightarrow> ls \<noteq> [] \<Longrightarrow>
   (c \<Longrightarrow> \<forall>e \<in> set (w_table w). length (dotted_text ls) < length (fst e)) \<Longrightarrow>
   w_offset w + length (concat (map encode_label ls)) + 1 \<le> length (w_buf w) \<Longrightarrow>
   \<exists>w'. write_suffix w (dotted_text ls) c = (None, w') \<and> emitted w (concat (map encode_label ls) @ [0]) w'"
proof (induction ls arbitrary: w)
  case (Cons l ls)
  define s where "s = dotted_text (l # ls)"
  have l: "wire_label l" using Cons.prems(1) by simp
  have "IndexByte s CHR ''.'' = Some (length l)" "take (length l) s = l" "drop (length l + 1) s = dotted_text ls"
    using l by (simp_all add: s_def wire_label_def IndexByte_append)
  moreover have "(if c then compressor_lookup (w_table w) s else None) = None"
    using Cons.prems(3) compressor_longer unfolding s_def by auto
  moreover obtain w1 where w1: "writeIntermediateLabel w s l c = Inr w1" "emitted w (encode_label l) w1"
    "w_table w1 = (if c then compressor_insert (w_table w) s (w_offset w) else w_table w)"
    using label_emits [OF l, of w s c] Cons.prems(4) by auto
  ultimately have step: "write_suffix w s c =
      (if dotted_text ls = [] then (case write_zero w1 of Inl err \<Rightarrow> (Some err, w1) | Inr w'' \<Rightarrow> (None, w''))
       else write_suffix w1 (dotted_text ls) c)"
    by (subst write_suffix.simps) (simp only: option.case Let_def sum.case)
  have off: "w_offset w1 + length (concat (map encode_label ls)) + 1 \<le> length (w_buf w1)"
    using w1(2) Cons.prems(4) by (simp add: emitted_def)
  show ?case
  proof (cases "ls = []")
    case True
    then obtain w2 where "write_zero w1 = Inr w2" "emitted w1 [0] w2"
      using zero_emits [of w1] off by auto
    then show ?thesis using True step emitted_trans [OF w1(2)] unfolding s_def by simp
  next
    case False
    then have ne: "dotted_text ls \<noteq> []" by (cases ls) simp_all
    have "c \<Longrightarrow> \<forall>e \<in> set (w_table w1). length (dotted_text ls) < length (fst e)"
      using w1(3) Cons.prems(3) insert_longer [of "w_table w" s "dotted_text ls" "w_offset w"]
      by (simp add: s_def)
    then obtain w2 where "write_suffix w1 (dotted_text ls) c = (None, w2)"
      "emitted w1 (concat (map encode_label ls) @ [0]) w2"
      using Cons.IH [of w1] False off Cons.prems(1) by auto
    then show ?thesis using step ne emitted_trans [OF w1(2)] unfolding s_def by auto
  qed
qed simp

lemma dotted_text_join: "ls \<noteq> [] \<Longrightarrow> dotted_text ls = join_with CHR ''.'' ls @ ''.''"
  by (induction "CHR ''.''" ls rule: join_with.induct) simp_all

lemma dotted_text_split: "dotted_text (split_on CHR ''.'' d) = d @ ''.''"
  by (simp add: dotted_text_join)

lemma normal_wire_labels: "normal_name d \<Longrightarrow> list_all wire_label (split_on CHR ''.'' d)"
  using normal_name_good split_on_no_sep_mem by (auto simp: list_all_iff wire_label_def)

lemma name_emits:
  assumes "normal_name d" and "\<not> c \<or> w_table w = []" and "w_offset w + length d + 2 \<le> length (w_buf w)"
  shows "\<exists>w'. put_name (writeDomainCompressed w (d @ ''.'') c) = Inr w' \<and>
    emitted w (EncodeDomainName ul d) w'"
proof -
  let ?ls = "split_on CHR ''.'' d"
  have len: "length (d @ ''.'') \<le> MaxNameLen" "d \<noteq> []"
    using assms(1) normal_name_good [OF assms(1)] by (auto simp: normal_name_def)
  have "\<exists>w'. write_suffix w (dotted_text ?ls) c = (None, w') \<and>
      emitted w (concat (map encode_label ?ls) @ [0]) w'"
    using assms(2,3) length_Encode_normal [OF assms(1), of ul]
    by (intro write_suffix_emits normal_wire_labels [OF assms(1)]) (auto simp: Encode_normal [OF assms(1)])
  then show ?thesis
    using len by (auto simp: dotted_text_split put_name_def writeDomainCompressed_def Encode_normal [OF assms(1)])
qed

abbreviation fresh_writer :: packetWriter where
  "fresh_writer \<equiv> \<lparr>w_buf = replicate 4096 0, w_table = [], w_offset = 0\<rparr>"

lemma PackRData_emits:
  assumes "write_rdata uu b32 fresh_writer t s = Inr w" and "emitted fresh_writer bs w"
  shows "PackRData uu b32 t s = Inr bs"
  using assms by (simp add: PackRData_def newPacketWriter_def writeRData_def emitted_def) auto

lemma host_plain: "host_char c \<Longrightarrow> plain_char c"
  by (auto simp: host_char_def plain_char_def is_label_char_def Let_def)

lemma normal_plain: "normal_name d \<Longrightarrow> plain_word (d @ ''.'')"
  using normal_host [of d] host_plain by (auto simp: list_all_iff plain_char_def normal_name_def)

lemma readWireDomain_normal:
  assumes "normal_name d"
  shows "readWireDomain (pre @ EncodeDomainName ul d @ post) (length pre) =
    Inr (d @ ''.'', length pre + length d + 2)"
  using normal_name_good [OF assms] by (auto simp: readWireDomain_def Unpack_Encode_normal [OF assms])

section \<open>Round trips\<close>

definition rdata_roundtrips :: "dns_type \<Rightarrow> bytes \<Rightarrow> bool" where
  "rdata_roundtrips t wire \<longleftrightarrow>
     (\<forall>uu uq b32. \<exists>s. UnpackRData uu uq t wire = Inr s \<and> PackRData uu b32 t s = Inr wire)"

lemma roundtripsI:
  assumes "\<And>uu uq. UnpackRData uu uq t wire = Inr (f uu uq)"
    and "\<And>uu uq b32. \<exists>w. write_rdata uu b32 fresh_writer t (f uu uq) = Inr w \<and> emitted fresh_writer wire w"
  shows "rdata_roundtrips t wire"
  unfolding rdata_roundtrips_def
proof (intro allI)
  fix uu uq b32
  obtain w where "write_rdata uu b32 fresh_writer t (f uu uq) = Inr w" "emitted fresh_writer wire w"
    using assms(2) by blast
  then have "PackRData uu b32 t (f uu uq) = Inr wire" by (rule PackRData_emits)
  with assms(1) show "\<exists>s. UnpackRData uu uq t wire = Inr s \<and> PackRData uu b32 t s = Inr wire" by blast
qed

lemma roundtrip_A:
  assumes "length wire = 4"
  shows "rdata_roundtrips TypeA wire"
proof -
  obtain a b c d where wire: "wire = [a, b, c, d]"
    using assms by (auto simp: length_Suc_conv numeral_eq_Suc)
  show ?thesis
  proof (rule roundtripsI)
    show "UnpackRData uu uq TypeA wire = Inr (addr4_String wire)" for uu uq
      using put32_get32 [of a b c d] by (simp add: UnpackRData_def wire AddrFromSlice_def del: get32.simps)
    show "\<exists>w. write_rdata uu b32 fresh_writer TypeA (addr4_String wire) = Inr w \<and> emitted fresh_writer wire w"
      for uu b32
      using put_bytes_emits [of fresh_writer wire] put32_get32 [of a b c d]
      by (auto simp: write_rdata_def writeRDataA_def wire ParseAddr_addr4 simp del: get32.simps)
  qed
qed

lemma roundtrip_name:
  assumes "normal_name d" and "t \<in> {TypeCNAME, TypeNS, TypePTR}"
  shows "rdata_roundtrips t (EncodeDomainName ul d)"
proof (rule roundtripsI)
  show "UnpackRData uu uq t (EncodeDomainName ul d) = Inr (d @ ''.'')" for uu uq
    using readWireDomain_normal [OF assms(1), of "[]" ul "[]"] assms(2) by (auto simp: UnpackRData_def)
  have "length d \<le> 253" using assms(1) by (simp add: normal_name_def)
  then show "\<exists>w. write_rdata uu b32 fresh_writer t (d @ ''.'') = Inr w \<and>
      emitted fresh_writer (EncodeDomainName ul d) w" for uu b32
    using name_emits [OF assms(1), of True fresh_writer ul] assms(2)
    by (auto simp: write_rdata_def writeDomain_def)
qed

lemma roundtrip_MX:
  assumes "normal_name d"
  shows "rdata_roundtrips TypeMX (put16 p @ EncodeDomainName ul d)"
proof (rule roundtripsI)
  let ?s = "join_with CHR '' '' [FormatUint (unat p), d @ ''.'']"
  show "UnpackRData uu uq TypeMX (put16 p @ EncodeDomainName ul d) = Inr ?s" for uu uq
    using readWireDomain_normal [OF assms, of "put16 p" ul "[]"] length_Encode_normal [OF assms, of ul]
    by (simp add: UnpackRData_def sub_slice_def)
  have "Fields ?s = [FormatUint (unat p), d @ ''.'']"
    using normal_plain [OF assms] by (intro Fields_spaced) simp
  moreover have "ParseUint (FormatUint (unat p)) 16 = Some (unat p)"
    using unsigned_less [of p, where ?'a = nat] by simp
  moreover obtain w1 where w1: "put_bytes fresh_writer (put16 p) = Inr w1" "emitted fresh_writer (put16 p) w1"
    "w_table w1 = []"
    using put_bytes_emits [of fresh_writer "put16 p"] by auto
  moreover have "length d \<le> 253" using assms by (simp add: normal_name_def)
  then obtain w2 where "put_name (writeDomainCompressed w1 (d @ ''.'') True) = Inr w2"
    "emitted w1 (EncodeDomainName ul d) w2"
    using name_emits [OF assms, of True w1 ul] w1(2,3) by (auto simp: emitted_def)
  ultimately show "\<exists>w. write_rdata uu b32 fresh_writer TypeMX ?s = Inr w \<and>
      emitted fresh_writer (put16 p @ EncodeDomainName ul d) w" for uu b32
    using emitted_trans [OF w1(2)] by (auto simp: write_rdata_def writeRDataMX_def writeDomain_def)
qed

lemma roundtrip_SRV:
  assumes "normal_name d"
  shows "rdata_roundtrips TypeSRV (put16 p @ put16 q @ put16 r @ EncodeDomainName ul d)"
proof (rule roundtripsI)
  let ?h = "put16 p @ put16 q @ put16 r"
  let ?ws = "[FormatUint (unat p), FormatUint (unat q), FormatUint (unat r), d @ ''.'']"
  let ?s = "join_with CHR '' '' ?ws"
  show "UnpackRData uu uq TypeSRV (put16 p @ put16 q @ put16 r @ EncodeDomainName ul d) = Inr ?s" for uu uq
    using readWireDomain_normal [OF assms, of ?h ul "[]"] length_Encode_normal [OF assms, of ul]
    by (simp add: UnpackRData_def sub_slice_def)
  have "Fields ?s = ?ws"
    using normal_plain [OF assms] by (intro Fields_spaced) simp
  moreover have "ParseUint (FormatUint (unat v)) 16 = Some (unat v)" for v :: u16
    using unsigned_less [of v, where ?'a = nat] by simp
  moreover obtain w1 where w1: "put_bytes fresh_writer ?h = Inr w1" "emitted fresh_writer ?h w1"
    "w_table w1 = []"
    using put_bytes_emits [of fresh_writer ?h] by auto
  moreover have "length d \<le> 253" using assms by (simp add: normal_name_def)
  then obtain w2 where "put_name (writeDomainCompressed w1 (d @ ''.'') True) = Inr w2"
    "emitted w1 (EncodeDomainName ul d) w2"
    using name_emits [OF assms, of True w1 ul] w1(2,3) by (auto simp: emitted_def)
  ultimately show "\<exists>w. write_rdata uu b32 fresh_writer TypeSRV ?s = Inr w \<and>
      emitted fresh_writer (put16 p @ put16 q @ put16 r @ EncodeDomainName ul d) w" for uu b32
    using emitted_trans [OF w1(2)] by (auto simp: write_rdata_def writeRDataSRV_def writeDomain_def)
qed

lemma prefix_word_bytes: "put32 (prefix_word (unat (get16 [a, b])) (unat c) (unat d)) = [a, b, c, d]"
proof -
  have "prefix_word (unat (get16 [a, b])) (unat c) (unat d) = get32 [a, b, c, d]"
    unfolding prefix_word_def by (rule bit_word_eqI) (auto simp: bit_simps)
  then show ?thesis using put32_get32 by simp
qed

lemma digest_not_Nil: "bs \<noteq> [] \<Longrightarrow> ToUpper uu (hex_EncodeToString bs) \<noteq> []" "bs \<noteq> [] \<Longrightarrow> b64_EncodeToString bs \<noteq> []"
  using hex_decode_upper(1) [of uu bs] b64_roundtrip [of bs] by auto

lemma roundtrip_prefixed:
  assumes "5 \<le> length wire" "length wire \<le> 4096" and "t = TypeDS \<or> t = TypeDNSKEY"
  shows "rdata_roundtrips t wire"
proof -
  obtain a b c d bs where wire: "wire = a # b # c # d # bs" and bs: "bs \<noteq> []"
    using assms(1) by (auto simp: Suc_le_length_iff numeral_eq_Suc)
  let ?e = "\<lambda>uu. if t = TypeDS then ToUpper uu (hex_EncodeToString bs) else b64_EncodeToString bs"
  let ?ws = "\<lambda>uu. [FormatUint (unat (get16 [a, b])), FormatUint (unat c), FormatUint (unat d), ?e uu]"
  show ?thesis
  proof (rule roundtripsI)
    show "UnpackRData uu uq t wire = Inr (join_with CHR '' '' (?ws uu))" for uu uq
      using assms(3) by (auto simp: UnpackRData_def unpackDNSSECRData_def wire sub_slice_def simp del: get16.simps)
    fix uu b32
    have e: "plain_word (?e uu)"
      using hex_decode_upper(2) [of uu bs] b64_roundtrip [of bs] digest_not_Nil [OF bs] by auto
    have "Fields (join_with CHR '' '' (?ws uu)) = ?ws uu"
      by (rule Fields_spaced) (use e in simp)
    moreover have "ParseUint (FormatUint (unat v)) 16 = Some (unat v)" for v :: u16
      using unsigned_less [of v, where ?'a = nat] by simp
    moreover have "ParseUint (FormatUint (unat v)) 8 = Some (unat v)" for v :: byte
      using unsigned_less [of v, where ?'a = nat] by simp
    moreover obtain w where "put_bytes fresh_writer wire = Inr w" "emitted fresh_writer wire w"
      using put_bytes_emits [of fresh_writer wire] assms(2) by auto
    ultimately show "\<exists>w. write_rdata uu b32 fresh_writer t (join_with CHR '' '' (?ws uu)) = Inr w \<and>
        emitted fresh_writer wire w"
      using assms(3) hex_decode_upper(1) [of uu bs] b64_roundtrip [of bs]
      by (auto simp: write_rdata_def writeRDataDS_def writeRDataDNSKEY_def writePrefixedPayload_def
          prefix_word_bytes wire simp del: get16.simps join_with.simps)
  qed
qed

lemma roundtrip_ZONEMD:
  assumes "7 \<le> length wire" "length wire \<le> 4096"
  shows "rdata_roundtrips TypeZONEMD wire"
proof -
  obtain a b c d e f bs where wire: "wire = a # b # c # d # e # f # bs" and bs: "bs \<noteq> []"
    using assms(1) by (auto simp: Suc_le_length_iff numeral_eq_Suc)
  let ?ws = "\<lambda>uu. [FormatUint (unat (get32 [a, b, c, d])), FormatUint (unat e), FormatUint (unat f),
    ToUpper uu (hex_EncodeToString bs)]"
  show ?thesis
  proof (rule roundtripsI)
    show "UnpackRData uu uq TypeZONEMD wire = Inr (join_with CHR '' '' (?ws uu))" for uu uq
      by (simp add: UnpackRData_def unpackDNSSECRData_def wire sub_slice_def del: get32.simps)
    fix uu b32
    have "Fields (join_with CHR '' '' (?ws uu)) = ?ws uu"
      by (rule Fields_spaced) (use hex_decode_upper(2) [of uu bs] digest_not_Nil(1) [OF bs] in simp)
    moreover have "ParseUint (FormatUint (unat v)) 32 = Some (unat v)" for v :: u32
      using unsigned_less [of v, where ?'a = nat] by simp
    moreover have "ParseUint (FormatUint (unat v)) 8 = Some (unat v)" for v :: byte
      using unsigned_less [of v, where ?'a = nat] by simp
    moreover obtain w where "put_bytes fresh_writer wire = Inr w" "emitted fresh_writer wire w"
      using put_bytes_emits [of fresh_writer wire] assms(2) by auto
    ultimately show "\<exists>w. write_rdata uu b32 fresh_writer TypeZONEMD (join_with CHR '' '' (?ws uu)) = Inr w \<and>
        emitted fresh_writer wire w"
      using hex_decode_upper(1) [of uu bs] put32_get32 [of a b c d]
      by (simp add: write_rdata_def writeRDataZONEMD_def wire del: get32.simps join_with.simps)
  qed
qed

lemma length_FormatUint: "0 < k \<Longrightarrow> n < 10 ^ k \<Longrightarrow> length (FormatUint n) \<le> k"
proof (induction n arbitrary: k rule: FormatUint.induct)
  case (1 n)
  show ?case
  proof (cases "n < 10")
    case False
    then obtain j where k: "k = Suc j" "0 < j" using "1.prems" by (cases k; cases "k = 1") auto
    with "1.prems" have "n div 10 < 10 ^ j" by (simp add: less_mult_imp_div_less mult.commute)
    with "1.IH" [OF False, of j] k False show ?thesis by (simp add: FormatUint.simps [of n])
  qed (use "1.prems" in \<open>simp add: FormatUint.simps [of n]\<close>)
qed

lemma timestamp_FormatUint: "parseRRSIGTimestamp (FormatUint (unat v)) = Inr v"
proof -
  have v: "unat v < 2 ^ 32" using unsigned_less [of v, where ?'a = nat] by simp
  then have "length (FormatUint (unat v)) \<le> 10" by (intro length_FormatUint) simp_all
  with v show ?thesis by (simp add: parseRRSIGTimestamp_def)
qed

lemma Type_String_plain: "plain_word (Type_String t)"
proof (cases "map_of type_mnemonics t")
  case None
  then show ?thesis by (simp add: Type_String_def plain_char_def)
next
  case (Some s)
  then have "s \<in> snd ` set type_mnemonics" by (auto dest!: map_of_SomeD intro: rev_image_eqI)
  moreover have "list_all plain_word (map snd type_mnemonics)"
    by (simp add: type_mnemonics_def plain_char_def)
  ultimately show ?thesis using Some by (auto simp: Type_String_def list_all_iff)
qed

lemma roundtrip_RRSIG:
  assumes "normal_name d" and "sig \<noteq> []" and "20 + length d + length sig \<le> 4096"
  shows "rdata_roundtrips TypeRRSIG ((put16 ty @ [alg, lab] @ put32 ttl @ put32 ex @ put32 inc @ put16 tag)
    @ EncodeDomainName ul d @ sig)"
proof (rule roundtripsI)
  let ?h = "put16 ty @ [alg, lab] @ put32 ttl @ put32 ex @ put32 inc @ put16 tag"
  let ?ws = "[Type_String ty, FormatUint (unat alg), FormatUint (unat lab), FormatUint (unat ttl),
    FormatUint (unat ex), FormatUint (unat inc), FormatUint (unat tag), d @ ''.'', b64_EncodeToString sig]"
  let ?s = "join_with CHR '' '' ?ws"
  have "drop (length ?h + length (EncodeDomainName ul d)) (?h @ EncodeDomainName ul d @ sig) = sig"
    by (simp only: drop_append length_append diff_self_eq_0) simp
  then have e: "drop (length ?h + length d + 2) (?h @ EncodeDomainName ul d @ sig) = sig"
    using length_Encode_normal [OF assms(1), of ul] by (simp only: add.assoc)
  define wire where "wire = ?h @ EncodeDomainName ul d @ sig"
  have h: "wire = [ucast (drop_bit 8 ty), ucast ty, alg, lab] @ put32 ttl @ put32 ex @ put32 inc @ put16 tag
      @ EncodeDomainName ul d @ sig" by (simp add: wire_def put16_def)
  have "length ?h = 18" by simp
  then have r: "readWireDomain wire 18 = Inr (d @ ''.'', 20 + length d)" "drop (20 + length d) wire = sig"
    using readWireDomain_normal [OF assms(1), of ?h ul sig] e unfolding wire_def
    by (simp_all only: add.commute add.left_commute) simp_all
  have "sub_slice wire 0 2 = put16 ty" "wire ! 2 = alg" "wire ! 3 = lab" "18 \<le> length wire"
    "sub_slice wire 4 8 = put32 ttl" "sub_slice wire 8 12 = put32 ex" "sub_slice wire 12 16 = put32 inc"
    "sub_slice wire 16 18 = put16 tag"
    by (simp_all add: h sub_slice_def put16_def [of ty])
  then show "UnpackRData uu uq TypeRRSIG (?h @ EncodeDomainName ul d @ sig) = Inr ?s" for uu uq
    using r unfolding wire_def [symmetric] by (simp add: UnpackRData_def unpackDNSSECRData_def)
  have "Fields ?s = ?ws"
    using normal_plain [OF assms(1)] b64_roundtrip [of sig] digest_not_Nil(2) [OF assms(2)] Type_String_plain [of ty]
    by (intro Fields_spaced) simp
  moreover have "ParseUint (FormatUint (unat v)) 16 = Some (unat v)" for v :: u16
    using unsigned_less [of v, where ?'a = nat] by simp
  moreover have "ParseUint (FormatUint (unat v)) 32 = Some (unat v)" for v :: u32
    using unsigned_less [of v, where ?'a = nat] by simp
  moreover have "ParseUint (FormatUint (unat v)) 8 = Some (unat v)" for v :: byte
    using unsigned_less [of v, where ?'a = nat] by simp
  moreover obtain w1 where w1: "put_bytes fresh_writer ?h = Inr w1" "emitted fresh_writer ?h w1"
    "w_table w1 = []"
    using put_bytes_emits [of fresh_writer ?h] by auto
  moreover obtain w2 where w2: "put_name (writeDomainCompressed w1 (d @ ''.'') False) = Inr w2"
    "emitted w1 (EncodeDomainName ul d) w2"
    using name_emits [OF assms(1), of False w1 ul] w1(2,3) assms(3) by (auto simp: emitted_def)
  moreover obtain w3 where "put_bytes w2 sig = Inr w3" "emitted w2 sig w3"
    using put_bytes_emits [of w2 sig] w1(2) w2(2) assms(3) length_Encode_normal [OF assms(1), of ul]
    by (auto simp: emitted_def)
  ultimately show "\<exists>w. write_rdata uu b32 fresh_writer TypeRRSIG ?s = Inr w \<and>
      emitted fresh_writer (?h @ EncodeDomainName ul d @ sig) w" for uu b32
    using emitted_trans [OF w1(2) emitted_trans [OF w2(2)]] b64_roundtrip [of sig]
    by (auto simp: write_rdata_def writeRDataRRSIG_def writeUncompressedDomain_def
        type_mnemonic_roundtrip timestamp_FormatUint simp del: join_with.simps)
qed

lemma string_of_empty: "string_of bs = [] \<longleftrightarrow> bs = []"
  by (simp add: string_of_def)

lemma roundtrip_TXT:
  assumes "length bs \<le> 255"
  shows "rdata_roundtrips TypeTXT (word_of_nat (length bs) # bs)"
proof (rule roundtripsI)
  let ?wire = "word_of_nat (length bs) # bs"
  have u: "unat (word_of_nat (length bs) :: byte) = length bs" using assms by (simp add: unat_of_nat)
  have "txt_unpack ?wire 0 [] = txt_unpack ?wire (1 + length bs) bs"
    by (subst txt_unpack.simps) (simp add: u sub_slice_def Let_def)
  also have "\<dots> = Inr bs" by (subst txt_unpack.simps) simp
  finally show "UnpackRData uu uq TypeTXT ?wire = Inr (string_of bs)" for uu uq
    by (simp add: UnpackRData_def)
  obtain w where "put_bytes fresh_writer ?wire = Inr w" "emitted fresh_writer ?wire w"
    using put_bytes_emits [of fresh_writer ?wire] assms by auto
  then show "\<exists>w. write_rdata uu b32 fresh_writer TypeTXT (string_of bs) = Inr w \<and> emitted fresh_writer ?wire w"
    for uu b32
    using assms string_of_empty [of bs] by (cases "bs = []") (auto simp: write_rdata_def writeRDataTXT_def txt_chunks.simps)
qed

section \<open>The two encoders of type bit maps agree\<close>

text \<open>While a block is open the buffer holds what came before it, the block number, a length octet
  not yet written, the bit map so far and zeros up to 32 bytes.\<close>

definition open_block :: "bytes \<Rightarrow> byte \<Rightarrow> byte \<Rightarrow> bytes \<Rightarrow> bytes \<Rightarrow> bytes" where
  "open_block A w x bm rest = A @ w # x # bm @ replicate (32 - length bm) 0 @ rest"

lemma grow_padded:
  "i < 32 \<Longrightarrow> length bm \<le> 32 \<Longrightarrow>
   grow i bm @ replicate (32 - length (grow i bm)) 0 = bm @ replicate (32 - length bm) 0"
proof (cases "i \<ge> length bm")
  case True
  assume i: "i < 32"
  have "grow i bm = bm @ replicate (Suc i - length bm) 0"
    using True by (simp add: grow_def copy_at_def del: replicate_Suc)
  moreover have "replicate (Suc i - length bm) (0 :: byte) @ replicate (32 - Suc i) 0 = replicate (32 - length bm) 0"
    using True i by (simp add: replicate_add [symmetric] del: replicate_Suc)
  ultimately show ?thesis using True by (simp add: length_grow max_def del: replicate_Suc)
qed (simp add: grow_def)

lemma or_bit_open:
  assumes "n < 256" "length bm \<le> 32"
  shows "or_bit (open_block A w x bm rest) (length A) n = open_block A w x (mark n bm) rest"
proof -
  let ?i = "n div 8" and ?g = "grow (n div 8) bm"
  have i: "?i < 32" using assms(1) by simp
  have "?i < length ?g" by (simp add: length_grow)
  then have o: "or_bit ((A @ [w, x]) @ ?g @ Z) (length A) n = (A @ [w, x]) @ mark n bm @ Z" for Z
    by (simp add: or_bit_def bit_mask_def mark_def list_update_append nth_append)
  have e: "bm @ replicate (32 - length bm) 0 @ rest = ?g @ replicate (32 - length ?g) 0 @ rest"
    using grow_padded [OF i assms(2)] by (metis append.assoc)
  have "open_block A w x bm rest = (A @ [w, x]) @ ?g @ replicate (32 - length ?g) 0 @ rest"
    unfolding open_block_def e by simp
  with o [of "replicate (32 - length ?g) 0 @ rest"] show ?thesis
    by (simp only:) (simp add: open_block_def length_mark length_grow)
qed

lemma new_block:
  assumes "34 \<le> length R" "n < 256"
  shows "or_bit (copy_at ((A @ R)[length A := b]) (length A + 2) (replicate 32 0)) (length A) n =
    open_block A b (R ! 1) (mark n []) (drop 34 R)"
proof -
  obtain r x R' where R: "R = r # x # R'" using assms(1) by (auto simp: Suc_le_length_iff numeral_eq_Suc)
  have "copy_at ((A @ R)[length A := b]) (length A + 2) (replicate 32 0) = open_block A b x [] (drop 32 R')"
    using assms(1) by (simp add: R copy_at_def open_block_def list_update_append)
  then show ?thesis using or_bit_open [OF assms(2), of "[]" A b x] by (simp add: R)
qed

lemma close_open:
  "close_block (open_block A w x bm rest) (length A) m =
     (A @ w # word_of_nat (m div 8 + 1) # bm @ replicate (32 - length bm) 0 @ rest, length A + 2 + (m div 8 + 1))"
  by (simp add: close_block_def open_block_def list_update_append)

definition window_bytes :: "(byte \<times> bytes) list \<Rightarrow> bytes" where
  "window_bytes ws = concat (map (\<lambda>(w, bm). w # word_of_nat (length bm) # bm) ws)"

lemma window_bytes_simps [simp]:
  "window_bytes [] = []" "window_bytes (ws @ [(w, bm)]) = window_bytes ws @ w # word_of_nat (length bm) # bm"
  by (simp_all add: window_bytes_def)

lemma insert_last:
  assumes "window t \<notin> fst ` set ws"
  shows "window_insert t (ws @ [(window t, bm)]) = ws @ [(window t, mark (unat t mod 256) bm)]"
    and "window_insert t ws = ws @ [(window t, mark (unat t mod 256) [])]"
proof -
  have n: "map_of ws (window t) = None" using assms by (simp add: map_of_eq_None_iff)
  have u: "window t \<notin> fst ` set us \<Longrightarrow> AList.update (window t) v (us @ vs) = us @ AList.update (window t) v vs" for us vs v
    by (induction us) auto
  show "window_insert t (ws @ [(window t, bm)]) = ws @ [(window t, mark (unat t mod 256) bm)]"
    using u [OF assms, of _ "[(window t, bm)]"] n by (simp add: window_insert_mark map_add_Some_iff map_add_def)
  show "window_insert t ws = ws @ [(window t, mark (unat t mod 256) [])]"
    using u [OF assms, of _ "[]"] n by (simp add: window_insert_mark)
qed

text \<open>The windows in the order the loop meets them on sorted types.\<close>

definition ascending :: "(byte \<times> bytes) list \<Rightarrow> bool" where
  "ascending ws \<longleftrightarrow> sorted_wrt (<) (map fst ws)"

lemma ascending_bytes:
  assumes "ascending (fold window_insert ts [])"
  shows "encodeWindowedBitmaps ts = window_bytes (fold window_insert ts [])"
proof -
  define ws where "ws = fold window_insert ts []"
  have a: "sorted_wrt (<) (map fst ws)" using assms by (simp add: ascending_def ws_def)
  then have d: "distinct (map fst ws)" and s: "sorted (map fst ws)"
    using strict_sorted_iff by blast+
  have "map (\<lambda>w. [w, word_of_nat (length (the (map_of ws w)))] @ the (map_of ws w)) (map fst ws)
      = map (\<lambda>(w, bm). w # word_of_nat (length bm) # bm) ws"
    using d by auto
  then show ?thesis
    unfolding encodeWindowedBitmaps_def window_bytes_def Let_def ws_def [symmetric] sorted_sort_id [OF s]
    by (simp only:)
qed

lemma window_less: "unat t div 256 < unat t' div 256 \<Longrightarrow> window t < window t'"
  using window_of [of t] window_of [of t'] by (simp add: word_less_nat_alt)

lemma window_block: "word_of_nat (unat t div 256) = window t"
  by (simp add: window_of [symmetric])

text \<open>The loop with an open block.  Every block takes at most 34 bytes, so this much room is enough.\<close>

lemma bitmap_loop_open:
  fixes w :: byte
  assumes "sorted (map unat (t0 # ts))" and "w = window t0" and "length bm = m div 8 + 1" and "m < 256"
    and "ascending (ws @ [(w, bm)])" and "34 * length ts \<le> length rest"
  shows "\<exists>buf e. bitmap_loop (open_block (base @ window_bytes ws) w x bm rest) off
      (Some (unat t0 div 256, length (base @ window_bytes ws), m)) ts = Inr (buf, e) \<and>
    take e buf = base @ window_bytes (fold window_insert ts (ws @ [(w, bm)])) \<and> e \<le> length buf \<and>
    ascending (fold window_insert ts (ws @ [(w, bm)]))"
  using assms
proof (induction ts arbitrary: t0 w bm m ws x off rest)
  case Nil
  then have "m div 8 < 32" by (simp add: less_mult_imp_div_less)
  with Nil show ?case
    using close_open [of "base @ window_bytes ws" w x bm rest m] by (simp add: numeral_3_eq_3)
next
  case (Cons t ts)
  let ?A = "base @ window_bytes ws" and ?n = "unat t mod 256"
  have len: "length bm \<le> 32" using Cons.prems(3,4) by simp
  have le: "unat t0 div 256 \<le> unat t div 256" using Cons.prems(1) by (simp add: div_le_mono)
  have fresh: "w \<notin> fst ` set ws"
    using Cons.prems(5) by (auto simp: ascending_def sorted_wrt_append)
  show ?case
  proof (cases "unat t div 256 = unat t0 div 256")
    case True
    then have w: "window t = w" using Cons.prems(2) window_block [of t] window_block [of t0] by simp
    have "or_bit (open_block ?A w x bm rest) (length ?A) ?n = open_block ?A w x (mark ?n bm) rest"
      by (rule or_bit_open) (simp_all add: len)
    moreover have "length (mark ?n bm) = max m ?n div 8 + 1"
      by (cases "m \<le> ?n") (simp_all add: length_mark Cons.prems(3) max_absorb1 max_absorb2 div_le_mono)
    ultimately show ?thesis
      using Cons.IH [of t w "mark ?n bm" "max m ?n" ws rest x off] Cons.prems w insert_last(1) [of t ws bm] fresh True
      by (simp add: ascending_def Let_def)
  next
    case False
    then have lt: "w < window t" using le window_less Cons.prems(2) by simp
    let ?ws = "ws @ [(w, bm)]" and ?R = "replicate (32 - length bm) 0 @ rest"
    let ?B = "base @ window_bytes ?ws"
    have asc: "ascending (?ws @ [(window t, mark ?n [])])"
      using Cons.prems(5) lt by (auto simp: ascending_def sorted_wrt_append)
    then have nf: "window t \<notin> fst ` set ?ws" by (auto simp: ascending_def sorted_wrt_append)
    have c: "close_block (open_block ?A w x bm rest) (length ?A) m = (?B @ ?R, length ?B)"
      using Cons.prems(3) close_open [of ?A w x bm rest m] by simp
    have room: "34 \<le> length ?R" "34 * length ts \<le> length (drop 34 ?R)" using Cons.prems(6) by simp_all
    have "bitmap_loop (open_block ?A w x bm rest) off (Some (unat t0 div 256, length ?A, m)) (t # ts) =
        bitmap_loop (open_block ?B (window t) (?R ! 1) (mark ?n []) (drop 34 ?R)) (length ?B)
          (Some (unat t div 256, length ?B, ?n)) ts"
      using False room(1) new_block [OF room(1), of ?n ?B "window t"]
      unfolding bitmap_loop.simps Let_def option.case prod.case c by (simp add: window_block)
    moreover have "length (mark ?n []) = ?n div 8 + 1" by (simp add: length_mark)
    ultimately show ?thesis
      using Cons.IH [of t "window t" "mark ?n []" ?n ?ws "drop 34 ?R" "?R ! 1" "length ?B"]
        Cons.prems(1) room(2) asc insert_last(2) [OF nf] by simp
  qed
qed

lemma bitmap_loop_windows:
  assumes "sorted (map unat ts)" and "off + 34 * length ts \<le> length buf"
  shows "\<exists>buf' e. bitmap_loop buf off None ts = Inr (buf', e) \<and>
    take e buf' = take off buf @ encodeWindowedBitmaps ts \<and> e \<le> length buf'"
proof (cases ts)
  case Nil
  then show ?thesis using assms(2) by (auto simp: encodeWindowedBitmaps_def)
next
  case (Cons t us)
  let ?A = "take off buf" and ?R = "drop off buf" and ?n = "unat t mod 256"
  have room: "34 \<le> length ?R" "34 * length us \<le> length (drop 34 ?R)" "off + 34 \<le> length buf"
    using assms(2) Cons by simp_all
  have A: "length ?A = off" using assms(2) by simp
  have "bitmap_loop buf off None ts =
      bitmap_loop (open_block (?A @ window_bytes []) (window t) (?R ! 1) (mark ?n []) (drop 34 ?R)) off
        (Some (unat t div 256, length (?A @ window_bytes []), ?n)) us"
    using room(3) new_block [OF room(1), of ?n ?A "window t"] A by (simp add: Cons window_block Let_def)
  moreover have i: "window_insert t [] = [(window t, mark ?n [])]" using insert_last(2) [of t "[]"] by simp
  moreover have "length (mark ?n []) = ?n div 8 + 1" by (simp add: length_mark)
  ultimately obtain buf' e where "bitmap_loop buf off None ts = Inr (buf', e)" "e \<le> length buf'"
    "take e buf' = ?A @ window_bytes (fold window_insert ts [])" "ascending (fold window_insert ts [])"
    using bitmap_loop_open [of t us "window t" "mark ?n []" ?n "[]" "drop 34 ?R" ?A "?R ! 1" off]
      assms(1) room(2) Cons by (auto simp: ascending_def)
  then show ?thesis using ascending_bytes by auto
qed

lemma sorted_types: "sorted (map unat (sort (ts :: u16 list)))"
  by (simp add: sorted_map word_le_nat_alt [symmetric])

lemma encodeTypeBitMaps_windows:
  assumes "parse_types uu strs = Inr ts" and "strs \<noteq> []" and "off + 34 * length strs \<le> length buf"
  shows "\<exists>buf'. encodeTypeBitMaps uu buf off strs = Inr (buf', length (encodeWindowedBitmaps (sort ts))) \<and>
    take (off + length (encodeWindowedBitmaps (sort ts))) buf' = take off buf @ encodeWindowedBitmaps (sort ts) \<and>
    off + length (encodeWindowedBitmaps (sort ts)) \<le> length buf'"
proof -
  have "parse_types uu strs = Inr ts \<Longrightarrow> length ts = length strs" for strs ts
    by (induction strs arbitrary: ts) (auto split: sum.splits simp: res_bind_eq_Inr)
  then have l: "length ts = length strs" using assms(1) by simp
  obtain buf' e where b: "bitmap_loop buf off None (sort ts) = Inr (buf', e)"
    "take e buf' = take off buf @ encodeWindowedBitmaps (sort ts)" "e \<le> length buf'"
    using bitmap_loop_windows [OF sorted_types, of off ts buf] assms(3) l by auto
  have "length (take e buf') = length (take off buf @ encodeWindowedBitmaps (sort ts))" by (simp only: b(2))
  then have "e = off + length (encodeWindowedBitmaps (sort ts))" using assms(3) b(3) by simp
  then show ?thesis using b assms(1,2) by (simp add: encodeTypeBitMaps_def)
qed

section \<open>Compression inside record data\<close>

text \<open>Writing a name only appends to the compression table, and only its own suffixes.\<close>

lemma insert_appends:
  "\<exists>ext. compressor_insert c s off = c @ ext \<and> (\<forall>e \<in> set ext. length (fst e) \<le> length s)"
  by (auto simp: compressor_insert_def)

lemma write_suffix_appends:
  "write_suffix w s c = (None, w') \<Longrightarrow>
   \<exists>ext. w_table w' = w_table w @ ext \<and> (\<forall>e \<in> set ext. length (fst e) \<le> length s)"
proof (induction w s c rule: write_suffix.induct)
  case (1 w s c)
  show ?case
  proof (cases "if c then compressor_lookup (w_table w) s else None")
    case (Some p)
    with "1.prems" show ?thesis by (subst (asm) write_suffix.simps) (auto split: if_splits)
  next
    case None
    note lookup = None
    show ?thesis
    proof (cases "IndexByte s CHR ''.''")
      case None
      with lookup "1.prems" have "writeFinalLabel w s c = Inr w'"
        by (subst (asm) write_suffix.simps) (auto split: sum.splits)
      then show ?thesis
        using insert_appends [of "w_table w" s "w_offset w"]
        by (auto simp: writeFinalLabel_def Let_def split: if_splits)
    next
      case (Some i)
      then have "i < length s" by (simp add: IndexByte_Some)
      with lookup Some "1.prems" obtain w1 where w1: "writeIntermediateLabel w s (take i s) c = Inr w1"
        by (subst (asm) write_suffix.simps) (auto split: sum.splits)
      then obtain x where x: "w_table w1 = w_table w @ x" "\<forall>e \<in> set x. length (fst e) \<le> length s"
        using insert_appends [of "w_table w" s "w_offset w"]
        by (auto simp: writeIntermediateLabel_def Let_def split: if_splits)
      show ?thesis
      proof (cases "drop (i + 1) s = []")
        case True
        with lookup Some w1 "1.prems" have "write_zero w1 = Inr w'"
          by (subst (asm) write_suffix.simps) (auto split: sum.splits)
        then show ?thesis using x by (auto simp: write_zero_def split: if_splits)
      next
        case False
        with lookup Some w1 "1.prems" have "write_suffix w1 (drop (i + 1) s) c = (None, w')"
          by (subst (asm) write_suffix.simps) (auto simp: Let_def)
        with "1.IH" [OF lookup Some w1 refl False] x \<open>i < length s\<close> show ?thesis by fastforce
      qed
    qed
  qed
qed

lemma write_suffix_table:
  assumes w: "write_suffix w s True = (None, w')" and lookup: "compressor_lookup (w_table w) s = None"
    and i: "IndexByte s CHR ''.'' = Some i" "i \<noteq> 0"
  shows "\<exists>ext. w_table w' = compressor_insert (w_table w) s (w_offset w) @ ext \<and>
    (\<forall>e \<in> set ext. length (fst e) \<le> length s)"
proof -
  have ne: "take i s \<noteq> []" using i IndexByte_Some [of s "CHR ''.''" i] by auto
  from w lookup i(1) obtain w1 where w1: "writeIntermediateLabel w s (take i s) True = Inr w1"
    by (subst (asm) write_suffix.simps) (auto split: sum.splits)
  note t = intermediate_label(6) [OF w1 ne]
  show ?thesis
  proof (cases "drop (i + 1) s = []")
    case True
    with lookup i(1) w1 w have "write_zero w1 = Inr w'"
      by (subst (asm) write_suffix.simps) (auto split: sum.splits)
    then show ?thesis using t by (auto simp: write_zero_def split: if_splits)
  next
    case False
    with lookup i(1) w1 w have "write_suffix w1 (drop (i + 1) s) True = (None, w')"
      by (subst (asm) write_suffix.simps) (auto simp: Let_def)
    from write_suffix_appends [OF this] t show ?thesis by fastforce
  qed
qed

lemma table_other_length: "\<forall>e \<in> set c. length (fst e) \<noteq> length s \<Longrightarrow> compressor_lookup c s = None"
proof -
  assume a: "\<forall>e \<in> set c. length (fst e) \<noteq> length s"
  have "table_find c s = None" using a by (induction c s rule: table_find.induct) (auto simp: equalFoldASCII_def)
  then show ?thesis by (simp add: compressor_lookup_def)
qed

lemma equalFold_refl: "equalFoldASCII s s"
  by (simp add: equalFoldASCII_def list_all2_same)

text \<open>A name whose tail is the name written at the start of the record data.\<close>

lemma pointer_emits:
  assumes "wire_label l" and "w_table w = (s, 0) # ext" and "\<forall>e \<in> set (w_table w). length (fst e) \<le> length s"
    and "s \<noteq> []" "s \<noteq> ''.''" and "w_offset w + length (encode_label l) + 2 \<le> length (w_buf w)"
  shows "\<exists>w'. write_suffix w (l @ CHR ''.'' # s) True = (None, w') \<and> emitted w (encode_label l @ [0xC0, 0]) w'"
proof -
  define s' where "s' = l @ CHR ''.'' # s"
  have i: "IndexByte s' CHR ''.'' = Some (length l)" "take (length l) s' = l" "drop (length l + 1) s' = s"
    using assms(1) by (simp_all add: s'_def wire_label_def IndexByte_append)
  have "\<forall>e \<in> set (w_table w). length (fst e) \<noteq> length s'" using assms(3) by (auto simp: s'_def)
  then have lookup: "compressor_lookup (w_table w) s' = None" by (rule table_other_length)
  obtain w1 where w1: "writeIntermediateLabel w s' l True = Inr w1" "emitted w (encode_label l) w1"
    "w_table w1 = compressor_insert (w_table w) s' (w_offset w)"
    using label_emits [OF assms(1), of w s' True] assms(6) by auto
  have found: "compressor_lookup (w_table w1) s = Some 0"
    using insert_appends [of "w_table w" s' "w_offset w"] assms(2,4,5) w1(3) equalFold_refl [of s]
    by (auto simp: compressor_lookup_def)
  let ?w = "w1\<lparr>w_buf := put16_at (w_buf w1) (w_offset w1) 0xC000, w_offset := w_offset w1 + 2\<rparr>"
  have room: "w_offset w1 + 2 \<le> length (w_buf w1)" using assms(6) w1(2) by (simp add: emitted_def)
  have "write_suffix w s' True = write_suffix w1 s True"
    using i lookup w1(1) assms(4) by (subst write_suffix.simps) (simp only: option.case Let_def sum.case if_True if_False)
  also have "\<dots> = (None, ?w)"
    using found room by (subst write_suffix.simps) simp
  finally have "write_suffix w s' True = (None, ?w)" .
  moreover have "put16 0xC000 = [0xC0, 0]" by (simp add: put16_def)
  then have "emitted w1 [0xC0, 0] ?w"
    using room by (simp add: emitted_def put16_at_def copy_at_fit)
  ultimately show ?thesis using emitted_trans [OF w1(2)] unfolding s'_def by blast
qed

lemma name_at_Unpack:
  assumes "name_at p off ls j nx" "j \<le> maxJumps" "wire_length ls \<le> MaxNameLen"
  shows "UnpackDomainName p off = Inr (join_with CHR ''.'' (map string_of ls), nx)"
  using assms decode_loop_iff [OF buffered_new, of False off off p "join_with CHR ''.'' (map string_of ls)" nx]
  by (auto simp: UnpackDomainName_def reads_def new_decompressor_def)

lemma SOA_packed:
  assumes d: "normal_name d" and l: "wire_label l" "list_all plain_char l" and "length l + length d \<le> 253"
  shows "PackRData uu b32 TypeSOA (join_with CHR '' '' [d @ ''.'', l @ CHR ''.'' # d @ ''.'', FormatUint (unat (n0 :: u32)),
      FormatUint (unat (n1 :: u32)), FormatUint (unat (n2 :: u32)), FormatUint (unat (n3 :: u32)), FormatUint (unat (n4 :: u32))]) =
    Inr (EncodeDomainName ul d @ (encode_label l @ [0xC0, 0]) @ put32 n0 @ put32 n1 @ put32 n2 @ put32 n3 @ put32 n4)"
    (is "PackRData _ _ _ (join_with _ ?ws) = Inr (?e @ _ @ ?n)")
proof -
  let ?s = "d @ ''.''"
  have ne: "d \<noteq> []" "length d \<le> 253" using d normal_name_good [OF d] by (auto simp: normal_name_def)
  have "Fields (join_with CHR '' '' ?ws) = ?ws"
    using normal_plain [OF d] l by (intro Fields_spaced) (auto simp: wire_label_def plain_char_def)
  moreover have "ParseUint (FormatUint (unat v)) 32 = Some (unat v)" for v :: u32
    using unsigned_less [of v, where ?'a = nat] by simp
  moreover obtain w1 where w1: "put_name (writeDomain fresh_writer ?s) = Inr w1" "emitted fresh_writer ?e w1"
    using name_emits [OF d, of True fresh_writer ul] ne by (auto simp: writeDomain_def)
  from w1(1) ne have ws: "write_suffix fresh_writer ?s True = (None, w1)"
    by (auto simp: put_name_def writeDomain_def writeDomainCompressed_def split: prod.splits option.splits)
  obtain i where "IndexByte ?s CHR ''.'' = Some i" "i \<noteq> 0"
  proof -
    obtain k ks where k: "split_on CHR ''.'' d = k # ks" by (cases "split_on CHR ''.'' d") simp_all
    then have "wire_label k" using normal_wire_labels [OF d] by simp
    moreover have "?s = k @ CHR ''.'' # dotted_text ks" using dotted_text_split [of d] k by simp
    ultimately show thesis using that [of "length k"] by (simp add: IndexByte_append wire_label_def)
  qed
  from write_suffix_table [OF ws _ this] ne obtain ext where t: "w_table w1 = (?s, 0) # ext"
    "\<forall>e \<in> set (w_table w1). length (fst e) \<le> length ?s"
    by (auto simp: compressor_lookup_def compressor_insert_def)
  have len: "length ?e = length d + 2" by (rule length_Encode_normal [OF d])
  have "length (encode_label l) = length l + 1" using l(1) by (simp add: wire_label_def encode_label_good(1))
  then obtain w2 where w2: "write_suffix w1 (l @ CHR ''.'' # ?s) True = (None, w2)"
    "emitted w1 (encode_label l @ [0xC0, 0]) w2"
    using pointer_emits [OF l(1) t] ne assms(4) w1(2) len by (auto simp: emitted_def)
  moreover have "put_name (writeDomain w1 (l @ CHR ''.'' # ?s)) = Inr w2"
    using w2(1) assms(4) l(1) by (auto simp: put_name_def writeDomain_def writeDomainCompressed_def wire_label_def)
  moreover obtain w3 where "put_bytes w2 ?n = Inr w3" "emitted w2 ?n w3"
    using put_bytes_emits [of w2 ?n] w1(2) w2(2) assms(4) len \<open>length (encode_label l) = length l + 1\<close>
    by (auto simp: emitted_def)
  ultimately show ?thesis
    using w1 emitted_trans [OF w1(2) emitted_trans [OF w2(2)]]
    by (intro PackRData_emits [of _ _ _ _ w3]) (simp_all add: write_rdata_def writeRDataSOA_def del: join_with.simps)
qed

lemma label_pointer_at:
  assumes "P = Q @ (encode_label l @ [0xC0, 0]) @ R" "Q \<noteq> []" "wire_label l" and "name_at P 0 ls j e"
  shows "name_at P (length Q) (bytes_of l # ls) (Suc j) (length Q + length l + 3)"
proof -
  have l: "l \<noteq> []" "length l \<le> MaxLabelLen" using assms(3) by (simp_all add: wire_label_def)
  note g = encode_label_good [OF l]
  let ?o = "length Q + 1 + length l"
  have P: "P = (Q @ word_of_nat (length l) # bytes_of l) @ [0xC0, 0] @ R" by (simp add: assms(1) g(1))
  have "P ! ?o = 0xC0" "sub_slice P ?o (?o + 2) = [0xC0, 0]"
    by (simp_all add: P nth_append sub_slice_def)
  moreover have "get16 [0xC0, 0] AND 0x3FFF = 0" by code_simp
  ultimately have "name_at P ?o ls (Suc j) (?o + 2)"
    using assms(4) by (intro name_pointer) (simp_all add: pointer_target_def P)
  moreover have "P ! length Q = word_of_nat (length l)"
    "sub_slice P (length Q + 1) (length Q + 1 + length l) = bytes_of l"
    by (simp_all add: P sub_slice_def nth_append)
  ultimately show ?thesis
    using name_label [of "length Q" P ls "Suc j" "?o + 2"] g(2,3) l(2) by (simp add: P numeral_3_eq_3)
qed

lemma join_labels:
  "join_with CHR ''.'' (map string_of (bytes_of l # map bytes_of (split_on CHR ''.'' d))) = l @ CHR ''.'' # d"
proof -
  obtain k ks where k: "split_on CHR ''.'' d = k # ks" by (cases "split_on CHR ''.'' d") simp_all
  then have "join_with CHR ''.'' (k # ks) = d" using join_with_split_on [of "CHR ''.''" d] by simp
  then show ?thesis by (simp add: k comp_def)
qed

lemma normal_mx: "normal_name ''mx''"
  by (simp add: normal_name_def good_label_def is_label_char_def lower_ascii_def lower_char_def is_upper_def)

section \<open>Properties\<close>

text \<open>Record data in canonical wire form: names as the encoder writes valid host names, uncompressed;
  the other fields free, and no empty digest, key or signature.\<close>

definition canonical_rdata :: "dns_type \<Rightarrow> bytes \<Rightarrow> bool" where
  "canonical_rdata t wire \<longleftrightarrow>
     t = TypeA \<and> length wire = 4 \<or>
     t = TypeTXT \<and> (\<exists>bs. length bs \<le> 255 \<and> wire = word_of_nat (length bs) # bs) \<or>
     t \<in> {TypeCNAME, TypeNS, TypePTR} \<and> (\<exists>d. normal_name d \<and> wire = EncodeDomainName id d) \<or>
     t = TypeMX \<and> (\<exists>p d. normal_name d \<and> wire = put16 p @ EncodeDomainName id d) \<or>
     t = TypeSRV \<and> (\<exists>p q r d. normal_name d \<and> wire = put16 p @ put16 q @ put16 r @ EncodeDomainName id d) \<or>
     (t = TypeDS \<or> t = TypeDNSKEY) \<and> 5 \<le> length wire \<and> length wire \<le> 4096 \<or>
     t = TypeZONEMD \<and> 7 \<le> length wire \<and> length wire \<le> 4096 \<or>
     t = TypeRRSIG \<and> (\<exists>ty alg lab ttl ex inc tag d sig. normal_name d \<and> sig \<noteq> [] \<and>
       20 + length d + length sig \<le> 4096 \<and>
       wire = (put16 ty @ [alg, lab] @ put32 ttl @ put32 ex @ put32 inc @ put16 tag) @ EncodeDomainName id d @ sig)"

lemma canonical_roundtrips: "canonical_rdata t wire \<Longrightarrow> rdata_roundtrips t wire"
  unfolding canonical_rdata_def
  using roundtrip_A roundtrip_TXT roundtrip_name roundtrip_MX roundtrip_SRV roundtrip_prefixed roundtrip_ZONEMD
    roundtrip_RRSIG by (elim disjE conjE exE) (simp_all only: simp_thms)

text \<open>C20: record data survives the presentation format.  Canonical wire data of an A, TXT (one chunk),
  CNAME, NS, PTR, MX, SRV, DS, DNSKEY, ZONEMD or RRSIG record is unpacked to a text, and packing
  that text gives the same bytes.\<close>

theorem rdata_roundtrip:
  assumes "canonical_rdata t wire"
  shows "\<exists>s. UnpackRData uu uq t wire = Inr s \<and> PackRData uu b32 t s = Inr wire"
  using canonical_roundtrips [OF assms] by (simp add: rdata_roundtrips_def)

theorem rdata_roundtrip_witness:
  "\<exists>s. UnpackRData id id TypeMX (put16 10 @ EncodeDomainName id ''mx'') = Inr s \<and>
     PackRData id (\<lambda>_. None) TypeMX s = Inr (put16 10 @ EncodeDomainName id ''mx'')"
  by (rule rdata_roundtrip) (use normal_mx in \<open>auto simp: canonical_rdata_def\<close>)

text \<open>C21: the two encoders of type bit maps agree.  For type names that parse, and with 34 bytes of
  room for each, \<open>encodeTypeBitMaps\<close> (the text side) succeeds, keeps the buffer before the offset,
  and writes what \<open>encodeWindowedBitmaps\<close> (the signing side) makes of the sorted types, a bit map
  that contains exactly the named types.\<close>

theorem encodeTypeBitMaps_exact:
  assumes "parse_types uu strs = Inr ts" and "strs \<noteq> []" and "off + 34 * length strs \<le> length buf"
  shows "\<exists>buf' n. encodeTypeBitMaps uu buf off strs = Inr (buf', n) \<and> take off buf' = take off buf \<and>
    sub_slice buf' off (off + n) = encodeWindowedBitmaps (sort ts) \<and>
    (\<forall>t. bitmap_has (sub_slice buf' off (off + n)) t \<longleftrightarrow> t \<in> set ts)"
proof -
  let ?e = "encodeWindowedBitmaps (sort ts)"
  obtain buf' where b: "encodeTypeBitMaps uu buf off strs = Inr (buf', length ?e)"
    "take (off + length ?e) buf' = take off buf @ ?e" "off + length ?e \<le> length buf'"
    using encodeTypeBitMaps_windows [OF assms] by blast
  have o: "length (take off buf) = off" using assms(3) by simp
  have "sub_slice buf' off (off + length ?e) = drop off (take (off + length ?e) buf')"
    by (simp add: sub_slice_def drop_take)
  then have "sub_slice buf' off (off + length ?e) = ?e" using b(2) o by simp
  moreover have "take off buf' = take off (take (off + length ?e) buf')" by simp
  then have "take off buf' = take off buf" using b(2) o by simp
  ultimately show ?thesis using b(1) bitmap_has_encode [of "sort ts"] by auto
qed

theorem encodeTypeBitMaps_exact_witness:
  "\<exists>buf' n. encodeTypeBitMaps id (replicate 100 0) 1 [''MX'', ''A''] = Inr (buf', n) \<and>
     take 1 buf' = take 1 (replicate 100 0) \<and>
     sub_slice buf' 1 (1 + n) = encodeWindowedBitmaps (sort [TypeMX, TypeA]) \<and>
     (\<forall>t. bitmap_has (sub_slice buf' 1 (1 + n)) t \<longleftrightarrow> t \<in> set [TypeMX, TypeA])"
proof (rule encodeTypeBitMaps_exact)
  show "parse_types id [''MX'', ''A''] = Inr [TypeMX, TypeA]"
    using ParseType_mnemonic [of TypeMX "''MX''" id] ParseType_mnemonic [of TypeA "''A''" id]
    by (simp add: type_mnemonics_def)
qed simp_all

text \<open>C33: a flaw.  Names inside record data are compressed against the record data alone.  When the
  mailbox of an SOA record lies below its primary name, the packed data ends the mailbox with a
  pointer to offset 0.  On its own the data reads back; copied into a message, as responses do, the
  pointer leads to the first byte of the message, and where that is zero (a message id below 256)
  the mailbox reads as its first label alone.\<close>

theorem SOA_mailbox_pointer:
  assumes "normal_name d" and "wire_label l" "list_all plain_char l" and "length l + length d \<le> 253"
  shows "\<exists>wire. PackRData uu b32 TypeSOA (join_with CHR '' '' [d @ ''.'', l @ CHR ''.'' # d @ ''.'',
        FormatUint (unat (n0 :: u32)), FormatUint (unat (n1 :: u32)), FormatUint (unat (n2 :: u32)),
        FormatUint (unat (n3 :: u32)), FormatUint (unat (n4 :: u32))]) = Inr wire \<and>
    UnpackDomainName wire (length d + 2) = Inr (l @ CHR ''.'' # d, length d + length l + 5) \<and>
    (\<forall>pre post. UnpackDomainName ((0 # pre) @ wire @ post) (length (0 # pre) + length d + 2) =
       Inr (l, length (0 # pre) + length d + length l + 5))"
proof -
  let ?e = "EncodeDomainName id d" and ?ls = "map bytes_of (split_on CHR ''.'' d)"
  let ?n = "put32 n0 @ put32 n1 @ put32 n2 @ put32 n3 @ put32 n4"
  let ?wire = "?e @ (encode_label l @ [0xC0, 0]) @ ?n"
  have len: "length ?e = length d + 2" by (rule length_Encode_normal [OF assms(1)])
  then have e: "?e \<noteq> []" by auto
  have j: "join_with CHR ''.'' (map string_of [bytes_of l]) = l" by simp
  have "\<exists>nx. name_at ?wire 0 ?ls 0 nx"
    using name_at_encoded [OF normal_name_good [OF assms(1)], of "[]"] by (fastforce simp: Encode_normal [OF assms(1)])
  then obtain nx where "name_at ?wire 0 ?ls 0 nx" ..
  from label_pointer_at [OF refl e assms(2) this]
  have "UnpackDomainName ?wire (length ?e) = Inr (l @ CHR ''.'' # d, length ?e + length l + 3)"
    unfolding join_labels [symmetric] by (rule name_at_Unpack)
      (use assms(4) wire_length_join [of "split_on CHR ''.'' d" "CHR ''.''"] in \<open>simp_all add: wire_length_def\<close>)
  moreover have "UnpackDomainName ((0 # pre) @ ?wire @ post) (length ((0 # pre) @ ?e)) =
      Inr (l, length ((0 # pre) @ ?e) + length l + 3)" for pre post
  proof -
    have z: "name_at ((0 # pre) @ ?wire @ post) 0 [] 0 (0 + 1)" by (rule name_end) simp_all
    have "name_at ((0 # pre) @ ?wire @ post) (length ((0 # pre) @ ?e)) [bytes_of l] (Suc 0)
        (length ((0 # pre) @ ?e) + length l + 3)"
      by (rule label_pointer_at [OF _ _ assms(2) z, of _ "?n @ post"]) simp_all
    from name_at_Unpack [OF this] j assms(2) show ?thesis by (simp add: wire_label_def)
  qed
  ultimately show ?thesis
    using SOA_packed [OF assms, of uu b32 n0 n1 n2 n3 n4 id] len
    by (intro exI [of _ ?wire]) (simp add: add.commute add.left_commute)
qed

theorem SOA_mailbox_pointer_witness:
  "\<exists>wire. PackRData id (\<lambda>_. None) TypeSOA (join_with CHR '' '' [''mx'' @ ''.'', ''root'' @ CHR ''.'' # ''mx'' @ ''.'',
        FormatUint (unat (1 :: u32)), FormatUint (unat (2 :: u32)), FormatUint (unat (3 :: u32)),
        FormatUint (unat (4 :: u32)), FormatUint (unat (5 :: u32))]) = Inr wire \<and>
    UnpackDomainName wire (length ''mx'' + 2) = Inr (''root'' @ CHR ''.'' # ''mx'', length ''mx'' + length ''root'' + 5) \<and>
    (\<forall>pre post. UnpackDomainName ((0 # pre) @ wire @ post) (length (0 # pre) + length ''mx'' + 2) =
       Inr (''root'', length (0 # pre) + length ''mx'' + length ''root'' + 5))"
  by (rule SOA_mailbox_pointer) (simp_all add: normal_mx wire_label_def plain_char_def)

text \<open>The types with a text format of their own.\<close>

abbreviation text_types :: "dns_type set" where
  "text_types \<equiv> {TypeA, TypeAAAA, TypeTXT, TypeCNAME, TypeNS, TypePTR, TypeSOA, TypeMX, TypeSRV, TypeDNSKEY,
     TypeDS, TypeRRSIG, TypeNSEC, TypeNSEC3, TypeZONEMD, TypeCAA}"

lemma hex_length: "length (hex_EncodeToString bs) = 2 * length bs"
  by (induction bs) (simp_all add: hex_EncodeToString_def hex_byte_def)

text \<open>C34: a flaw.  A type without a text format of its own is unpacked to hexadecimal digits, and
  packing takes the text as the data itself: the round trip returns the digits as ASCII, twice as
  many bytes, instead of the data.\<close>

theorem unknown_type_doubles:
  assumes "t \<notin> text_types" and "length wire \<le> 2048"
  shows "\<exists>s. UnpackRData uu uq t wire = Inr s \<and>
    (\<exists>wire'. PackRData uu b32 t s = Inr wire' \<and> wire' = bytes_of s \<and> length wire' = 2 * length wire)"
proof -
  let ?s = "hex_EncodeToString wire"
  have "UnpackRData uu uq t wire = Inr ?s" using assms(1) by (simp add: UnpackRData_def)
  moreover obtain w where "put_bytes fresh_writer (bytes_of ?s) = Inr w" "emitted fresh_writer (bytes_of ?s) w"
    using put_bytes_emits [of fresh_writer "bytes_of ?s"] assms(2) by (auto simp: hex_length)
  then have "PackRData uu b32 t ?s = Inr (bytes_of ?s)"
    using assms(1) by (intro PackRData_emits [of _ _ _ _ w]) (simp_all add: write_rdata_def writeRDataRaw_def)
  ultimately show ?thesis by (simp add: hex_length)
qed

theorem unknown_type_doubles_witness:
  "\<exists>s. UnpackRData id id 99 [1, 2] = Inr s \<and>
     (\<exists>wire'. PackRData id (\<lambda>_. None) 99 s = Inr wire' \<and> wire' = bytes_of s \<and> length wire' = 2 * length [1, 2 :: byte])"
  by (rule unknown_type_doubles) simp_all

end
